(* ===== verification/Prelude.thy ===== *)
theory Prelude
  imports
    Main
    "HOL-Library.Word"
    "HOL-Library.Char_ord"
    "HOL-Library.List_Lexorder"
    "HOL-Library.Product_Lexorder"
    "HOL-Library.Multiset"
    "HOL-Library.AList"
    "HOL-Library.Monad_Syntax"
begin

unbundle bit_operations_syntax

text \<open>
  What the components share: the names of the model's basic types, the few functions of the
  Rust standard library that several components call, and the generic lemmas on lists,
  association lists and sorting the component proofs rest on.

  A byte is a \<^typ>\<open>char\<close>, which in HOL is exactly an 8-bit value, so that a byte string
  literal of the source (\<^verbatim>\<open>b"G"\<close>) is a string literal here; \<^verbatim>\<open>Bytes\<close>, \<^verbatim>\<open>&[u8]\<close> and
  \<^verbatim>\<open>String\<close> are byte lists, compared lexicographically by byte value as Rust compares them.
  An \<^verbatim>\<open>Instant\<close> is a number of nanoseconds since the clock's origin, a \<^verbatim>\<open>Duration\<close> a
  number of nanoseconds. A \<^verbatim>\<open>HashMap\<close> is an association list with distinct keys; the
  order of the list is the (unspecified) iteration order of the map.
\<close>

type_synonym byte = char
type_synonym bytes = "char list"
type_synonym u64 = "64 word"
type_synonym instant = nat
type_synonym duration = nat

text \<open>Rules that open an operation of a component on its branches.\<close>
named_theorems op_defs

text \<open>Facts by which a component's invariant is carried through an operation.\<close>
named_theorems inv_rules

section \<open>Standard library\<close>

text \<open>\<^verbatim>\<open>Iterator::position\<close>.\<close>

fun position :: "('a \<Rightarrow> bool) \<Rightarrow> 'a list \<Rightarrow> nat option" where
  "position p [] = None"
| "position p (x # xs) = (if p x then Some 0 else map_option Suc (position p xs))"

text \<open>
  \<^verbatim>\<open>filter(|x| seen.insert(x))\<close> over a \<^verbatim>\<open>HashSet\<close>: keeps the first occurrence of
  each element.
\<close>

fun filter_unseen :: "'a list \<Rightarrow> 'a list \<Rightarrow> 'a list" where
  "filter_unseen seen [] = []"
| "filter_unseen seen (x # xs) =
     (if x \<in> set seen then filter_unseen seen xs else x # filter_unseen (x # seen) xs)"

text \<open>
  \<^verbatim>\<open>slice::select_nth_unstable_by\<close>: the element of rank \<open>i\<close> is moved to index \<open>i\<close>,
  everything that sorts before it stands before that index and everything that sorts after it
  stands after; the order inside the two parts is unspecified (here: the original one).
\<close>

definition select_nth_unstable :: "nat \<Rightarrow> 'a::linorder list \<Rightarrow> 'a list" where
  "select_nth_unstable i xs =
     (let p = sort xs ! i
      in filter (\<lambda>x. x < p) xs @ filter (\<lambda>x. x = p) xs @ filter (\<lambda>x. p < x) xs)"

definition select_nth_unstable_by :: "('a \<Rightarrow> 'b::linorder) \<Rightarrow> nat \<Rightarrow> 'a list \<Rightarrow> 'a list" where
  "select_nth_unstable_by f i xs =
     (let p = f (sort_key f xs ! i)
      in filter (\<lambda>x. f x < p) xs @ filter (\<lambda>x. f x = p) xs @ filter (\<lambda>x. p < f x) xs)"

text \<open>\<^verbatim>\<open>u64\<close>/\<^verbatim>\<open>usize\<close> ranges.\<close>

definition U64_MAX :: nat where "U64_MAX = 2 ^ 64 - 1"
definition U32_MAX :: nat where "U32_MAX = 2 ^ 32 - 1"

text \<open>\<^verbatim>\<open>usize::checked_add\<close> and \<^verbatim>\<open>usize::checked_mul\<close> on a 64-bit target.\<close>

definition checked_add :: "nat \<Rightarrow> nat \<Rightarrow> nat option" where
  "checked_add a b = (if a + b \<le> U64_MAX then Some (a + b) else None)"

definition checked_mul :: "nat \<Rightarrow> nat \<Rightarrow> nat option" where
  "checked_mul a b = (if a * b \<le> U64_MAX then Some (a * b) else None)"

section \<open>Lists\<close>

lemma position_None_iff: "position p xs = None \<longleftrightarrow> (\<forall>x\<in>set xs. \<not> p x)"
  by (induction xs) auto

lemma position_Some: "position p xs = Some i \<Longrightarrow> i < length xs \<and> p (xs ! i) \<and> (\<forall>j<i. \<not> p (xs ! j))"
proof (induction xs arbitrary: i)
  case (Cons x xs)
  then show ?case
    by (cases i) (auto split: if_splits simp: less_Suc_eq_0_disj)
qed simp

lemma set_filter_unseen [simp]: "set (filter_unseen seen xs) = set xs - set seen"
  by (induction xs arbitrary: seen) auto

lemma distinct_filter_unseen [simp]: "distinct (filter_unseen seen xs)"
  by (induction xs arbitrary: seen) auto

lemma filter_unseen_distinct:
  "distinct xs \<Longrightarrow> set seen \<inter> set xs = {} \<Longrightarrow> filter_unseen seen xs = xs"
  by (induction xs arbitrary: seen) auto

lemma filter_unseen_Nil_distinct [simp]: "distinct xs \<Longrightarrow> filter_unseen [] xs = xs"
  by (simp add: filter_unseen_distinct)

lemma mset_select_nth [simp]: "mset (select_nth_unstable i xs) = mset xs"
proof -
  have "mset xs = mset (filter (\<lambda>x. x < p) xs) + mset (filter (\<lambda>x. x = p) xs)
      + mset (filter (\<lambda>x. p < x) xs)" for p :: 'a
    by (induction xs) auto
  from this [of "sort xs ! i"] show ?thesis
    by (simp add: select_nth_unstable_def Let_def ac_simps)
qed

lemma length_select_nth [simp]: "length (select_nth_unstable i xs) = length xs"
  by (metis mset_select_nth size_mset)

lemma sorted_select_nth_take:
  assumes "distinct xs" and "i < length xs"
  shows "length (filter (\<lambda>x. x < sort xs ! i) xs) = i"
proof -
  let ?s = "sort xs"
  have strict: "sorted_wrt (<) ?s"
    using assms(1) by (simp add: strict_sorted_iff)
  have "filter (\<lambda>x. x < ?s ! i) ?s = take i ?s"
  proof -
    have "filter (\<lambda>x. x < ?s ! i) (take i ?s @ drop i ?s) = take i ?s"
    proof -
      have "\<forall>x\<in>set (take i ?s). x < ?s ! i"
        using strict assms(2) by (auto simp: in_set_conv_nth sorted_wrt_iff_nth_less)
      moreover have "\<forall>x\<in>set (drop i ?s). \<not> x < ?s ! i"
        using assms(2) by (auto simp: in_set_conv_nth not_less intro!: sorted_nth_mono)
      ultimately show ?thesis
        by (simp del: append_take_drop_id)
    qed
    then show ?thesis by simp
  qed
  moreover have "length (filter (\<lambda>x. x < ?s ! i) ?s) = length (filter (\<lambda>x. x < ?s ! i) xs)"
    by (metis mset_filter mset_sort size_mset)
  ultimately show ?thesis
    using assms(2) by simp
qed

text \<open>
  The contract the rings rely on: a prefix whose elements all sort before the rest is, sorted,
  the prefix of the sorted whole.
\<close>

lemma sort_take_partitioned:
  fixes xs ys :: "'a::linorder list"
  assumes "mset ys = mset xs" and "\<forall>a\<in>set (take k ys). \<forall>b\<in>set (drop k ys). a \<le> b"
  shows "sort (take k ys) = take k (sort xs)"
proof -
  have "sort (take k ys) @ sort (drop k ys) = sort xs"
  proof (rule properties_for_sort [symmetric])
    have "mset (sort (take k ys) @ sort (drop k ys)) = mset (take k ys @ drop k ys)"
      by (simp only: mset_append mset_sort)
    then show "mset (sort (take k ys) @ sort (drop k ys)) = mset xs"
      using assms(1) by simp
    show "sorted (sort (take k ys) @ sort (drop k ys))"
      using assms(2) by (simp add: sorted_append)
  qed
  then show ?thesis
    by (metis append_eq_conv_conj length_sort length_take mset_eq_length assms(1) min.commute
        take_all_iff append_Nil2 linorder_le_cases min_def drop_all sort_key_simps(1))
qed

lemma filter_eq_distinct: "p \<in> set xs \<Longrightarrow> distinct xs \<Longrightarrow> filter (\<lambda>x. x = p) xs = [p]"
  by (induction xs) (auto simp: filter_empty_conv)

lemma sort_take_select_nth:
  fixes xs :: "'a::linorder list"
  assumes "distinct xs" and "i < length xs" and "k = i \<or> k = Suc i"
  shows "sort (take k (select_nth_unstable i xs)) = take k (sort xs)"
proof (rule sort_take_partitioned)
  show "mset (select_nth_unstable i xs) = mset xs" by simp
  let ?p = "sort xs ! i"
  let ?lo = "filter (\<lambda>x. x < ?p) xs" and ?eq = "filter (\<lambda>x. x = ?p) xs"
    and ?hi = "filter (\<lambda>x. ?p < x) xs"
  have lo: "length ?lo = i"
    using assms(1,2) by (rule sorted_select_nth_take)
  have "?p \<in> set xs"
    using assms(2) by (metis length_sort nth_mem set_sort)
  then have eq: "?eq = [?p]"
    using assms(1) by (rule filter_eq_distinct)
  have sel: "select_nth_unstable i xs = ?lo @ ?p # ?hi"
    by (simp add: select_nth_unstable_def Let_def eq)
  show "\<forall>a\<in>set (take k (select_nth_unstable i xs)).
          \<forall>b\<in>set (drop k (select_nth_unstable i xs)). a \<le> b"
    using assms(3) lo by (auto simp: sel)
qed

text \<open>
  Both forms in which the source keeps the best \<open>r\<close> of a list: partition at \<open>top - 1\<close> and
  truncate to \<open>top\<close>, or partition at \<open>r\<close> and truncate to \<open>r\<close>.
\<close>

lemma sort_take_selected:
  fixes xs :: "'a::linorder list"
  assumes "distinct xs" and t: "t = min r (length xs)"
  shows "sort (take t (if 0 < t \<and> t < length xs then select_nth_unstable (t - 1) xs else xs))
    = take r (sort xs)"
proof (cases "0 < t \<and> t < length xs")
  case True
  then have "sort (take t (select_nth_unstable (t - 1) xs)) = take t (sort xs)"
    using assms(1) by (intro sort_take_select_nth) auto
  with True t show ?thesis by (auto simp: min_def split: if_splits)
next
  case False
  then show ?thesis
    using t by (cases "r = 0") (auto simp: min_def split: if_splits)
qed

lemma sort_take_selected':
  fixes xs :: "'a::linorder list"
  assumes "distinct xs" and t: "t = min r (length xs)"
  shows "sort (if t < length xs then take t (select_nth_unstable t xs) else xs) = take r (sort xs)"
proof (cases "t < length xs")
  case True
  then have "sort (take t (select_nth_unstable t xs)) = take t (sort xs)"
    using assms(1) by (intro sort_take_select_nth) auto
  with True t show ?thesis by (auto simp: min_def split: if_splits)
qed (use t in \<open>auto simp: min_def split: if_splits\<close>)

text \<open>Being among the first \<open>k\<close> of the sorted list is having fewer than \<open>k\<close> smaller elements.\<close>

lemma in_take_sort_iff:
  fixes xs :: "'a::linorder list"
  assumes "distinct xs" and "x \<in> set xs"
  shows "x \<in> set (take k (sort xs)) \<longleftrightarrow> length (filter (\<lambda>y. y < x) xs) < k"
proof -
  obtain i where i: "i < length xs" "sort xs ! i = x"
    using assms(2) by (metis in_set_conv_nth length_sort set_sort)
  have "length (filter (\<lambda>y. y < x) xs) = i"
    using sorted_select_nth_take [OF assms(1) i(1)] i(2) by simp
  moreover have "x \<in> set (take k (sort xs)) \<longleftrightarrow> i < k"
    using i assms(1) by (auto simp: in_set_conv_nth nth_eq_iff_index_eq)
  ultimately show ?thesis by simp
qed

section \<open>Association lists\<close>

lemma set_delete [simp]: "set (AList.delete k al) = {p \<in> set al. fst p \<noteq> k}"
  by (auto simp: AList.delete_eq)

lemma distinct_keys_delete [simp]: "distinct (map fst al) \<Longrightarrow> distinct (map fst (AList.delete k al))"
  by (simp add: delete_keys distinct_removeAll)

lemma distinct_keys_update [simp]: "distinct (map fst al) \<Longrightarrow> distinct (map fst (AList.update k v al))"
  by (rule distinct_update)

text \<open>Sums over the items of a map.\<close>

lemma sum_update:
  fixes g :: "'k \<times> 'v \<Rightarrow> int"
  shows "map_of al k = Some old \<Longrightarrow>
    sum_list (map g (AList.update k v al)) = sum_list (map g al) + g (k, v) - g (k, old)"
  by (induction al) auto

lemma sum_update_new:
  fixes g :: "'k \<times> 'v \<Rightarrow> int"
  shows "map_of al k = None \<Longrightarrow> sum_list (map g (AList.update k v al)) = sum_list (map g al) + g (k, v)"
  by (induction al) auto

lemma delete_absent [simp]: "map_of al k = None \<Longrightarrow> AList.delete k al = al"
  by (induction al) (auto split: if_splits)

lemma sum_delete:
  fixes g :: "'k \<times> 'v \<Rightarrow> int"
  shows "distinct (map fst al) \<Longrightarrow> map_of al k = Some old \<Longrightarrow>
    sum_list (map g (AList.delete k al)) = sum_list (map g al) - g (k, old)"
  by (induction al) (auto simp: map_of_eq_None_iff [symmetric] simp del: map_of_eq_None_iff)

lemma map_of_update [simp]: "map_of (AList.update k v al) = (map_of al)(k \<mapsto> v)"
  by (rule update_conv')

lemma map_of_delete [simp]: "map_of (AList.delete k al) = (map_of al)(k := None)"
  by (rule delete_conv')

lemma sorted_wrt_delete: "sorted_wrt P al \<Longrightarrow> sorted_wrt P (AList.delete k al)"
  by (simp add: AList.delete_eq sorted_wrt_filter)

lemma sum_nonneg_of_nonneg:
  fixes g :: "'a \<Rightarrow> int"
  shows "(\<And>x. x \<in> set xs \<Longrightarrow> 0 \<le> g x) \<Longrightarrow> 0 \<le> sum_list (map g xs)"
  by (induction xs) auto

lemma sum_ge_member:
  fixes g :: "'a \<Rightarrow> int"
  shows "x \<in> set xs \<Longrightarrow> (\<And>x. x \<in> set xs \<Longrightarrow> 0 \<le> g x) \<Longrightarrow> g x \<le> sum_list (map g xs)"
  by (induction xs) (auto intro: sum_nonneg_of_nonneg add_increasing add_increasing2)

end
