(* ===== verification/Node_Key.thy ===== *)
theory Node_Key
  imports Prelude
begin

text \<open>
  A cache key as the server addresses it (\<^verbatim>\<open>src/key.rs\<close>): a flat namespace, empty for the
  default one, and the name within it.
\<close>

record key =
  key_namespace :: bytes
  key_name :: bytes

definition new_key :: "bytes \<Rightarrow> bytes \<Rightarrow> key" where
  "new_key namespace name = \<lparr>key_namespace = namespace, key_name = name\<rparr>"

definition unnamespaced :: "bytes \<Rightarrow> key" where
  "unnamespaced name = \<lparr>key_namespace = [], key_name = name\<rparr>"

definition is_namespaced :: "key \<Rightarrow> bool" where
  "is_namespaced k = (key_namespace k \<noteq> [])"

end
