(* ===== verification/Hash_Ring.thy ===== *)
theory Hash_Ring
  imports Node_Key
begin

text \<open>
  The rendezvous-hash ring of the node (\<^verbatim>\<open>src/hash_ring.rs\<close>): the FNV-1a key hash with its namespace prefix, the per-run
  \<^verbatim>\<open>KeyHasher\<close>, the \<^verbatim>\<open>fmix64\<close> finalizer, and the ring's \<^verbatim>\<open>owners\<close>/\<^verbatim>\<open>is_owner\<close>.
  The lemmas show that the finalizer is a bijection, that the streamed hash is the hash of the
  canonical byte string, that the two ownership routines agree, and what a membership change
  moves.
\<close>

section \<open>FNV-1a\<close>

definition FNV_OFFSET_BASIS :: u64 where "FNV_OFFSET_BASIS = 0xcbf29ce484222325"
definition FNV_PRIME :: u64 where "FNV_PRIME = 0x100000001b3"

fun fnv1a_continue :: "u64 \<Rightarrow> bytes \<Rightarrow> u64" where
  "fnv1a_continue hash [] = hash"
| "fnv1a_continue hash (b # bs) = fnv1a_continue ((hash XOR of_char b) * FNV_PRIME) bs"

definition fnv1a :: "bytes \<Rightarrow> u64" where
  "fnv1a bs = fnv1a_continue FNV_OFFSET_BASIS bs"

text \<open>\<^verbatim>\<open>u32::to_be_bytes\<close>.\<close>

definition be32 :: "nat \<Rightarrow> bytes" where
  "be32 n = map char_of [n div 2 ^ 24 mod 256, n div 2 ^ 16 mod 256, n div 2 ^ 8 mod 256, n mod 256]"

text \<open>\<^verbatim>\<open>None\<close> is the \<^verbatim>\<open>expect\<close> on a namespace longer than a \<^verbatim>\<open>u32\<close> can say.\<close>

definition namespace_state :: "bytes \<Rightarrow> u64 option" where
  "namespace_state namespace =
     (if namespace = [] then Some FNV_OFFSET_BASIS
      else if length namespace > U32_MAX then None
      else Some (fnv1a_continue (fnv1a (be32 (length namespace))) namespace))"

definition key_hash_of :: "key \<Rightarrow> u64 option" where
  "key_hash_of k = do {
     state \<leftarrow> namespace_state (key_namespace k);
     Some (fnv1a_continue state (key_name k))
   }"

text \<open>
  The hasher of a run of keys. Whether two \<^verbatim>\<open>Bytes\<close> share their allocation (pointer and
  length compared) is a parameter \<open>same_alloc\<close>.
\<close>

record key_hasher =
  kh_last :: "(bytes \<times> u64) option"

definition key_hasher_default :: key_hasher where
  "key_hasher_default = \<lparr>kh_last = None\<rparr>"

definition key_hasher_hash ::
  "(bytes \<Rightarrow> bytes \<Rightarrow> bool) \<Rightarrow> key_hasher \<Rightarrow> key \<Rightarrow> (u64 \<times> key_hasher) option" where
  "key_hasher_hash same_alloc h k =
     (case kh_last h of
        Some (namespace, state) \<Rightarrow>
          if same_alloc namespace (key_namespace k) \<and> length namespace = length (key_namespace k)
          then Some (fnv1a_continue state (key_name k), h)
          else do {
            state \<leftarrow> namespace_state (key_namespace k);
            Some (fnv1a_continue state (key_name k), h\<lparr>kh_last := Some (key_namespace k, state)\<rparr>)
          }
      | None \<Rightarrow> do {
            state \<leftarrow> namespace_state (key_namespace k);
            Some (fnv1a_continue state (key_name k), h\<lparr>kh_last := Some (key_namespace k, state)\<rparr>)
          })"

text \<open>A run of keys through one hasher, as the sweep and the reclaim pass make it.\<close>

fun key_hasher_run ::
  "(bytes \<Rightarrow> bytes \<Rightarrow> bool) \<Rightarrow> key_hasher \<Rightarrow> key list \<Rightarrow> u64 list option" where
  "key_hasher_run same_alloc h [] = Some []"
| "key_hasher_run same_alloc h (k # ks) = do {
     (x, h') \<leftarrow> key_hasher_hash same_alloc h k;
     xs \<leftarrow> key_hasher_run same_alloc h' ks;
     Some (x # xs)
   }"

section \<open>The finalizer\<close>

definition fmix64 :: "u64 \<Rightarrow> u64" where
  "fmix64 hash =
     (let hash = hash XOR drop_bit 33 hash;
          hash = hash * 0xff51afd7ed558ccd;
          hash = hash XOR drop_bit 33 hash;
          hash = hash * 0xc4ceb9fe1a85ec53;
          hash = hash XOR drop_bit 33 hash
      in hash)"

section \<open>The ring\<close>

text \<open>
  An entry of the scored list, with the order \<^verbatim>\<open>by_score\<close> of the source: descending
  score, ties toward the lexicographically smaller name. As a \<open>linorder\<close> instance the
  library's \<open>sort\<close> is \<^verbatim>\<open>sort_unstable_by(by_score)\<close>.
\<close>

datatype scored = Scored (score: u64) (node: bytes)

instantiation scored :: linorder
begin

definition less_eq_scored :: "scored \<Rightarrow> scored \<Rightarrow> bool" where
  "less_eq_scored a b \<longleftrightarrow> score b < score a \<or> score a = score b \<and> node a \<le> node b"

definition less_scored :: "scored \<Rightarrow> scored \<Rightarrow> bool" where
  "less_scored a b \<longleftrightarrow> score b < score a \<or> score a = score b \<and> node a < node b"

instance
  by standard (auto simp: less_eq_scored_def less_scored_def intro: scored.expand)

end

record hash_ring =
  nodes :: "bytes list"
  node_hashes :: "u64 list"

definition new_ring :: "bytes list \<Rightarrow> hash_ring" where
  "new_ring ns =
     (let ns = filter_unseen [] ns
      in \<lparr>nodes = ns, node_hashes = map fnv1a ns\<rparr>)"

definition scored_nodes :: "hash_ring \<Rightarrow> u64 \<Rightarrow> scored list" where
  "scored_nodes r key_hash =
     map (\<lambda>(node_hash, n). Scored (fmix64 (node_hash XOR key_hash)) n) (zip (node_hashes r) (nodes r))"

definition owners_hashed :: "hash_ring \<Rightarrow> u64 \<Rightarrow> nat \<Rightarrow> bytes list" where
  "owners_hashed r key_hash replicas =
     (let scored = scored_nodes r key_hash;
          top = min replicas (length scored);
          scored = (if top > 0 \<and> top < length scored
                    then select_nth_unstable (top - 1) scored else scored)
      in map node (sort (take top scored)))"

definition owners :: "hash_ring \<Rightarrow> key \<Rightarrow> nat \<Rightarrow> bytes list option" where
  "owners r k replicas = do {
     h \<leftarrow> key_hash_of k;
     Some (owners_hashed r h replicas)
   }"

text \<open>The counting loop of \<^verbatim>\<open>is_owner_hashed\<close>, with its early exit.\<close>

fun outranked_loop ::
  "u64 \<Rightarrow> bytes \<Rightarrow> u64 \<Rightarrow> nat \<Rightarrow> nat \<Rightarrow> (u64 \<times> bytes) list \<Rightarrow> bool" where
  "outranked_loop key_hash name name_score replicas better_ranked [] = True"
| "outranked_loop key_hash name name_score replicas better_ranked ((node_hash, n) # rest) =
     (if n = name then outranked_loop key_hash name name_score replicas better_ranked rest
      else (let score = fmix64 (node_hash XOR key_hash)
            in if score > name_score \<or> score = name_score \<and> n < name
               then if better_ranked + 1 \<ge> replicas then False
                    else outranked_loop key_hash name name_score replicas (better_ranked + 1) rest
               else outranked_loop key_hash name name_score replicas better_ranked rest))"

definition is_owner_hashed :: "hash_ring \<Rightarrow> u64 \<Rightarrow> bytes \<Rightarrow> nat \<Rightarrow> bool" where
  "is_owner_hashed r key_hash name replicas =
     (if replicas = 0 then False
      else case position (\<lambda>n. n = name) (nodes r) of
             None \<Rightarrow> False
           | Some name_index \<Rightarrow>
               outranked_loop key_hash name (fmix64 (node_hashes r ! name_index XOR key_hash))
                 replicas 0 (zip (node_hashes r) (nodes r)))"

definition is_owner :: "hash_ring \<Rightarrow> key \<Rightarrow> bytes \<Rightarrow> nat \<Rightarrow> bool option" where
  "is_owner r k name replicas = do {
     h \<leftarrow> key_hash_of k;
     Some (is_owner_hashed r h name replicas)
   }"

text \<open>\<^verbatim>\<open>None\<close> is the out-of-range index on an empty ring.\<close>

definition route :: "hash_ring \<Rightarrow> key \<Rightarrow> bytes option" where
  "route r k = do {
     os \<leftarrow> owners r k 1;
     (case os of [] \<Rightarrow> None | x # _ \<Rightarrow> Some x)
   }"

section \<open>The hash of a key is the hash of its canonical input\<close>

lemma fnv1a_continue_append: "fnv1a_continue h (xs @ ys) = fnv1a_continue (fnv1a_continue h xs) ys"
  by (induction xs arbitrary: h) auto

text \<open>The canonical hash input of the module documentation.\<close>

definition canonical_input :: "key \<Rightarrow> bytes" where
  "canonical_input k =
     (if key_namespace k = [] then key_name k
      else be32 (length (key_namespace k)) @ key_namespace k @ key_name k)"

lemma length_be32 [simp]: "length (be32 n) = 4"
  by (simp add: be32_def)

lemma be32_inj: "be32 m = be32 n \<Longrightarrow> m \<le> U32_MAX \<Longrightarrow> n \<le> U32_MAX \<Longrightarrow> m = n"
proof -
  assume eq: "be32 m = be32 n" and m: "m \<le> U32_MAX" and n: "n \<le> U32_MAX"
  have byte: "char_of (a mod 256) = char_of (b mod 256) \<Longrightarrow> a mod 256 = b mod 256" for a b :: nat
    by (metis mod_mod_trivial of_char_of)
  have "m mod 256 = n mod 256" "m div 2 ^ 8 mod 256 = n div 2 ^ 8 mod 256"
    "m div 2 ^ 16 mod 256 = n div 2 ^ 16 mod 256" "m div 2 ^ 24 mod 256 = n div 2 ^ 24 mod 256"
    using eq by (auto simp: be32_def dest!: byte)
  moreover have "k = (((k div 2 ^ 24 mod 256) * 256 + k div 2 ^ 16 mod 256) * 256
      + k div 2 ^ 8 mod 256) * 256 + k mod 256" if "k \<le> U32_MAX" for k :: nat
  proof -
    have "k div 2 ^ 24 mod 256 = k div 2 ^ 24"
      using that unfolding U32_MAX_def by (intro mod_less) simp
    moreover have "k div 2 ^ 24 = k div 2 ^ 16 div 256" "k div 2 ^ 16 = k div 2 ^ 8 div 256"
      by (simp_all add: div_mult2_eq [symmetric])
    ultimately show ?thesis
      by simp
  qed
  ultimately show "m = n"
    using m n by metis
qed

lemma key_hash_of_canonical:
  "length (key_namespace k) \<le> U32_MAX \<Longrightarrow> key_hash_of k = Some (fnv1a (canonical_input k))"
  by (auto simp: key_hash_of_def namespace_state_def canonical_input_def fnv1a_def fnv1a_continue_append)

lemma canonical_input_inj:
  assumes "canonical_input k = canonical_input k'"
    and "is_namespaced k" "is_namespaced k'"
    and "length (key_namespace k) \<le> U32_MAX" "length (key_namespace k') \<le> U32_MAX"
  shows "k = k'"
proof -
  from assms(1-3) have eq:
    "be32 (length (key_namespace k)) @ key_namespace k @ key_name k
      = be32 (length (key_namespace k')) @ key_namespace k' @ key_name k'"
    by (simp add: canonical_input_def is_namespaced_def)
  then have "be32 (length (key_namespace k)) = be32 (length (key_namespace k'))"
    by (simp add: append_eq_append_conv)
  then have "length (key_namespace k) = length (key_namespace k')"
    using assms(4,5) by (rule be32_inj)
  with eq show ?thesis
    by (cases k; cases k') (simp add: append_eq_append_conv)
qed

subsection \<open>The hasher of a run of keys\<close>

text \<open>What the hasher remembers: the state after the namespace it holds.\<close>

definition hasher_ok :: "key_hasher \<Rightarrow> bool" where
  "hasher_ok h = (case kh_last h of None \<Rightarrow> True | Some (ns, st) \<Rightarrow> namespace_state ns = Some st)"

text \<open>What the source relies on: one allocation of one length holds one byte string.\<close>

definition alloc_sound :: "(bytes \<Rightarrow> bytes \<Rightarrow> bool) \<Rightarrow> bool" where
  "alloc_sound same_alloc \<longleftrightarrow> (\<forall>a b. same_alloc a b \<longrightarrow> length a = length b \<longrightarrow> a = b)"

lemma key_hasher_hash_correct:
  assumes alloc: "alloc_sound same_alloc" and "hasher_ok h"
  shows "key_hasher_hash same_alloc h k = None \<and> key_hash_of k = None
    \<or> (\<exists>x h'. key_hasher_hash same_alloc h k = Some (x, h') \<and> key_hash_of k = Some x \<and> hasher_ok h')"
proof (cases "namespace_state (key_namespace k)")
  case None
  then show ?thesis
    using assms by (fastforce simp: key_hasher_hash_def key_hash_of_def hasher_ok_def
        alloc_sound_def split: option.splits)
next
  case (Some st)
  then show ?thesis
    using assms by (fastforce simp: key_hasher_hash_def key_hash_of_def hasher_ok_def
        alloc_sound_def split: option.splits)
qed

lemma key_hasher_run_correct:
  assumes "alloc_sound same_alloc" and "hasher_ok h"
  shows "key_hasher_run same_alloc h ks = those (map key_hash_of ks)"
  using assms(2)
proof (induction ks arbitrary: h)
  case (Cons k ks)
  then show ?case
    using key_hasher_hash_correct [OF assms(1) Cons.prems, where k = k]
    by (cases "those (map key_hash_of ks)") (auto split: option.splits)
qed simp

section \<open>The finalizer is a bijection\<close>

definition unmix64 :: "u64 \<Rightarrow> u64" where
  "unmix64 hash =
     (let hash = hash XOR drop_bit 33 hash;
          hash = hash * 0x9cb4b2f8129337db;
          hash = hash XOR drop_bit 33 hash;
          hash = hash * 0x4f74430c22a54005;
          hash = hash XOR drop_bit 33 hash
      in hash)"

lemma xorshift33_involution: "(x XOR drop_bit 33 x) XOR drop_bit 33 (x XOR drop_bit 33 x) = (x :: u64)"
  by (rule bit_word_eqI) (auto simp: bit_simps)

lemma xorshift33_eq_iff: "x XOR drop_bit 33 x = (y :: u64) \<longleftrightarrow> x = y XOR drop_bit 33 y"
  by (metis xorshift33_involution)

lemma mul_inv1: "x * 0xff51afd7ed558ccd * 0x4f74430c22a54005 = (x :: u64)"
proof -
  have "0xff51afd7ed558ccd * 0x4f74430c22a54005 = (1 :: u64)" by simp
  then show ?thesis by (simp only: mult.assoc mult_1_right)
qed

lemma mul_inv2: "x * 0xc4ceb9fe1a85ec53 * 0x9cb4b2f8129337db = (x :: u64)"
proof -
  have "0xc4ceb9fe1a85ec53 * 0x9cb4b2f8129337db = (1 :: u64)" by simp
  then show ?thesis by (simp only: mult.assoc mult_1_right)
qed

lemma unmix64_fmix64: "unmix64 (fmix64 x) = x"
  unfolding unmix64_def fmix64_def Let_def
  by (simp only: xorshift33_involution mul_inv1 mul_inv2)

lemma fmix64_inj: "fmix64 x = fmix64 y \<longleftrightarrow> x = y"
  by (metis unmix64_fmix64)

section \<open>Ranking\<close>

text \<open>
  The reference every participant computes: all the names ranked by score, and the first
  \<open>r\<close> of them.
\<close>

definition score_list :: "bytes list \<Rightarrow> u64 \<Rightarrow> scored list" where
  "score_list ns h = map (\<lambda>n. Scored (fmix64 (fnv1a n XOR h)) n) ns"

definition hrw_rank :: "bytes list \<Rightarrow> u64 \<Rightarrow> bytes list" where
  "hrw_rank ns h = map node (sort (score_list ns h))"

lemma node_score_list [simp]: "map node (score_list ns h) = ns"
  by (induction ns) (auto simp: score_list_def)

lemma length_score_list [simp]: "length (score_list ns h) = length ns"
  by (simp add: score_list_def)

lemma distinct_score_list [simp]: "distinct (score_list ns h) \<longleftrightarrow> distinct ns"
  by (auto simp: score_list_def distinct_map inj_on_def)

lemma length_hrw_rank [simp]: "length (hrw_rank ns h) = length ns"
  by (simp add: hrw_rank_def)

lemma mset_hrw_rank: "mset (hrw_rank ns h) = mset ns"
proof -
  have "mset (hrw_rank ns h) = image_mset node (mset (score_list ns h))"
    by (simp add: hrw_rank_def)
  also have "\<dots> = mset (map node (score_list ns h))"
    by (simp only: mset_map)
  finally show ?thesis by simp
qed

lemma set_hrw_rank [simp]: "set (hrw_rank ns h) = set ns"
  by (metis mset_hrw_rank set_mset_mset)

lemma distinct_hrw_rank [simp]: "distinct (hrw_rank ns h) \<longleftrightarrow> distinct ns"
  by (metis mset_hrw_rank mset_eq_imp_distinct_iff)

lemma hrw_rank_cong: "distinct ns \<Longrightarrow> distinct ms \<Longrightarrow> set ns = set ms \<Longrightarrow> hrw_rank ns h = hrw_rank ms h"
proof -
  assume "distinct ns" "distinct ms" "set ns = set ms"
  then have "mset ns = mset ms"
    by (simp add: set_eq_iff_mset_eq_distinct)
  then have "mset (score_list ns h) = mset (score_list ms h)"
    by (simp add: score_list_def)
  then have "sort (score_list ns h) = sort (score_list ms h)"
    by (metis sorted_list_of_multiset_mset)
  then show ?thesis
    by (simp add: hrw_rank_def)
qed

text \<open>Adding a name never reorders the others.\<close>

lemma insort_split: "\<exists>us vs. xs = us @ vs \<and> insort a xs = us @ a # vs"
proof (induction xs)
  case (Cons x xs)
  then obtain us vs where "xs = us @ vs" "insort a xs = us @ a # vs" by blast
  then show ?case
    by (cases "a \<le> x") (auto intro: exI [of _ "[]"] exI [of _ "x # us"] exI [of _ vs])
qed simp

lemma hrw_rank_Cons:
  obtains us vs where "hrw_rank ns h = us @ vs" and "hrw_rank (x # ns) h = us @ x # vs"
proof -
  let ?a = "Scored (fmix64 (fnv1a x XOR h)) x"
  obtain us vs where split: "sort (score_list ns h) = us @ vs"
      "insort ?a (sort (score_list ns h)) = us @ ?a # vs"
    using insort_split by blast
  have "sort (score_list (x # ns) h) = insort ?a (sort (score_list ns h))"
    by (simp add: score_list_def)
  with split have "hrw_rank ns h = map node us @ map node vs"
      "hrw_rank (x # ns) h = map node us @ x # map node vs"
    by (simp_all add: hrw_rank_def)
  then show ?thesis by (rule that)
qed

section \<open>What every ring promises\<close>

text \<open>
  The contract of an implementation of the ranking: on a roster without repetitions it returns
  the first \<open>r\<close> names of the reference ranking. Everything the cluster protocol relies on
  follows from it: agreement of any two participants whatever order they hold the roster in, and
  how little a membership change moves.
\<close>

locale hrw_ring =
  fixes ring_owners :: "bytes list \<Rightarrow> u64 \<Rightarrow> nat \<Rightarrow> bytes list"
  assumes ranks: "distinct ns \<Longrightarrow> ring_owners ns h r = take r (hrw_rank ns h)"
begin

lemma owners_length: "distinct ns \<Longrightarrow> length (ring_owners ns h r) = min r (length ns)"
  by (simp add: ranks min.commute)

lemma owners_distinct: "distinct ns \<Longrightarrow> distinct (ring_owners ns h r)"
  by (simp add: ranks)

lemma owners_members: "distinct ns \<Longrightarrow> set (ring_owners ns h r) \<subseteq> set ns"
  by (metis ranks set_hrw_rank set_take_subset)

lemma owners_order_independent:
  "distinct ns \<Longrightarrow> distinct ms \<Longrightarrow> set ns = set ms \<Longrightarrow> ring_owners ns h r = ring_owners ms h r"
  by (simp add: ranks hrw_rank_cong [of ns ms])

lemma owners_prefix: "distinct ns \<Longrightarrow> r \<le> r' \<Longrightarrow> ring_owners ns h r = take r (ring_owners ns h r')"
  by (simp add: ranks min_absorb1)

lemma join_displaces_last:
  assumes "distinct ns" "distinct ms" "x \<notin> set ns" "set ms = insert x (set ns)"
  shows "(if x \<in> set (ring_owners ms h r)
          then filter (\<lambda>n. n \<noteq> x) (ring_owners ms h r)
               = (if length ns < r then ring_owners ns h r else butlast (ring_owners ns h r))
          else ring_owners ms h r = ring_owners ns h r)"
proof -
  obtain us vs where rank: "hrw_rank ns h = us @ vs" "hrw_rank (x # ns) h = us @ x # vs"
    by (rule hrw_rank_Cons)
  have new: "ring_owners ms h r = take r (us @ x # vs)"
    using assms rank hrw_rank_cong [of ms "x # ns" h] by (simp add: ranks)
  have old: "ring_owners ns h r = take r (us @ vs)"
    using assms rank by (simp add: ranks)
  have len: "length ns = length us + length vs"
    using rank(1) by (metis length_append length_hrw_rank)
  have notin: "x \<notin> set us" "x \<notin> set vs"
    using assms(3) rank(1) set_hrw_rank [of ns h] by auto
  show ?thesis
  proof (cases "length us < r")
    case True
    then obtain k where k: "r = length us + Suc k"
      by (metis less_iff_Suc_add add_Suc_right)
    have "filter (\<lambda>n. n \<noteq> x) (us @ take k vs) = us @ take k vs"
      by (rule filter_True) (use notin in \<open>auto dest: in_set_takeD\<close>)
    moreover have "butlast (us @ take (Suc k) vs) = us @ take k vs" if "\<not> length ns < r"
      using that k len by (auto simp: butlast_append butlast_take)
    moreover have "take k vs = take (Suc k) vs" if "length ns < r"
      using that k len by simp
    moreover have "ring_owners ms h r = us @ x # take k vs" "ring_owners ns h r = us @ take (Suc k) vs"
      using new old by (simp_all add: k)
    ultimately show ?thesis
      by auto
  next
    case False
    then show ?thesis
      using notin by (auto simp: new old dest: in_set_takeD)
  qed
qed

text \<open>Reading the same change backwards: what a departure brings in.\<close>

lemma leave_promotes_next:
  assumes "distinct ns" "distinct ms" "x \<notin> set ns" "set ms = insert x (set ns)"
    and "x \<in> set (ring_owners ms h r)" "r \<le> length ns"
  shows "\<exists>y. y \<notin> set (ring_owners ms h r) \<and>
    ring_owners ns h r = filter (\<lambda>n. n \<noteq> x) (ring_owners ms h r) @ [y]"
proof -
  let ?old = "ring_owners ms h r" and ?new = "ring_owners ns h r"
  have but: "filter (\<lambda>n. n \<noteq> x) ?old = butlast ?new"
    using join_displaces_last [OF assms(1-4), of h r] assms(5,6) by simp
  have "?new \<noteq> []"
  proof
    assume "?new = []"
    then have "r = 0 \<or> ns = []"
      using owners_length [OF assms(1), of h r] by (auto simp: min_def split: if_splits)
    then have "r = 0" using assms(6) by auto
    then show False
      using assms(2,5) by (simp add: ranks)
  qed
  then have split: "?new = butlast ?new @ [last ?new]" by simp
  have "last ?new \<notin> set (butlast ?new)"
    using owners_distinct [OF assms(1), of h r] split by (metis distinct_append disjoint_iff list.set_intros(1))
  moreover have "last ?new \<noteq> x"
    using owners_members [OF assms(1), of h r] assms(3) \<open>?new \<noteq> []\<close> by (meson last_in_set subsetD)
  ultimately have "last ?new \<notin> set ?old"
    using but by (metis (mono_tags, lifting) filter_set mem_Collect_eq set_filter)
  with split but show ?thesis by metis
qed

end

section \<open>The node's ring\<close>

lemma scored_nodes_new_ring: "scored_nodes (new_ring ns) h = score_list (filter_unseen [] ns) h"
proof -
  have "map (\<lambda>(nh, n). Scored (fmix64 (nh XOR h)) n) (zip (map fnv1a ms) ms) = score_list ms h" for ms
    by (induction ms) (auto simp: score_list_def)
  then show ?thesis
    by (simp add: scored_nodes_def new_ring_def Let_def)
qed

lemma owners_hashed_ranks: "owners_hashed (new_ring ns) h r = take r (hrw_rank (filter_unseen [] ns) h)"
  unfolding owners_hashed_def Let_def scored_nodes_new_ring hrw_rank_def
  by (subst sort_take_selected [OF _ refl]) (simp_all add: take_map)

interpretation node_ring: hrw_ring "\<lambda>ns. owners_hashed (new_ring ns)"
  by unfold_locales (simp add: owners_hashed_ranks)

subsection \<open>The allocation-free ownership test\<close>

lemma outranked_loop_counts:
  assumes "better < r"
  shows "outranked_loop h name s r better xs \<longleftrightarrow>
    better + length (filter (\<lambda>(nh, n). n \<noteq> name
      \<and> (s < fmix64 (nh XOR h) \<or> fmix64 (nh XOR h) = s \<and> n < name)) xs) < r"
  using assms by (induction h name s r better xs rule: outranked_loop.induct) (auto simp: Let_def)

lemma is_owner_hashed_iff:
  "is_owner_hashed (new_ring ns) h name r \<longleftrightarrow> name \<in> set (owners_hashed (new_ring ns) h r)"
proof -
  let ?ms = "filter_unseen [] ns"
  let ?f = "\<lambda>n. Scored (fmix64 (fnv1a n XOR h)) n"
  have ring: "nodes (new_ring ns) = ?ms" "node_hashes (new_ring ns) = map fnv1a ?ms"
    by (simp_all add: new_ring_def Let_def)
  show ?thesis
  proof (cases "r = 0 \<or> name \<notin> set ?ms")
    case True
    then show ?thesis
    proof
      assume out: "name \<notin> set ?ms"
      then have "position (\<lambda>n. n = name) ?ms = None" by (auto simp: position_None_iff)
      with out show ?thesis
        by (auto simp: is_owner_hashed_def ring owners_hashed_ranks dest: in_set_takeD)
    qed (simp add: is_owner_hashed_def owners_hashed_ranks)
  next
    case False
    then have "position (\<lambda>n. n = name) ?ms \<noteq> None"
      by (auto simp: position_None_iff)
    then obtain i where pos: "position (\<lambda>n. n = name) ?ms = Some i"
      by auto
    then have i: "i < length ?ms" "?ms ! i = name"
      using position_Some by blast+
    have "is_owner_hashed (new_ring ns) h name r \<longleftrightarrow>
        length (filter (\<lambda>(nh, n). n \<noteq> name \<and> (score (?f name) < fmix64 (nh XOR h)
          \<or> fmix64 (nh XOR h) = score (?f name) \<and> n < name)) (zip (map fnv1a ?ms) ?ms)) < r"
      using False i by (simp add: is_owner_hashed_def ring pos outranked_loop_counts)
    also have "filter (\<lambda>(nh, n). n \<noteq> name \<and> (score (?f name) < fmix64 (nh XOR h)
          \<or> fmix64 (nh XOR h) = score (?f name) \<and> n < name)) (zip (map fnv1a ms) ms)
        = map (\<lambda>n. (fnv1a n, n)) (filter (\<lambda>n. ?f n < ?f name) ms)" for ms
      by (induction ms) (auto simp: less_scored_def)
    also have "length (map (\<lambda>n. (fnv1a n, n)) (filter (\<lambda>n. ?f n < ?f name) ?ms))
        = length (filter (\<lambda>y. y < ?f name) (score_list ?ms h))"
      by (simp add: score_list_def filter_map o_def)
    also have "\<dots> < r \<longleftrightarrow> ?f name \<in> set (take r (sort (score_list ?ms h)))"
      using False by (subst in_take_sort_iff) (auto simp: score_list_def distinct_map inj_on_def)
    also have "\<dots> \<longleftrightarrow> name \<in> set (map node (take r (sort (score_list ?ms h))))"
    proof -
      have "set (take r (sort (score_list ?ms h))) \<subseteq> range ?f"
        by (auto simp: score_list_def dest!: in_set_takeD)
      then show ?thesis by force
    qed
    finally show ?thesis
      by (simp add: owners_hashed_ranks hrw_rank_def take_map)
  qed
qed

section \<open>Properties of the node's ring\<close>

text \<open>C20. The allocation-free test \<^verbatim>\<open>is_owner\<close> answers exactly whether the name is among the
  \<^verbatim>\<open>owners\<close>, for every roster (repeated names included), key and replication factor.\<close>

theorem is_owner_iff_in_owners:
  "is_owner (new_ring ns) k name r = map_option (\<lambda>os. name \<in> set os) (owners (new_ring ns) k r)"
  by (cases "key_hash_of k") (simp_all add: is_owner_def owners_def is_owner_hashed_iff)

text \<open>C21. A join moves as little as it can: with \<open>x\<close> added to the members, either \<open>x\<close> is no
  owner of the key and the owners are unchanged, or the old owners keep their order and only the
  last of them (none, if the cluster was smaller than the replication factor) gives way to
  \<open>x\<close>.\<close>

theorem join_moves_one_owner:
  assumes "x \<notin> set ns" and "set ms = insert x (set ns)"
  shows "if x \<in> set (owners_hashed (new_ring ms) h r)
    then filter (\<lambda>n. n \<noteq> x) (owners_hashed (new_ring ms) h r)
      = (if card (set ns) < r then owners_hashed (new_ring ns) h r
         else butlast (owners_hashed (new_ring ns) h r))
    else owners_hashed (new_ring ms) h r = owners_hashed (new_ring ns) h r"
proof -
  have dedup: "owners_hashed (new_ring xs) h r = owners_hashed (new_ring (filter_unseen [] xs)) h r" for xs
    by (simp add: owners_hashed_ranks)
  have "card (set ns) = length (filter_unseen [] ns)"
    by (metis diff_zero distinct_card distinct_filter_unseen Diff_empty list.set(1) set_filter_unseen)
  then show ?thesis
    using node_ring.join_displaces_last [of "filter_unseen [] ns" "filter_unseen [] ms" x h r] assms
    by (simp add: dedup [of ns] dedup [of ms])
qed

theorem join_moves_one_owner_witness:
  "''c'' \<notin> set [''a'', ''b''] \<and> set [''b'', ''c'', ''a''] = insert ''c'' (set [''a'', ''b''])
   \<and> (if ''c'' \<in> set (owners_hashed (new_ring [''b'', ''c'', ''a'']) 7 1)
      then filter (\<lambda>n. n \<noteq> ''c'') (owners_hashed (new_ring [''b'', ''c'', ''a'']) 7 1)
        = (if card (set [''a'', ''b'']) < 1 then owners_hashed (new_ring [''a'', ''b'']) 7 1
           else butlast (owners_hashed (new_ring [''a'', ''b'']) 7 1))
      else owners_hashed (new_ring [''b'', ''c'', ''a'']) 7 1 = owners_hashed (new_ring [''a'', ''b'']) 7 1)"
proof -
  have out: "''c'' \<notin> set [''a'', ''b'']" by simp
  have ins: "set [''b'', ''c'', ''a''] = insert ''c'' (set [''a'', ''b''])" by auto
  show ?thesis
    using out ins join_moves_one_owner [OF out ins, of 7 1] by blast
qed

text \<open>C28. Two different namespaced keys never share a hash input: the hash of a key is FNV-1a of
  the length-prefixed canonical byte string, and that string determines the namespace and the
  name.\<close>

theorem namespaced_keys_never_share_input:
  assumes "is_namespaced k" "is_namespaced k'"
    and "length (key_namespace k) \<le> U32_MAX" "length (key_namespace k') \<le> U32_MAX"
  shows "key_hash_of k = Some (fnv1a (canonical_input k)) \<and> key_hash_of k' = Some (fnv1a (canonical_input k'))
    \<and> (canonical_input k = canonical_input k' \<longleftrightarrow> k = k')"
  using assms canonical_input_inj key_hash_of_canonical by blast

theorem namespaced_keys_never_share_input_witness:
  "key_hash_of (new_key ''ab'' ''c'') = Some (fnv1a (canonical_input (new_key ''ab'' ''c'')))
   \<and> key_hash_of (new_key ''a'' ''bc'') = Some (fnv1a (canonical_input (new_key ''a'' ''bc'')))
   \<and> (canonical_input (new_key ''ab'' ''c'') = canonical_input (new_key ''a'' ''bc'')
      \<longleftrightarrow> new_key ''ab'' ''c'' = new_key ''a'' ''bc'')"
  using namespaced_keys_never_share_input [of "new_key ''ab'' ''c''" "new_key ''a'' ''bc''"]
  by (simp add: is_namespaced_def new_key_def U32_MAX_def)

text \<open>C29. The hasher that remembers the last namespace by its allocation gives every key of a run
  its one-shot hash, whatever the order of the keys.\<close>

theorem key_hasher_run_is_one_shot:
  assumes "alloc_sound same_alloc"
  shows "key_hasher_run same_alloc key_hasher_default ks = those (map key_hash_of ks)"
  using assms by (rule key_hasher_run_correct) (simp add: hasher_ok_def key_hasher_default_def)

theorem key_hasher_run_is_one_shot_witness:
  "alloc_sound (=) \<and> key_hasher_run (=) key_hasher_default [new_key ''n'' ''a'', new_key ''n'' ''b'', unnamespaced ''a'']
    = those (map key_hash_of [new_key ''n'' ''a'', new_key ''n'' ''b'', unnamespaced ''a''])"
proof -
  have alloc: "alloc_sound (=)" by (simp add: alloc_sound_def)
  then show ?thesis using key_hasher_run_is_one_shot [OF alloc] by blast
qed

text \<open>C30. The finalizer loses nothing: \<^verbatim>\<open>fmix64\<close> is a bijection on 64-bit words, so two
  nodes tie on a key only if their name hashes are equal.\<close>

theorem fmix64_bijective: "bij fmix64 \<and> (fmix64 (a XOR h) = fmix64 (b XOR h) \<longleftrightarrow> a = b)"
proof
  have "inj fmix64" by (auto simp: inj_def fmix64_inj)
  then show "bij fmix64" by (simp add: bij_def finite_UNIV_inj_surj)
  have "(x XOR h) XOR h = x" for x :: u64
    by (simp add: xor.assoc)
  then have "a XOR h = b XOR h \<longleftrightarrow> a = b"
    by metis
  then show "fmix64 (a XOR h) = fmix64 (b XOR h) \<longleftrightarrow> a = b"
    by (simp add: fmix64_inj)
qed

end
