(* ===== verification/Ring_Clients.thy ===== *)
theory Ring_Clients
  imports Hash_Ring
begin

text \<open>
  The three other implementations of the ring in this repository, each written on its own and
  each expected to place every key exactly where the node does: the Rust SDK's
  (\<^verbatim>\<open>sdk/rust/src/hash_ring.rs\<close>), the proxy's \<^verbatim>\<open>RingView\<close>
  (\<^verbatim>\<open>src/bin/nanocached-proxy.rs\<close>) with its bounded insertion, and the join harness's
  \<^verbatim>\<open>Ring\<close> (\<^verbatim>\<open>src/bin/verify-staged-join.rs\<close>). Each is shown to satisfy the contract
  \<open>hrw_ring\<close>.
\<close>

section \<open>The Rust SDK\<close>

fun sdk_fnv1a_continue :: "u64 \<Rightarrow> bytes \<Rightarrow> u64" where
  "sdk_fnv1a_continue hash [] = hash"
| "sdk_fnv1a_continue hash (b # bs) = sdk_fnv1a_continue ((hash XOR of_char b) * 0x100000001b3) bs"

definition sdk_fnv1a :: "bytes \<Rightarrow> u64" where
  "sdk_fnv1a bs = sdk_fnv1a_continue 0xcbf29ce484222325 bs"

definition sdk_key_hash :: "bytes \<Rightarrow> bytes \<Rightarrow> u64 option" where
  "sdk_key_hash namespace k =
     (if namespace = [] then Some (sdk_fnv1a k)
      else if length namespace > U32_MAX then None
      else (let hash = sdk_fnv1a (be32 (length namespace));
                hash = sdk_fnv1a_continue hash namespace
            in Some (sdk_fnv1a_continue hash k)))"

definition sdk_fmix64 :: "u64 \<Rightarrow> u64" where
  "sdk_fmix64 hash =
     (let hash = hash XOR drop_bit 33 hash;
          hash = hash * 0xff51afd7ed558ccd;
          hash = hash XOR drop_bit 33 hash;
          hash = hash * 0xc4ceb9fe1a85ec53;
          hash = hash XOR drop_bit 33 hash
      in hash)"

record sdk_ring =
  sdk_nodes :: "bytes list"
  sdk_node_hashes :: "u64 list"

definition sdk_new_ring :: "bytes list \<Rightarrow> sdk_ring" where
  "sdk_new_ring ns =
     (let ns = filter_unseen [] ns
      in \<lparr>sdk_nodes = ns, sdk_node_hashes = map sdk_fnv1a ns\<rparr>)"

definition sdk_owners_hashed :: "sdk_ring \<Rightarrow> u64 \<Rightarrow> nat \<Rightarrow> bytes list" where
  "sdk_owners_hashed ring key_hash replicas =
     (let scored = map (\<lambda>(node_hash, n). Scored (sdk_fmix64 (node_hash XOR key_hash)) n)
                     (zip (sdk_node_hashes ring) (sdk_nodes ring));
          r = min replicas (length scored);
          scored = (if r < length scored then take r (select_nth_unstable r scored) else scored)
      in map node (sort scored))"

definition sdk_owners :: "sdk_ring \<Rightarrow> bytes \<Rightarrow> bytes \<Rightarrow> nat \<Rightarrow> bytes list option" where
  "sdk_owners ring namespace k replicas = do {
     key_hash \<leftarrow> sdk_key_hash namespace k;
     Some (sdk_owners_hashed ring key_hash replicas)
   }"

section \<open>The join harness\<close>

fun verify_fnv1a_continue :: "u64 \<Rightarrow> bytes \<Rightarrow> u64" where
  "verify_fnv1a_continue hash [] = hash"
| "verify_fnv1a_continue hash (b # bs) = verify_fnv1a_continue ((hash XOR of_char b) * 0x100000001b3) bs"

definition verify_fnv1a :: "bytes \<Rightarrow> u64" where
  "verify_fnv1a bs = verify_fnv1a_continue 0xcbf29ce484222325 bs"

definition verify_key_hash :: "bytes \<Rightarrow> bytes \<Rightarrow> u64 option" where
  "verify_key_hash namespace k =
     (if namespace = [] then Some (verify_fnv1a k)
      else if length namespace > U32_MAX then None
      else (let hash = verify_fnv1a (be32 (length namespace));
                hash = verify_fnv1a_continue hash namespace
            in Some (verify_fnv1a_continue hash k)))"

definition verify_fmix64 :: "u64 \<Rightarrow> u64" where
  "verify_fmix64 hash =
     (let hash = hash XOR drop_bit 33 hash;
          hash = hash * 0xff51afd7ed558ccd;
          hash = hash XOR drop_bit 33 hash;
          hash = hash * 0xc4ceb9fe1a85ec53;
          hash = hash XOR drop_bit 33 hash
      in hash)"

text \<open>A roster entry is a name and an address; the ring keeps the roster as it was given.\<close>

definition verify_owners_hashed :: "(bytes \<times> bytes) list \<Rightarrow> u64 \<Rightarrow> nat \<Rightarrow> (bytes \<times> bytes) list" where
  "verify_owners_hashed roster key_hash replicas =
     (let node_hashes = map (\<lambda>(name, _). verify_fnv1a name) roster;
          scored = map (\<lambda>(node_hash, n). (verify_fmix64 (node_hash XOR key_hash), n)) (zip node_hashes roster)
      in map snd (take replicas (sort_key (\<lambda>(s, n). Scored s (fst n)) scored)))"

definition verify_owners :: "(bytes \<times> bytes) list \<Rightarrow> bytes \<Rightarrow> bytes \<Rightarrow> nat \<Rightarrow> (bytes \<times> bytes) list option" where
  "verify_owners roster namespace k replicas = do {
     key_hash \<leftarrow> verify_key_hash namespace k;
     Some (verify_owners_hashed roster key_hash replicas)
   }"

section \<open>The proxy\<close>

fun proxy_fnv1a_continue :: "u64 \<Rightarrow> bytes \<Rightarrow> u64" where
  "proxy_fnv1a_continue hash [] = hash"
| "proxy_fnv1a_continue hash (b # bs) = proxy_fnv1a_continue ((hash XOR of_char b) * 0x100000001b3) bs"

definition proxy_fnv1a :: "bytes \<Rightarrow> u64" where
  "proxy_fnv1a bs = proxy_fnv1a_continue 0xcbf29ce484222325 bs"

definition proxy_fmix64 :: "u64 \<Rightarrow> u64" where
  "proxy_fmix64 hash =
     (let hash = hash XOR drop_bit 33 hash;
          hash = hash * 0xff51afd7ed558ccd;
          hash = hash XOR drop_bit 33 hash;
          hash = hash * 0xc4ceb9fe1a85ec53;
          hash = hash XOR drop_bit 33 hash
      in hash)"

definition namespace_hash_of :: "bytes \<Rightarrow> u64 option" where
  "namespace_hash_of namespace =
     (if namespace = [] then Some 0xcbf29ce484222325
      else if length namespace > U32_MAX then None
      else Some (proxy_fnv1a_continue (proxy_fnv1a (be32 (length namespace))) namespace))"

definition namespace_hash_key :: "u64 \<Rightarrow> bytes \<Rightarrow> u64" where
  "namespace_hash_key state k = proxy_fnv1a_continue state k"

record ring_view =
  rv_nodes :: "(bytes \<times> bytes) list"
  rv_node_hashes :: "u64 list"
  rv_addr_slot :: "nat list"
  rv_replication :: nat

text \<open>\<^verbatim>\<open>first_with_addr.entry(addr).or_insert(index)\<close> over the enumerated roster.\<close>

fun addr_slots :: "(bytes \<times> nat) list \<Rightarrow> nat \<Rightarrow> (bytes \<times> bytes) list \<Rightarrow> nat list" where
  "addr_slots first_with_addr index [] = []"
| "addr_slots first_with_addr index ((_, addr) # rest) =
     (case map_of first_with_addr addr of
        Some i \<Rightarrow> i # addr_slots first_with_addr (Suc index) rest
      | None \<Rightarrow> index # addr_slots ((addr, index) # first_with_addr) (Suc index) rest)"

definition ring_view_new :: "(bytes \<times> bytes) list \<Rightarrow> nat \<Rightarrow> ring_view" where
  "ring_view_new ns replication =
     \<lparr>rv_nodes = ns, rv_node_hashes = map (\<lambda>(name, _). proxy_fnv1a name) ns,
      rv_addr_slot = addr_slots [] 0 ns, rv_replication = replication\<rparr>"

definition distinct_addresses :: "ring_view \<Rightarrow> nat" where
  "distinct_addresses v = length (filter (\<lambda>(index, slot). index = slot) (enumerate 0 (rv_addr_slot v)))"

definition outranks :: "ring_view \<Rightarrow> u64 \<times> nat \<Rightarrow> u64 \<times> nat \<Rightarrow> bool" where
  "outranks v a b \<longleftrightarrow>
     fst a > fst b \<or> fst a = fst b \<and> fst (rv_nodes v ! snd a) < fst (rv_nodes v ! snd b)"

text \<open>
  The insertion loop of \<^verbatim>\<open>rank_owners\<close>; \<^verbatim>\<open>partition_point\<close> on a list ranked best first
  is the length of its longest prefix of better entries.
\<close>

fun rank_insert_loop :: "ring_view \<Rightarrow> nat \<Rightarrow> (u64 \<times> nat) list \<Rightarrow> (u64 \<times> nat) list \<Rightarrow> (u64 \<times> nat) list" where
  "rank_insert_loop v limit tops [] = tops"
| "rank_insert_loop v limit tops (candidate # rest) =
     (if length tops = limit \<and> \<not> outranks v candidate (tops ! (limit - 1))
      then rank_insert_loop v limit tops rest
      else (let pos = length (takeWhile (\<lambda>held. outranks v held candidate) tops);
                tops = (if length tops = limit then butlast tops else tops)
            in rank_insert_loop v limit (take pos tops @ candidate # drop pos tops) rest))"

definition rank_owners :: "ring_view \<Rightarrow> u64 \<Rightarrow> nat \<Rightarrow> (u64 \<times> nat) list" where
  "rank_owners v key_hash limit =
     (let limit = min (min limit (rv_replication v)) (length (rv_nodes v))
      in if limit = 0 then []
         else (let scores = map (\<lambda>(index, node_hash). (proxy_fmix64 (node_hash XOR key_hash), index))
                              (enumerate 0 (rv_node_hashes v))
               in if limit > 8
                  then take limit (sort_key (\<lambda>(s, i). Scored s (fst (rv_nodes v ! i))) scores)
                  else rank_insert_loop v limit [] scores))"

definition proxy_owners :: "ring_view \<Rightarrow> bytes \<Rightarrow> bytes \<Rightarrow> bytes list option" where
  "proxy_owners v namespace k = do {
     state \<leftarrow> namespace_hash_of namespace;
     Some (map (\<lambda>(_, index). snd (rv_nodes v ! index))
             (rank_owners v (namespace_hash_key state k) (rv_replication v)))
   }"

definition same_roster :: "ring_view \<Rightarrow> ring_view \<Rightarrow> bool" where
  "same_roster a b \<longleftrightarrow> rv_replication a = rv_replication b \<and> rv_nodes a = rv_nodes b"

definition all_addresses :: "ring_view \<Rightarrow> bytes list" where
  "all_addresses v = map (\<lambda>(_, addr). addr) (rv_nodes v)"

section \<open>One hash\<close>

lemma fnv1a_copies [simp]:
  "sdk_fnv1a_continue h bs = fnv1a_continue h bs"
  "verify_fnv1a_continue h bs = fnv1a_continue h bs"
  "proxy_fnv1a_continue h bs = fnv1a_continue h bs"
  by (induction bs arbitrary: h) (simp_all add: FNV_PRIME_def)

lemma fnv1a_copies_start [simp]: "sdk_fnv1a = fnv1a" "verify_fnv1a = fnv1a" "proxy_fnv1a = fnv1a"
  by (simp_all add: fun_eq_iff fnv1a_def sdk_fnv1a_def verify_fnv1a_def proxy_fnv1a_def FNV_OFFSET_BASIS_def)

lemma fmix64_copies [simp]: "sdk_fmix64 = fmix64" "verify_fmix64 = fmix64" "proxy_fmix64 = fmix64"
  by (simp_all add: fun_eq_iff fmix64_def sdk_fmix64_def verify_fmix64_def proxy_fmix64_def)

lemma key_hash_copies:
  "sdk_key_hash ns k = key_hash_of (new_key ns k)"
  "verify_key_hash ns k = key_hash_of (new_key ns k)"
  "map_option (\<lambda>st. namespace_hash_key st k) (namespace_hash_of ns) = key_hash_of (new_key ns k)"
  by (simp_all add: sdk_key_hash_def verify_key_hash_def namespace_hash_of_def namespace_hash_key_def
      key_hash_of_def new_key_def namespace_state_def Let_def fnv1a_def FNV_OFFSET_BASIS_def)

section \<open>The SDK's ring and the harness's ring\<close>

lemma zip_map_same: "map (\<lambda>(a, b). f a b) (zip (map g xs) xs) = map (\<lambda>x. f (g x) x) xs"
  by (induction xs) auto

lemma sdk_owners_ranks:
  "sdk_owners_hashed (sdk_new_ring ns) h r = take r (hrw_rank (filter_unseen [] ns) h)"
proof -
  let ?ms = "filter_unseen [] ns"
  have "map (\<lambda>(nh, n). Scored (fmix64 (nh XOR h)) n) (zip (map fnv1a ?ms) ?ms) = score_list ?ms h"
    by (simp add: score_list_def zip_map_same)
  then show ?thesis
    using sort_take_selected' [of "score_list ?ms h" "min r (length (score_list ?ms h))" r]
    by (simp add: sdk_owners_hashed_def sdk_new_ring_def Let_def hrw_rank_def take_map)
qed

interpretation sdk_hrw: hrw_ring "\<lambda>ns. sdk_owners_hashed (sdk_new_ring ns)"
  by unfold_locales (simp add: sdk_owners_ranks)

lemma map_sort_key: "map f (sort_key f xs) = sort (map f xs)"
  by (rule properties_for_sort [symmetric]) (simp_all add: sorted_sort_key)

lemma verify_owners_ranks:
  "map fst (verify_owners_hashed roster h r) = take r (hrw_rank (map fst roster) h)"
proof -
  let ?scored = "map (\<lambda>n. (fmix64 (fnv1a (fst n) XOR h), n)) roster"
  let ?sc = "\<lambda>(s, n :: bytes \<times> bytes). Scored s (fst n)"
  have "map fst (map snd (take r (sort_key ?sc ?scored))) = map node (take r (map ?sc (sort_key ?sc ?scored)))"
    by (simp add: take_map o_def case_prod_unfold)
  also have "map ?sc (sort_key ?sc ?scored) = sort (map ?sc ?scored)"
    by (rule map_sort_key)
  also have "map ?sc ?scored = score_list (map fst roster) h"
    by (simp add: score_list_def o_def)
  finally show ?thesis
    by (simp add: verify_owners_hashed_def Let_def case_prod_unfold zip_map_same
        [where f = "\<lambda>a b. (fmix64 (a XOR h), b)", unfolded case_prod_unfold]
        hrw_rank_def take_map)
qed

text \<open>The contract speaks of names; the harness carries the address along.\<close>

interpretation verify_hrw: hrw_ring
  "\<lambda>ns h r. map fst (verify_owners_hashed (map (\<lambda>n. (n, addr_of n)) ns) h r)"
  for addr_of :: "bytes \<Rightarrow> bytes"
  by unfold_locales (simp add: verify_owners_ranks o_def)

section \<open>The proxy's bounded insertion\<close>

text \<open>
  The loop keeps, of the entries seen so far, the best \<open>k\<close> in order. Stated first for any
  linear order: one round is \<open>insort\<close> followed by a truncation.
\<close>

lemma insort_takeWhile:
  fixes x :: "'a::linorder"
  assumes "sorted ys" and "x \<notin> set ys"
  shows "insort x ys = (let p = length (takeWhile (\<lambda>y. y < x) ys) in take p ys @ x # drop p ys)"
  using assms by (induction ys) (auto simp: Let_def)

lemma take_insort_take:
  fixes x :: "'a::linorder"
  assumes "sorted ys"
  shows "take k (insort x (take k ys)) = take k (insort x ys)"
  using assms
proof (induction ys arbitrary: k)
  case (Cons y ys)
  then show ?case
    by (cases k) (auto simp: min_def take_Cons')
qed simp

lemma bounded_round:
  fixes x :: "'a::linorder"
  assumes "sorted ys" "x \<notin> set ys" "0 < k" "length ys \<le> k"
  shows "take k (insort x ys) =
    (if length ys = k \<and> \<not> x < ys ! (k - 1) then ys
     else (let p = length (takeWhile (\<lambda>y. y < x) ys);
               zs = (if length ys = k then butlast ys else ys)
           in take p zs @ x # drop p zs))"
proof (cases "length ys = k")
  case False
  moreover have "min k (length (takeWhile (\<lambda>y. y < x) ys)) = length (takeWhile (\<lambda>y. y < x) ys)"
    using assms(4) length_takeWhile_le [of "\<lambda>y. y < x" ys] by simp
  ultimately show ?thesis
    using insort_takeWhile [OF assms(1,2)] assms(4) by (simp add: Let_def)
next
  case True
  with assms(3) obtain zs l where ys: "ys = zs @ [l]" and k: "k = Suc (length zs)"
    by (cases ys rule: rev_cases) auto
  define p where "p = length (takeWhile (\<lambda>y. y < x) ys)"
  have ins: "insort x ys = take p ys @ x # drop p ys"
    using insort_takeWhile [OF assms(1,2)] by (simp add: Let_def p_def)
  show ?thesis
  proof (cases "x < l")
    case True
    then have "p \<le> length zs"
      by (simp add: p_def ys takeWhile_tail length_takeWhile_le)
    then have "take k (insort x ys) = take p zs @ x # drop p zs"
      unfolding ins by (simp add: ys k Suc_diff_le)
    with True \<open>length ys = k\<close> show ?thesis
      by (simp add: ys k Let_def nth_append p_def)
  next
    case False
    then have "\<forall>y\<in>set ys. y < x"
      using assms(1,2) by (auto simp: ys sorted_append)
    then have "takeWhile (\<lambda>y. y < x) ys = ys" by (simp add: takeWhile_eq_all_conv)
    then have "p = length ys" by (simp only: p_def)
    with False \<open>length ys = k\<close> show ?thesis
      unfolding ins by (simp add: ys k nth_append)
  qed
qed

text \<open>The rank of a proxy entry: its score with the name its index stands for.\<close>

definition rv_scored :: "ring_view \<Rightarrow> u64 \<times> nat \<Rightarrow> scored" where
  "rv_scored v e = Scored (fst e) (fst (rv_nodes v ! snd e))"

lemma outranks_iff: "outranks v a b \<longleftrightarrow> rv_scored v a < rv_scored v b"
  by (auto simp: outranks_def less_scored_def rv_scored_def)

lemma rank_insert_loop_ranks:
  assumes "0 < limit" "distinct (map (rv_scored v) (seen @ rest))"
    and "map (rv_scored v) tops = take limit (sort (map (rv_scored v) seen))"
  shows "map (rv_scored v) (rank_insert_loop v limit tops rest)
    = take limit (sort (map (rv_scored v) (seen @ rest)))"
  using assms(2,3)
proof (induction rest arbitrary: seen tops)
  case Nil
  then show ?case by simp
next
  case (Cons c rest)
  let ?f = "rv_scored v"
  let ?ys = "map ?f tops"
  have ys: "sorted ?ys" "length ?ys \<le> limit" "?f c \<notin> set ?ys"
    using Cons.prems by (auto simp: sorted_wrt_take dest: in_set_takeD)
  have snoc: "sort (map ?f (seen @ [c])) = insort (?f c) (sort (map ?f seen))"
    by (rule properties_for_sort) (simp_all add: sorted_insort)
  have step: "map ?f tops' = take limit (sort (map ?f (seen @ [c])))"
    if "map ?f tops' = take limit (insort (?f c) ?ys)" for tops'
    using that take_insort_take [of "sort (map ?f seen)" limit "?f c"] Cons.prems(2) snoc by simp
  have tw: "length (takeWhile (\<lambda>held. outranks v held c) tops) = length (takeWhile (\<lambda>y. y < ?f c) ?ys)"
    by (simp add: takeWhile_map o_def outranks_iff)
  have last: "outranks v c (tops ! (limit - 1)) \<longleftrightarrow> ?f c < ?ys ! (limit - 1)" if "length tops = limit"
    using that assms(1) by (simp add: outranks_iff)
  have IH: "map ?f (rank_insert_loop v limit tops' rest) = take limit (sort (map ?f (seen @ c # rest)))"
    if "map ?f tops' = take limit (insort (?f c) ?ys)" for tops'
    using Cons.IH [of "seen @ [c]" tops'] step [OF that] Cons.prems(1) by simp
  show ?case
  proof (cases "length tops = limit \<and> \<not> outranks v c (tops ! (limit - 1))")
    case True
    then have "take limit (insort (?f c) ?ys) = ?ys"
      using bounded_round [OF ys(1,3) assms(1) ys(2)] last by simp
    with True IH [of tops] show ?thesis by simp
  next
    case False
    let ?pos = "length (takeWhile (\<lambda>held. outranks v held c) tops)"
    let ?zs = "if length tops = limit then butlast tops else tops"
    have "map ?f (take ?pos ?zs @ c # drop ?pos ?zs) = take limit (insort (?f c) ?ys)"
      using bounded_round [OF ys(1,3) assms(1) ys(2)] False last
      by (auto simp: Let_def tw take_map drop_map map_butlast [symmetric])
    from IH [OF this] False show ?thesis
      by (auto simp: Let_def)
  qed
qed

lemma rank_owners_scored:
  assumes "distinct (map fst roster)"
  shows "map (rv_scored (ring_view_new roster rep)) (rank_owners (ring_view_new roster rep) h limit)
    = take (min limit rep) (sort (score_list (map fst roster) h))"
proof -
  let ?v = "ring_view_new roster rep"
  let ?lim = "min (min limit rep) (length roster)"
  let ?scores = "map (\<lambda>(i, nh). (fmix64 (nh XOR h), i)) (enumerate 0 (map (fnv1a \<circ> fst) roster))"
  have hashes: "rv_nodes ?v = roster" "rv_node_hashes ?v = map (fnv1a \<circ> fst) roster" "rv_replication ?v = rep"
    by (simp_all add: ring_view_new_def case_prod_unfold o_def)
  have sc: "map (rv_scored ?v) ?scores = score_list (map fst roster) h"
    by (rule nth_equalityI) (simp_all add: rv_scored_def hashes score_list_def nth_enumerate_eq)
  have sc': "(\<lambda>(s, i). Scored s (fst (roster ! i))) = rv_scored ?v"
    by (auto simp: rv_scored_def hashes)
  have full: "take ?lim (sort (score_list (map fst roster) h)) = take (min limit rep) (sort (score_list (map fst roster) h))"
    by (simp add: min_def)
  show ?thesis
  proof (cases "?lim = 0")
    case True
    then show ?thesis
      by (auto simp: rank_owners_def hashes Let_def score_list_def min_def split: if_splits)
  next
    case False
    show ?thesis
    proof (cases "8 < ?lim")
      case True
      then have "map (rv_scored ?v) (rank_owners ?v h limit) = take ?lim (map (rv_scored ?v) (sort_key (rv_scored ?v) ?scores))"
        using False by (simp add: rank_owners_def hashes Let_def sc' take_map del: map_map)
      then show ?thesis
        by (simp only: map_sort_key sc full)
    next
      case False': False
      have "map (rv_scored ?v) (rank_insert_loop ?v ?lim [] ?scores) = take ?lim (sort (map (rv_scored ?v) ?scores))"
        using rank_insert_loop_ranks [of ?lim ?v "[]" ?scores "[]"] False assms
        by (simp add: sc del: map_map)
      moreover have "rank_owners ?v h limit = rank_insert_loop ?v ?lim [] ?scores"
        by (simp only: rank_owners_def hashes Let_def fmix64_copies if_not_P [OF False] if_not_P [OF False'])
      ultimately show ?thesis
        by (simp only: sc full)
    qed
  qed
qed

text \<open>The names behind the proxy's ranking, in which the contract is stated.\<close>

definition proxy_owner_names :: "ring_view \<Rightarrow> u64 \<Rightarrow> nat \<Rightarrow> bytes list" where
  "proxy_owner_names v h limit = map (\<lambda>(_, i). fst (rv_nodes v ! i)) (rank_owners v h limit)"

lemma proxy_owner_names_ranks:
  assumes "distinct (map fst roster)"
  shows "proxy_owner_names (ring_view_new roster rep) h limit
    = take (min limit rep) (hrw_rank (map fst roster) h)"
proof -
  have "(\<lambda>(_, i). fst (rv_nodes (ring_view_new roster rep) ! i)) = node \<circ> rv_scored (ring_view_new roster rep)"
    by (auto simp: rv_scored_def)
  then show ?thesis
    using rank_owners_scored [OF assms, of rep h limit]
    by (simp add: proxy_owner_names_def hrw_rank_def take_map flip: map_map)
qed

interpretation proxy_hrw: hrw_ring
  "\<lambda>ns h r. proxy_owner_names (ring_view_new (map (\<lambda>n. (n, addr_of n)) ns) r) h r"
  for addr_of :: "bytes \<Rightarrow> bytes"
  by unfold_locales (simp add: proxy_owner_names_ranks o_def)

subsection \<open>Addresses\<close>

lemma set_insert_at: "set (take p zs @ c # drop p zs) = insert c (set zs)"
proof -
  have "set (take p zs) \<union> set (drop p zs) = set zs"
    by (metis append_take_drop_id set_append)
  then show ?thesis by auto
qed

lemma set_rank_insert_loop: "set (rank_insert_loop v limit tops rest) \<subseteq> set tops \<union> set rest"
proof (induction rest arbitrary: tops)
  case (Cons c rest)
  have "set (rank_insert_loop v limit (take p zs @ c # drop p zs) rest) \<subseteq> insert c (set zs) \<union> set rest" for p zs
    using Cons.IH [of "take p zs @ c # drop p zs"] unfolding set_insert_at .
  moreover have "set (butlast tops) \<subseteq> set tops"
    by (auto dest: in_set_butlastD)
  ultimately have "set (rank_insert_loop v limit (take p zs @ c # drop p zs) rest) \<subseteq> set tops \<union> set (c # rest)"
    if "zs = tops \<or> zs = butlast tops" for p zs
    using that by fastforce
  then show ?case
    using Cons.IH [of tops] by (auto simp only: rank_insert_loop.simps Let_def list.set split: if_split)
qed simp

lemma rank_owners_index:
  assumes "(s, i) \<in> set (rank_owners (ring_view_new roster rep) h limit)"
  shows "i < length roster"
proof -
  let ?v = "ring_view_new roster rep"
  let ?scores = "map (\<lambda>(i, nh). (fmix64 (nh XOR h), i)) (enumerate 0 (map (fnv1a \<circ> fst) roster))"
  have hashes: "rv_node_hashes ?v = map (fnv1a \<circ> fst) roster"
    by (simp add: ring_view_new_def case_prod_unfold o_def)
  have "set (rank_owners ?v h limit) \<subseteq> set ?scores"
    using set_rank_insert_loop [of ?v _ "[]" ?scores]
    by (auto simp: rank_owners_def hashes Let_def simp del: set_map dest: in_set_takeD)
  then have "(s, i) \<in> set ?scores" using assms by blast
  then show ?thesis
    by (auto simp: in_set_enumerate_eq)
qed

lemma proxy_owners_addresses:
  assumes "distinct (map fst roster)"
  shows "map (\<lambda>(_, i). snd (roster ! i)) (rank_owners (ring_view_new roster rep) h limit)
    = map (\<lambda>n. the (map_of roster n)) (proxy_owner_names (ring_view_new roster rep) h limit)"
proof -
  have "rv_nodes (ring_view_new roster rep) = roster"
    by (simp add: ring_view_new_def)
  moreover have "map_of roster (fst (roster ! i)) = Some (snd (roster ! i))" if "i < length roster" for i
    using assms that by (intro map_of_is_SomeI) auto
  ultimately show ?thesis
    using rank_owners_index [of _ _ roster rep h limit]
    by (auto simp: proxy_owner_names_def case_prod_unfold)
qed

text \<open>The slot of an address is the index of its first occurrence.\<close>

lemma addr_slots_count:
  "length (filter (\<lambda>(i, slot). i = slot) (enumerate k (addr_slots seen k roster)))
    = card (snd ` set roster - fst ` set seen)"
  if "\<forall>i\<in>snd ` set seen. i < k"
  using that
proof (induction roster arbitrary: seen k)
  case (Cons e roster)
  obtain n a where e: "e = (n, a)" by (cases e)
  show ?case
  proof (cases "map_of seen a")
    case None
    then have "a \<notin> fst ` set seen"
      by (simp add: map_of_eq_None_iff)
    moreover have "\<forall>i\<in>snd ` set ((a, k) # seen). i < Suc k"
      using Cons.prems by auto
    moreover have "snd ` set (e # roster) - fst ` set seen
        = insert a (snd ` set roster - fst ` set ((a, k) # seen))"
      using \<open>a \<notin> fst ` set seen\<close> by (auto simp: e)
    ultimately show ?thesis
      using Cons.IH [of "(a, k) # seen" "Suc k"] None
      by (simp add: e del: Diff_insert2 Diff_insert0)
  next
    case (Some i)
    then have "(a, i) \<in> set seen"
      by (rule map_of_SomeD)
    then have "i < k" "a \<in> fst ` set seen"
      using Cons.prems by (fastforce, force)
    moreover have "\<forall>i\<in>snd ` set seen. i < Suc k"
      using Cons.prems by auto
    ultimately show ?thesis
      using Cons.IH [of seen "Suc k"] Some by (simp add: e insert_Diff_if)
  qed
qed simp

section \<open>Properties of the rings together\<close>

text \<open>C3. Every participant places every key alike: on a roster without repeated names the node,
  the SDK and the harness compute the same owners in the same order, and the proxy, through its
  bounded insertion or its sort, the addresses of exactly those owners.\<close>

theorem rings_agree:
  assumes "distinct (map fst roster)" and "length ns \<le> U32_MAX"
  shows "\<exists>os. owners (new_ring (map fst roster)) (new_key ns name) r = Some os
    \<and> sdk_owners (sdk_new_ring (map fst roster)) ns name r = Some os
    \<and> map_option (map fst) (verify_owners roster ns name r) = Some os
    \<and> proxy_owners (ring_view_new roster r) ns name = Some (map (\<lambda>n. the (map_of roster n)) os)"
proof -
  obtain h where h: "key_hash_of (new_key ns name) = Some h"
    using key_hash_of_canonical [of "new_key ns name"] assms(2) by (simp add: new_key_def)
  then obtain st where st: "namespace_hash_of ns = Some st" "namespace_hash_key st name = h"
    using key_hash_copies(3) [of name ns] by auto
  have "proxy_owners (ring_view_new roster r) ns name
      = Some (map (\<lambda>(_, i). snd (roster ! i)) (rank_owners (ring_view_new roster r) h r))"
    using st by (simp add: proxy_owners_def ring_view_new_def)
  also have "\<dots> = Some (map (\<lambda>n. the (map_of roster n)) (take r (hrw_rank (map fst roster) h)))"
    using assms(1) by (simp add: proxy_owners_addresses proxy_owner_names_ranks)
  finally show ?thesis
    using assms(1) h by (simp add: owners_def owners_hashed_ranks sdk_owners_def key_hash_copies
        sdk_owners_ranks verify_owners_def verify_owners_ranks)
qed

theorem rings_agree_witness:
  "distinct (map fst [(''a'', ''h1''), (''b'', ''h2'')]) \<and> length ''ns'' \<le> U32_MAX
   \<and> (\<exists>os. owners (new_ring (map fst [(''a'', ''h1''), (''b'', ''h2'')])) (new_key ''ns'' ''k'') 1 = Some os
    \<and> sdk_owners (sdk_new_ring (map fst [(''a'', ''h1''), (''b'', ''h2'')])) ''ns'' ''k'' 1 = Some os
    \<and> map_option (map fst) (verify_owners [(''a'', ''h1''), (''b'', ''h2'')] ''ns'' ''k'' 1) = Some os
    \<and> proxy_owners (ring_view_new [(''a'', ''h1''), (''b'', ''h2'')] 1) ''ns'' ''k''
        = Some (map (\<lambda>n. the (map_of [(''a'', ''h1''), (''b'', ''h2'')] n)) os))"
proof -
  have d: "distinct (map fst [(''a'', ''h1''), (''b'', ''h2'')])" by simp
  have l: "length ''ns'' \<le> U32_MAX" by (simp add: U32_MAX_def)
  show ?thesis
    using d l rings_agree [OF d l, of "''k''" 1] by blast
qed

text \<open>C31. The proxy's \<^verbatim>\<open>distinct_addresses\<close>, by which it charges a batch before routing it,
  counts the distinct backend addresses of the roster.\<close>

theorem distinct_addresses_counts:
  "distinct_addresses (ring_view_new roster rep) = card (snd ` set roster)"
  using addr_slots_count [of "[]" 0 roster] by (simp add: distinct_addresses_def ring_view_new_def)

end
