(* ===== verification/Lru_Interface.thy ===== *)
theory Lru_Interface
  imports Node_Key
begin

text \<open>
  The code the cache calls that is not in this repository: the \<^verbatim>\<open>LruCache\<close> of the \<^verbatim>\<open>lru\<close> crate,
  in which a namespace keeps its entries, and \<^verbatim>\<open>Sha256\<close> of the \<^verbatim>\<open>sha2\<close> crate. Both are
  parameters of the model: the record \<open>env\<close> holds the operations the cache calls, over a
  representation type \<open>'l\<close> of which the model knows nothing, and the locale \<open>lru_cache\<close> states
  what the cache relies on, every law in terms of the documented iteration order (most recently
  used first). An operation that hands out a mutable reference is given as a pair of the entry and
  of the function that yields the cache once an entry has been written through the reference.
\<close>

text \<open>One stored entry (\<^verbatim>\<open>struct Entry\<close>).\<close>

record entry =
  e_value :: bytes
  e_expires_at :: "instant option"
  e_last_used :: nat

record 'l lru_ops =
  lru_new :: 'l
  lru_iter :: "'l \<Rightarrow> (bytes \<times> entry) list"
  lru_len :: "'l \<Rightarrow> nat"
  lru_is_empty :: "'l \<Rightarrow> bool"
  lru_contains :: "'l \<Rightarrow> bytes \<Rightarrow> bool"
  lru_peek :: "'l \<Rightarrow> bytes \<Rightarrow> entry option"
  lru_peek_mut :: "'l \<Rightarrow> bytes \<Rightarrow> (entry \<times> (entry \<Rightarrow> 'l)) option"
  lru_get_mut :: "'l \<Rightarrow> bytes \<Rightarrow> (entry \<times> (entry \<Rightarrow> 'l)) option"
  lru_put :: "'l \<Rightarrow> bytes \<Rightarrow> entry \<Rightarrow> 'l"
  lru_pop :: "'l \<Rightarrow> bytes \<Rightarrow> (entry \<times> 'l) option"
  lru_peek_lru :: "'l \<Rightarrow> (bytes \<times> entry) option"
  lru_pop_lru :: "'l \<Rightarrow> ((bytes \<times> entry) \<times> 'l) option"

record 'l env = "'l lru_ops" +
  sha256 :: "bytes \<Rightarrow> bytes"

locale lru_cache =
  fixes E :: "'l env" and lru_wf :: "'l \<Rightarrow> bool"
  assumes wf_new [simp]: "lru_wf (lru_new E)"
    and iter_new [simp]: "lru_iter E (lru_new E) = []"
    and distinct_iter [simp]: "lru_wf l \<Longrightarrow> distinct (map fst (lru_iter E l))"
    and len_iter [simp]: "lru_wf l \<Longrightarrow> lru_len E l = length (lru_iter E l)"
    and is_empty_iter [simp]: "lru_wf l \<Longrightarrow> lru_is_empty E l \<longleftrightarrow> lru_iter E l = []"
    and contains_iter [simp]: "lru_wf l \<Longrightarrow> lru_contains E l k \<longleftrightarrow> k \<in> fst ` set (lru_iter E l)"
    and peek_iter [simp]: "lru_wf l \<Longrightarrow> lru_peek E l k = map_of (lru_iter E l) k"
    and peek_mut_iter: "lru_wf l \<Longrightarrow>
      (case lru_peek_mut E l k of
         None \<Rightarrow> map_of (lru_iter E l) k = None
       | Some (e, write) \<Rightarrow> map_of (lru_iter E l) k = Some e
           \<and> (\<forall>e'. lru_wf (write e') \<and> lru_iter E (write e') = AList.update k e' (lru_iter E l)))"
    and get_mut_iter: "lru_wf l \<Longrightarrow>
      (case lru_get_mut E l k of
         None \<Rightarrow> map_of (lru_iter E l) k = None
       | Some (e, write) \<Rightarrow> map_of (lru_iter E l) k = Some e
           \<and> (\<forall>e'. lru_wf (write e') \<and> lru_iter E (write e') = (k, e') # AList.delete k (lru_iter E l)))"
    and put_iter: "lru_wf l \<Longrightarrow>
      lru_wf (lru_put E l k e) \<and> lru_iter E (lru_put E l k e) = (k, e) # AList.delete k (lru_iter E l)"
    and pop_iter: "lru_wf l \<Longrightarrow>
      (case lru_pop E l k of
         None \<Rightarrow> map_of (lru_iter E l) k = None
       | Some (e, l') \<Rightarrow> map_of (lru_iter E l) k = Some e \<and> lru_wf l'
           \<and> lru_iter E l' = AList.delete k (lru_iter E l))"
    and peek_lru_iter [simp]: "lru_wf l \<Longrightarrow>
      lru_peek_lru E l = (if lru_iter E l = [] then None else Some (last (lru_iter E l)))"
    and pop_lru_iter: "lru_wf l \<Longrightarrow>
      (case lru_pop_lru E l of
         None \<Rightarrow> lru_iter E l = []
       | Some (p, l') \<Rightarrow> lru_wf l' \<and> lru_iter E l = lru_iter E l' @ [p])"
begin

text \<open>The laws of the operations that return a pair, as case distinctions.\<close>

lemma get_mut_cases:
  assumes "lru_wf l"
  obtains (absent) "lru_get_mut E l k = None" "map_of (lru_iter E l) k = None"
  | (present) e wr where "lru_get_mut E l k = Some (e, wr)" "map_of (lru_iter E l) k = Some e"
      "\<And>e'. lru_wf (wr e')" "\<And>e'. lru_iter E (wr e') = (k, e') # AList.delete k (lru_iter E l)"
  using get_mut_iter [OF assms, of k] by (auto split: option.splits)

lemma peek_mut_cases:
  assumes "lru_wf l"
  obtains (absent) "lru_peek_mut E l k = None" "map_of (lru_iter E l) k = None"
  | (present) e wr where "lru_peek_mut E l k = Some (e, wr)" "map_of (lru_iter E l) k = Some e"
      "\<And>e'. lru_wf (wr e')" "\<And>e'. lru_iter E (wr e') = AList.update k e' (lru_iter E l)"
  using peek_mut_iter [OF assms, of k] by (auto split: option.splits)

lemma pop_cases:
  assumes "lru_wf l"
  obtains (absent) "lru_pop E l k = None" "map_of (lru_iter E l) k = None"
  | (present) e l' where "lru_pop E l k = Some (e, l')" "map_of (lru_iter E l) k = Some e"
      "lru_wf l'" "lru_iter E l' = AList.delete k (lru_iter E l)"
  using pop_iter [OF assms, of k] by (auto split: option.splits)

lemma pop_lru_cases:
  assumes "lru_wf l"
  obtains (absent) "lru_pop_lru E l = None" "lru_iter E l = []"
  | (present) n e l' where "lru_pop_lru E l = Some ((n, e), l')" "lru_wf l'"
      "lru_iter E l = lru_iter E l' @ [(n, e)]"
  using pop_lru_iter [OF assms] by (auto split: option.splits)

end

section \<open>An instance\<close>

text \<open>
  The laws can be met: the list of entries, most recently used first, with any function for
  SHA-256. The witnesses of the cache's properties evaluate the model on this instance.
\<close>

type_synonym lru_list = "(bytes \<times> entry) list"

definition list_env :: "(bytes \<Rightarrow> bytes) \<Rightarrow> lru_list env" where
  "list_env sha = \<lparr>
     lru_new = [],
     lru_iter = (\<lambda>l. l),
     lru_len = length,
     lru_is_empty = (\<lambda>l. l = []),
     lru_contains = (\<lambda>l k. map_of l k \<noteq> None),
     lru_peek = map_of,
     lru_peek_mut = (\<lambda>l k. map_option (\<lambda>e. (e, \<lambda>e'. AList.update k e' l)) (map_of l k)),
     lru_get_mut = (\<lambda>l k. map_option (\<lambda>e. (e, \<lambda>e'. (k, e') # AList.delete k l)) (map_of l k)),
     lru_put = (\<lambda>l k e. (k, e) # AList.delete k l),
     lru_pop = (\<lambda>l k. map_option (\<lambda>e. (e, AList.delete k l)) (map_of l k)),
     lru_peek_lru = (\<lambda>l. if l = [] then None else Some (last l)),
     lru_pop_lru = (\<lambda>l. if l = [] then None else Some (last l, butlast l)),
     sha256 = sha\<rparr>"

definition list_wf :: "lru_list \<Rightarrow> bool" where
  "list_wf l = distinct (map fst l)"

interpretation list_lru: lru_cache "list_env sha" list_wf
  for sha :: "bytes \<Rightarrow> bytes"
proof unfold_locales
qed (auto simp: list_env_def list_wf_def map_of_eq_None_iff distinct_update
    distinct_butlast map_butlast split: option.splits)

end
