(* ===== verification/Text_Codec.thy ===== *)
theory Text_Codec
  imports Prelude
begin

text \<open>
  The text conversions of the Rust standard library that the wire format and the counters use:
  \<^verbatim>\<open>std::str::from_utf8\<close>, \<^verbatim>\<open>u8::is_ascii_digit\<close>, \<^verbatim>\<open>str::parse::<u64>\<close> and \<^verbatim>\<open>to_string\<close> on integers,
  with the round trips between printing and parsing.
\<close>

section \<open>UTF-8\<close>

definition byte_in :: "nat \<Rightarrow> nat \<Rightarrow> byte \<Rightarrow> bool" where
  "byte_in lo hi b = (lo \<le> of_char b \<and> of_char b \<le> hi)"

text \<open>The well-formed byte sequences of the Unicode standard: no overlong form, no surrogate,
  nothing past \<open>U+10FFFF\<close>.\<close>

fun valid_utf8 :: "bytes \<Rightarrow> bool" where
  "valid_utf8 [] = True"
| "valid_utf8 (b # bs) =
    (if byte_in 0 127 b then valid_utf8 bs
     else case bs of
       [] \<Rightarrow> False
     | b1 # bs1 \<Rightarrow>
        if byte_in 194 223 b then byte_in 128 191 b1 \<and> valid_utf8 bs1
        else case bs1 of
          [] \<Rightarrow> False
        | b2 # bs2 \<Rightarrow>
           if byte_in 224 239 b
           then byte_in (if of_char b = (224::nat) then 160 else 128)
                        (if of_char b = (237::nat) then 159 else 191) b1
                \<and> byte_in 128 191 b2 \<and> valid_utf8 bs2
           else case bs2 of
             [] \<Rightarrow> False
           | b3 # bs3 \<Rightarrow>
              byte_in 240 244 b
              \<and> byte_in (if of_char b = (240::nat) then 144 else 128)
                        (if of_char b = (244::nat) then 143 else 191) b1
              \<and> byte_in 128 191 b2 \<and> byte_in 128 191 b3 \<and> valid_utf8 bs3)"

lemma valid_utf8_ascii: "list_all (byte_in 0 127) bs \<Longrightarrow> valid_utf8 bs"
  by (induction bs) auto

lemma valid_utf8_ascii_Cons [simp]: "byte_in 0 127 b \<Longrightarrow> valid_utf8 (b # bs) = valid_utf8 bs"
  by simp

lemma valid_utf8_append_ascii: "list_all (byte_in 0 127) bs \<Longrightarrow> valid_utf8 (bs @ cs) = valid_utf8 cs"
  by (induction bs) auto

declare valid_utf8.simps(2) [simp del]

section \<open>Decimal numbers\<close>

definition is_ascii_digit :: "byte \<Rightarrow> bool" where
  "is_ascii_digit b = byte_in 48 57 b"

definition digit_value :: "byte \<Rightarrow> nat" where
  "digit_value b = of_char b - 48"

definition dec_value :: "bytes \<Rightarrow> nat" where
  "dec_value ds = foldl (\<lambda>acc d. 10 * acc + digit_value d) 0 ds"

text \<open>\<^verbatim>\<open>str::parse::<u64>\<close>: an optional \<open>+\<close>, at least one digit, and no overflow.\<close>

definition parse_u64 :: "bytes \<Rightarrow> nat option" where
  "parse_u64 s =
     (let ds = (case s of [] \<Rightarrow> s | c # rest \<Rightarrow> if c = CHR ''+'' then rest else s) in
      if ds = [] \<or> \<not> list_all is_ascii_digit ds then None
      else if dec_value ds \<le> U64_MAX then Some (dec_value ds) else None)"

text \<open>\<open>to_string\<close> on an unsigned and on a signed integer.\<close>

definition digit_char :: "nat \<Rightarrow> byte" where
  "digit_char d = char_of (48 + d)"

fun to_dec :: "nat \<Rightarrow> bytes" where
  "to_dec n = (if n < 10 then [digit_char n] else to_dec (n div 10) @ [digit_char (n mod 10)])"

declare to_dec.simps [simp del]

definition int_to_dec :: "int \<Rightarrow> bytes" where
  "int_to_dec i = (if i < 0 then CHR ''-'' # to_dec (nat (- i)) else to_dec (nat i))"

lemma of_digit_char [simp]: "d < 10 \<Longrightarrow> (of_char (digit_char d) :: nat) = 48 + d"
  by (simp add: digit_char_def)

lemma is_ascii_digit_char [simp]: "d < 10 \<Longrightarrow> is_ascii_digit (digit_char d)"
  by (simp add: is_ascii_digit_def byte_in_def)

lemma digit_value_char [simp]: "d < 10 \<Longrightarrow> digit_value (digit_char d) = d"
  by (simp add: digit_value_def)

lemma dec_value_snoc [simp]: "dec_value (ds @ [d]) = 10 * dec_value ds + digit_value d"
  by (simp add: dec_value_def)

lemma dec_value_Nil [simp]: "dec_value [] = 0"
  by (simp add: dec_value_def)

lemma dec_value_single [simp]: "dec_value [d] = digit_value d"
  by (simp add: dec_value_def)

lemma to_dec_digits [simp]: "list_all is_ascii_digit (to_dec n)"
  by (induction n rule: to_dec.induct) (subst to_dec.simps, auto)

lemma dec_value_to_dec [simp]: "dec_value (to_dec n) = n"
  by (induction n rule: to_dec.induct) (subst to_dec.simps, auto)

lemma to_dec_nonempty [simp]: "to_dec n \<noteq> []" "[] \<noteq> to_dec n"
  by (subst to_dec.simps, simp)+

lemma to_dec_inject [simp]: "to_dec m = to_dec n \<longleftrightarrow> m = n"
  by (metis dec_value_to_dec)

lemma to_dec_eq_iff_digit: "n < 10 \<Longrightarrow> to_dec n = [digit_char n]"
  by (subst to_dec.simps) simp

lemma digit_not_sign:
  assumes "is_ascii_digit d"
  shows "d \<noteq> CHR ''+''" "d \<noteq> CHR ''-''"
  using assms by (auto simp: is_ascii_digit_def byte_in_def)

lemma digit_ascii: "is_ascii_digit d \<Longrightarrow> byte_in 0 127 d"
  by (auto simp: is_ascii_digit_def byte_in_def)

lemma list_all_mono: "list_all P xs \<Longrightarrow> (\<And>x. P x \<Longrightarrow> Q x) \<Longrightarrow> list_all Q xs"
  by (auto simp: list_all_iff)

lemma to_dec_ascii [simp]: "list_all (byte_in 0 127) (to_dec n)"
  by (rule list_all_mono [OF to_dec_digits digit_ascii])

lemma hd_to_dec_digit: "is_ascii_digit (hd (to_dec n))"
  by (metis hd_in_set list_all_iff to_dec_digits to_dec_nonempty(1))

text \<open>A printed number has no leading zero, but for the number zero itself.\<close>

lemma to_dec_no_leading_zero: "1 < length (to_dec n) \<Longrightarrow> hd (to_dec n) \<noteq> CHR ''0''"
proof (induction n rule: to_dec.induct)
  case (1 n)
  show ?case
  proof (cases "n < 10")
    case True
    then show ?thesis using "1.prems" by (simp add: to_dec.simps [of n])
  next
    case False
    then have eq: "to_dec n = to_dec (n div 10) @ [digit_char (n mod 10)]"
      by (simp add: to_dec.simps [of n])
    show ?thesis
    proof (cases "length (to_dec (n div 10)) > 1")
      case True
      then show ?thesis using "1.IH" [OF False] eq by simp
    next
      case short: False
      have lt: "n div 10 < 10"
      proof (rule ccontr)
        assume "\<not> n div 10 < 10"
        then have "to_dec (n div 10) = to_dec (n div 10 div 10) @ [digit_char (n div 10 mod 10)]"
          by (simp add: to_dec.simps [of "n div 10"])
        then show False using short by (cases "to_dec (n div 10 div 10)") auto
      qed
      then have "hd (to_dec n) = digit_char (n div 10)"
        using eq by (simp add: to_dec_eq_iff_digit)
      moreover have "(of_char (digit_char (n div 10)) :: nat) \<noteq> of_char CHR ''0''"
        using lt False by simp
      ultimately show ?thesis by metis
    qed
  qed
qed

lemma parse_u64_digits:
  assumes "ds \<noteq> []" and "list_all is_ascii_digit ds"
  shows "parse_u64 ds = (if dec_value ds \<le> U64_MAX then Some (dec_value ds) else None)"
  using assms digit_not_sign by (cases ds) (auto simp: parse_u64_def Let_def)

lemma parse_u64_to_dec [simp]: "n \<le> U64_MAX \<Longrightarrow> parse_u64 (to_dec n) = Some n"
  by (simp add: parse_u64_digits)

lemma parse_u64_bound: "parse_u64 s = Some n \<Longrightarrow> n \<le> U64_MAX"
  by (auto simp: parse_u64_def Let_def split: if_splits list.splits)

end
