(* ===== verification/Infra.thy ===== *)
theory Infra
  imports Prelude
begin

text \<open>
  Pure helpers of \<^verbatim>\<open>src/infra.rs\<close> that the node and its companions share.
\<close>

section \<open>Constant-time comparison\<close>

definition constant_time_eq :: "bytes \<Rightarrow> bytes \<Rightarrow> bool" where
  "constant_time_eq a b =
     (if length a \<noteq> length b then False
      else foldl (\<lambda>(diff :: 8 word) (x, y). diff OR (of_char x XOR of_char y)) 0 (zip a b) = 0)"

lemma of_char_word_eq_iff: "(of_char x :: 8 word) = of_char y \<longleftrightarrow> x = y"
proof
  assume eq: "(of_char x :: 8 word) = of_char y"
  have "of_nat (of_char x) = (of_char x :: 8 word)" "of_nat (of_char y) = (of_char y :: 8 word)"
    by (rule of_nat_of_char)+
  with eq have "(of_nat (of_char x) :: 8 word) = of_nat (of_char y)" by simp
  then have "unat (of_nat (of_char x) :: 8 word) = unat (of_nat (of_char y) :: 8 word)" by simp
  then have "(of_char x :: nat) mod 256 = of_char y mod 256"
    by (simp add: unat_of_nat)
  then show "x = y" by simp
qed simp

lemma or_eq_0_iff: "(a OR b :: 'a::len word) = 0 \<longleftrightarrow> a = 0 \<and> b = 0"
  by (auto simp: bit_eq_iff bit_simps)

lemma xor_eq_0_word_iff: "(a XOR b :: 'a::len word) = 0 \<longleftrightarrow> a = b"
  by (auto simp: bit_eq_iff bit_simps)

lemma diff_fold_0_iff:
  "foldl (\<lambda>(diff :: 8 word) (x, y). diff OR (of_char x XOR of_char y)) d ps = 0
     \<longleftrightarrow> d = 0 \<and> (\<forall>(x, y) \<in> set ps. x = y)"
  by (induction ps arbitrary: d)
     (auto simp: or_eq_0_iff xor_eq_0_word_iff of_char_word_eq_iff)

lemma constant_time_eq_iff [simp]: "constant_time_eq a b \<longleftrightarrow> a = b"
proof (cases "length a = length b")
  case True
  then show ?thesis
    by (induction a b rule: list_induct2) (auto simp: constant_time_eq_def diff_fold_0_iff
      or_eq_0_iff xor_eq_0_word_iff of_char_word_eq_iff)
qed (auto simp: constant_time_eq_def)

end
