(* ===== verification/Cache_Model.thy ===== *)
theory Cache_Model
  imports Lru_Interface Text_Codec Infra
begin

text \<open>
  The store of one node, \<^verbatim>\<open>src/cache.rs\<close>: its data and its operations, in the order of the source.

  \<^item> A hash map is an association list with distinct keys; the order of the list stands for the
    unspecified iteration order. A hash set is a list without repetition. \<open>BinaryHeap\<close> of reversed
    pairs is a list from which the least pair is taken.
  \<^item> A byte count is an \<open>int\<close>. An unsigned subtraction that would go below zero in the source is
    therefore visible in the model as a negative count, and the invariant of \<open>Cache_Invariant\<close> shows
    that no count is ever negative: each equals a sum of lengths. The operation counters and the
    clock are \<open>nat\<close> (they would need \<open>2 ^ 64\<close> operations to wrap); \<open>handoff_writes\<close>, on which the
    source wraps explicitly, is a 64-bit word.
  \<^item> \<open>Instant::now()\<close> is an argument. An \<open>expect\<close> or a failed \<open>unwrap\<close> is the result \<open>None\<close>, and so
    is a loop that does not end, so that \<open>\<exists>c'. op c = Some c'\<close> says that the operation returns
    without a panic.
  \<^item> Copies made to release a receive buffer, the \<open>trace!\<close> lines, \<open>free_off_thread\<close> (which frees
    memory already removed from the state) and the test-only counters have no counterpart.
\<close>

section \<open>Constants and charges\<close>

definition SWEEP_BUDGET :: nat where
  "SWEEP_BUDGET = 2000"

definition ENTRY_OVERHEAD_BYTES :: int where
  "ENTRY_OVERHEAD_BYTES = 180"

definition MARK_OVERHEAD_BYTES :: int where
  "MARK_OVERHEAD_BYTES = 80"

definition DIGEST_CACHE_MIN_VALUE_BYTES :: nat where
  "DIGEST_CACHE_MIN_VALUE_BYTES = 4096"

definition DIGEST_OVERHEAD_BYTES :: int where
  "DIGEST_OVERHEAD_BYTES = 128"

definition TAILS_SLACK :: nat where
  "TAILS_SLACK = 64"

definition NAMESPACE_OVERHEAD_BYTES :: int where
  "NAMESPACE_OVERHEAD_BYTES = 750"

definition TOMBSTONE_OVERHEAD_BYTES :: int where
  "TOMBSTONE_OVERHEAD_BYTES = 250"

definition MAX_HANDOFF_TOMBSTONES :: nat where
  "MAX_HANDOFF_TOMBSTONES = 65536"

definition NANOS_PER_SEC :: nat where
  "NANOS_PER_SEC = 1000000000"

definition HANDOFF_TOMBSTONE_TTL :: duration where
  "HANDOFF_TOMBSTONE_TTL = 120 * NANOS_PER_SEC"

definition name_charge :: "bytes \<Rightarrow> int" where
  "name_charge name = (if name = [] then 0 else int (length name) + NAMESPACE_OVERHEAD_BYTES)"

definition mark_charge :: "bytes \<Rightarrow> int" where
  "mark_charge name = int (length name) + MARK_OVERHEAD_BYTES"

definition digest_charge :: "bytes \<Rightarrow> int" where
  "digest_charge name = int (length name) + DIGEST_OVERHEAD_BYTES"

definition tombstone_bytes :: "key \<Rightarrow> int" where
  "tombstone_bytes key =
     int (length (key_namespace key)) + int (length (key_name key)) + TOMBSTONE_OVERHEAD_BYTES"

text \<open>The bytes one entry is charged: the expression repeated in \<open>insert_into\<close>, \<open>evict_one_from\<close>
  and \<open>remove_entry_in\<close>.\<close>

definition entry_bytes :: "bytes \<Rightarrow> bytes \<Rightarrow> int" where
  "entry_bytes name value = int (length name) + int (length value) + ENTRY_OVERHEAD_BYTES"

text \<open>\<open>Instant::checked_add\<close>: an instant is a signed 64-bit number of seconds and a nanosecond
  part.\<close>

definition INSTANT_MAX :: instant where
  "INSTANT_MAX = (2 ^ 63 - 1) * NANOS_PER_SEC + (NANOS_PER_SEC - 1)"

definition instant_checked_add :: "instant \<Rightarrow> duration \<Rightarrow> instant option" where
  "instant_checked_add now ttl = (if now + ttl \<le> INSTANT_MAX then Some (now + ttl) else None)"

text \<open>\<open>ttl.and_then(|ttl| now.checked_add(ttl))\<close>, as the write paths compute an expiry.\<close>

definition expiry_of :: "instant \<Rightarrow> duration option \<Rightarrow> instant option" where
  "expiry_of now ttl = Option.bind ttl (instant_checked_add now)"

section \<open>The state\<close>

record 'l namespace =
  ns_name :: bytes
  ns_entries :: 'l
  ns_used_bytes :: int
  ns_budget :: "int option"
  ns_migrated :: "bytes list"
  ns_digests :: "(bytes \<times> bytes) list"

definition new_namespace :: "'l env \<Rightarrow> bytes \<Rightarrow> int option \<Rightarrow> 'l namespace" where
  "new_namespace E name budget = \<lparr>
     ns_name = name,
     ns_entries = lru_new E,
     ns_used_bytes = 0,
     ns_budget = budget,
     ns_migrated = [],
     ns_digests = []\<rparr>"

record namespace_stats =
  st_namespace :: bytes
  st_ns_entries :: nat
  st_ns_used_bytes :: int
  st_budget_bytes :: "int option"

record cache_stats =
  st_namespace_count :: nat
  st_used_bytes :: int
  st_max_memory_bytes :: int
  st_entries :: int
  st_hits :: nat
  st_misses :: nat
  st_sets :: nat
  st_deletes :: nat
  st_evictions :: nat
  st_expirations :: nat
  st_incrs :: nat
  st_cas_sets :: nat
  st_cas_deletes :: nat
  st_touches :: nat
  st_touch_misses :: nat
  st_namespaces :: "namespace_stats list"

record 'l cache =
  c_namespaces :: "(bytes \<times> nat) list"
  c_slots :: "(nat \<times> 'l namespace) list"
  c_tails :: "(nat \<times> nat) list"
  c_next_slot_id :: nat
  c_marked :: int
  c_entry_count :: int
  c_used_bytes :: int
  c_max_memory_bytes :: int
  c_clock :: nat
  c_budgets :: "(bytes \<times> int) list"
  c_hits :: nat
  c_misses :: nat
  c_sets :: nat
  c_deletes :: nat
  c_evictions :: nat
  c_expirations :: nat
  c_incrs :: nat
  c_cas_sets :: nat
  c_cas_deletes :: nat
  c_touches :: nat
  c_touch_misses :: nat
  c_pending_removal :: "key list"
  c_last_handoff_at :: "instant option"
  c_handoff_tombstones :: "(key \<times> instant) list"
  c_tombstone_order :: "(instant \<times> key) list"
  c_handoff_writes :: u64

definition is_expired_at :: "entry \<Rightarrow> instant \<Rightarrow> bool" where
  "is_expired_at entry now = (case e_expires_at entry of None \<Rightarrow> False | Some t \<Rightarrow> t \<le> now)"

datatype incr_result = IncrValue int "duration option" | IncrNotFound | IncrNotNumeric

datatype cas_condition = CondAbsent | CondPresent | CondDigest bytes

record reclaim_report =
  rr_removed :: nat
  rr_paused :: bool
  rr_handoff_writes :: u64

datatype cas_result = Stored | Mismatch

definition content_digest :: "'l env \<Rightarrow> bytes \<Rightarrow> bytes" where
  "content_digest E value = take 16 (sha256 E value)"

definition I64_MAX :: int where "I64_MAX = 2 ^ 63 - 1"
definition I64_MIN :: int where "I64_MIN = - (2 ^ 63)"

text \<open>\<open>i64::try_from\<close> on a \<open>u64\<close>, and \<open>i64::checked_add\<close>.\<close>

definition i64_try_from :: "nat \<Rightarrow> int option" where
  "i64_try_from m = (if int m \<le> I64_MAX then Some (int m) else None)"

definition i64_checked_add :: "int \<Rightarrow> int \<Rightarrow> int option" where
  "i64_checked_add a b = (if I64_MIN \<le> a + b \<and> a + b \<le> I64_MAX then Some (a + b) else None)"

definition parse_decimal_i64 :: "bytes \<Rightarrow> int option" where
  "parse_decimal_i64 text =
     (if \<not> valid_utf8 text then None
      else
        let (negative, digits) =
          (case text of
             c # rest \<Rightarrow> if c = CHR ''-'' then (True, rest) else (False, text)
           | [] \<Rightarrow> (False, text))
        in
          if digits = [] \<or> \<not> list_all is_ascii_digit digits then None
          else if length digits > 1 \<and> hd digits = CHR ''0'' then None
          else case parse_u64 digits of
              None \<Rightarrow> None
            | Some magnitude \<Rightarrow>
                if negative
                then (if int magnitude = - I64_MIN then Some I64_MIN
                      else map_option uminus (i64_try_from magnitude))
                else i64_try_from magnitude)"

section \<open>Namespaces\<close>

definition with_budgets :: "nat \<Rightarrow> (bytes \<times> nat) list \<Rightarrow> 'l cache" where
  "with_budgets max_memory_bytes budgets = \<lparr>
     c_namespaces = [], c_slots = [], c_tails = [], c_next_slot_id = 0, c_marked = 0,
     c_entry_count = 0, c_used_bytes = 0, c_max_memory_bytes = int max_memory_bytes, c_clock = 0,
     c_budgets = foldl (\<lambda>m (name, budget). AList.update name (int budget) m) [] budgets,
     c_hits = 0, c_misses = 0, c_sets = 0, c_deletes = 0, c_evictions = 0, c_expirations = 0,
     c_incrs = 0, c_cas_sets = 0, c_cas_deletes = 0, c_touches = 0, c_touch_misses = 0,
     c_pending_removal = [], c_last_handoff_at = None, c_handoff_tombstones = [],
     c_tombstone_order = [], c_handoff_writes = 0\<rparr>"

definition tick :: "'l cache \<Rightarrow> nat \<times> 'l cache" where
  "tick c = (c_clock c + 1, c\<lparr>c_clock := c_clock c + 1\<rparr>)"

text \<open>
  \<open>find_namespace\<close> keeps a hint, the slot it resolved last, and compares the allocation of the
  name it is given with that of the hinted slot (\<open>same_alloc\<close>) before it looks the name up. The
  other operations use the plain lookup \<open>find_namespace\<close>; \<open>Cache_Invariant\<close> shows that the hint
  never changes the answer.
\<close>

definition find_namespace :: "'l cache \<Rightarrow> bytes \<Rightarrow> nat option" where
  "find_namespace c name = map_of (c_namespaces c) name"

definition find_namespace_hinted ::
    "(bytes \<Rightarrow> bytes \<Rightarrow> bool) \<Rightarrow> 'l cache \<Rightarrow> nat \<Rightarrow> bytes \<Rightarrow> nat option \<times> nat" where
  "find_namespace_hinted same_alloc c hint name =
     (if (case map_of (c_slots c) hint of
            None \<Rightarrow> False
          | Some namespace \<Rightarrow> same_alloc (ns_name namespace) name
              \<and> length (ns_name namespace) = length name)
      then (Some hint, hint)
      else case map_of (c_namespaces c) name of
          None \<Rightarrow> (None, hint)
        | Some sid \<Rightarrow> (Some sid, sid))"

definition rebuild_tails :: "'l env \<Rightarrow> 'l cache \<Rightarrow> 'l cache" where
  "rebuild_tails E c = c\<lparr>c_tails := map (\<lambda>(sid, namespace).
     (case lru_peek_lru E (ns_entries namespace) of
        None \<Rightarrow> 0
      | Some (_, entry) \<Rightarrow> e_last_used entry, sid)) (c_slots c)\<rparr>"

definition ensure_namespace :: "'l env \<Rightarrow> bytes \<Rightarrow> 'l cache \<Rightarrow> nat \<times> 'l cache" where
  "ensure_namespace E name c =
     (case find_namespace c name of
        Some sid \<Rightarrow> (sid, c)
      | None \<Rightarrow>
          let budget = map_of (c_budgets c) name;
              sid = c_next_slot_id c;
              c = c\<lparr>c_next_slot_id := sid + 1,
                    c_used_bytes := c_used_bytes c + name_charge name,
                    c_namespaces := AList.update name sid (c_namespaces c),
                    c_slots := AList.update sid (new_namespace E name budget) (c_slots c)\<rparr>
          in (sid, if length (c_tails c) > 2 * length (c_slots c) + TAILS_SLACK
                  then rebuild_tails E c
                  else c\<lparr>c_tails := (0, sid) # c_tails c\<rparr>))"

definition drop_namespace :: "nat \<Rightarrow> 'l cache \<Rightarrow> 'l cache option" where
  "drop_namespace sid c = do {
     namespace \<leftarrow> map_of (c_slots c) sid;
     Some (c\<lparr>c_slots := AList.delete sid (c_slots c),
             c_namespaces := AList.delete (ns_name namespace) (c_namespaces c),
             c_used_bytes := c_used_bytes c - name_charge (ns_name namespace)\<rparr>)
   }"

definition put_slot :: "nat \<Rightarrow> 'l namespace \<Rightarrow> 'l cache \<Rightarrow> 'l cache" where
  "put_slot sid namespace c = c\<lparr>c_slots := AList.update sid namespace (c_slots c)\<rparr>"

definition release_mark ::
    "bytes \<Rightarrow> 'l namespace \<times> int \<times> int \<Rightarrow> 'l namespace \<times> int \<times> int" where
  "release_mark name = (\<lambda>(namespace, used_bytes, marked).
     if ns_migrated namespace = [] then (namespace, used_bytes, marked)
     else if name \<in> set (ns_migrated namespace)
     then (namespace\<lparr>ns_migrated := removeAll name (ns_migrated namespace),
                     ns_used_bytes := ns_used_bytes namespace - mark_charge name\<rparr>,
           used_bytes - mark_charge name, marked - 1)
     else (namespace, used_bytes, marked))"

definition release_digest :: "bytes \<Rightarrow> 'l namespace \<times> int \<Rightarrow> 'l namespace \<times> int" where
  "release_digest name = (\<lambda>(namespace, used_bytes).
     if ns_digests namespace = [] then (namespace, used_bytes)
     else if map_of (ns_digests namespace) name \<noteq> None
     then (namespace\<lparr>ns_digests := AList.delete name (ns_digests namespace),
                     ns_used_bytes := ns_used_bytes namespace - digest_charge name\<rparr>,
           used_bytes - digest_charge name)
     else (namespace, used_bytes))"

section \<open>Eviction\<close>

text \<open>\<open>BinaryHeap<Reverse<(u64, u64)>>::pop\<close>: the least pair.\<close>

definition heap_pop :: "(nat \<times> nat) list \<Rightarrow> ((nat \<times> nat) \<times> (nat \<times> nat) list) option" where
  "heap_pop h = (case h of
     [] \<Rightarrow> None
   | x # xs \<Rightarrow> let m = fold min xs x in Some (m, remove1 m h))"

lemma heap_pop_None [simp]: "heap_pop h = None \<longleftrightarrow> h = []"
  by (auto simp: heap_pop_def Let_def split: list.splits)

lemma heap_pop_Some:
  assumes "heap_pop h = Some (m, h')"
  shows "m \<in> set h" and "h' = remove1 m h" and "\<And>x. x \<in> set h \<Longrightarrow> m \<le> x"
proof -
  obtain x xs where h: "h = x # xs" using assms by (cases h) (auto simp: heap_pop_def)
  have "m = fold min xs x" using assms h by (simp add: heap_pop_def Let_def)
  then have m: "m = Min (set h)" by (simp only: h Min.set_eq_fold)
  show "m \<in> set h" using m h by (simp only:) (rule Min_in, auto)
  show "\<And>x. x \<in> set h \<Longrightarrow> m \<le> x" using m by simp
  show "h' = remove1 m h" using assms h by (auto simp: heap_pop_def Let_def)
qed

text \<open>
  The loop of \<open>evict_one\<close>: pops the heap until an item is current. It returns the current item,
  the heap that is left and the live but empty namespaces met on the way; \<open>None\<close> is the panic on
  an empty heap. It ends because every turn either shortens the heap or replaces an item that is
  not current by one that is.
\<close>

definition tail_current :: "'l env \<Rightarrow> (nat \<times> 'l namespace) list \<Rightarrow> nat \<times> nat \<Rightarrow> bool" where
  "tail_current E slots = (\<lambda>(k, sid). case map_of slots sid of
     None \<Rightarrow> False
   | Some namespace \<Rightarrow> (case lru_peek_lru E (ns_entries namespace) of
        None \<Rightarrow> False
      | Some (_, entry) \<Rightarrow> e_last_used entry = k))"

function evict_pop :: "'l env \<Rightarrow> (nat \<times> 'l namespace) list \<Rightarrow> (nat \<times> nat) list \<Rightarrow> nat list
    \<Rightarrow> ((nat \<times> nat) \<times> (nat \<times> nat) list \<times> nat list) option" where
  "evict_pop E slots tails empty_namespaces =
     (case heap_pop tails of
        None \<Rightarrow> None
      | Some ((k, sid), tails') \<Rightarrow>
          (case map_of slots sid of
             None \<Rightarrow> evict_pop E slots tails' empty_namespaces
           | Some namespace \<Rightarrow>
               (case lru_peek_lru E (ns_entries namespace) of
                  Some (_, entry) \<Rightarrow>
                    if e_last_used entry = k then Some ((k, sid), tails', empty_namespaces)
                    else evict_pop E slots ((e_last_used entry, sid) # tails') empty_namespaces
                | None \<Rightarrow> evict_pop E slots tails' (empty_namespaces @ [sid]))))"
  by pat_completeness auto

text \<open>The measure: the items, and once more those that are not current.\<close>

definition stale_count :: "'l env \<Rightarrow> (nat \<times> 'l namespace) list \<Rightarrow> (nat \<times> nat) list \<Rightarrow> nat" where
  "stale_count E slots tails =
     length tails + length (filter (\<lambda>t. \<not> tail_current E slots t) tails)"

lemma stale_count_remove1:
  "m \<in> set tails \<Longrightarrow>
     stale_count E slots tails = stale_count E slots (remove1 m tails) + (if tail_current E slots m then 1 else 2)"
  by (induction tails) (auto simp: stale_count_def)

lemma stale_count_Cons:
  "stale_count E slots (t # tails) = stale_count E slots tails + (if tail_current E slots t then 1 else 2)"
  by (simp add: stale_count_def)

lemma stale_count_pop:
  "heap_pop tails = Some (m, tails') \<Longrightarrow> stale_count E slots tails' < stale_count E slots tails"
  using heap_pop_Some [of tails m tails'] stale_count_remove1 [of m tails E slots] by simp

lemma stale_count_refresh:
  "heap_pop tails = Some (m, tails') \<Longrightarrow> \<not> tail_current E slots m \<Longrightarrow> tail_current E slots t \<Longrightarrow>
     stale_count E slots (t # tails') < stale_count E slots tails"
  using heap_pop_Some [of tails m tails'] stale_count_remove1 [of m tails E slots]
  by (simp add: stale_count_Cons)

termination evict_pop
  by (relation "measure (\<lambda>(E, slots, tails, _). stale_count E slots tails)")
     (auto simp: tail_current_def intro: stale_count_pop intro!: stale_count_refresh)

declare evict_pop.simps [simp del]

definition evict_one_from :: "'l env \<Rightarrow> nat \<Rightarrow> 'l cache \<Rightarrow> 'l cache option" where
  "evict_one_from E sid c = do {
     let c = c\<lparr>c_evictions := c_evictions c + 1\<rparr>;
     namespace \<leftarrow> map_of (c_slots c) sid;
     ((evicted_name, evicted_entry), entries) \<leftarrow> lru_pop_lru E (ns_entries namespace);
     let bytes = entry_bytes evicted_name (e_value evicted_entry);
     let namespace = namespace\<lparr>ns_entries := entries,
                               ns_used_bytes := ns_used_bytes namespace - bytes\<rparr>;
     let (namespace, used_bytes, marked) =
       release_mark evicted_name (namespace, c_used_bytes c - bytes, c_marked c);
     let (namespace, used_bytes) = release_digest evicted_name (namespace, used_bytes);
     let c = put_slot sid namespace (c\<lparr>c_entry_count := c_entry_count c - 1,
               c_used_bytes := used_bytes, c_marked := marked\<rparr>);
     if lru_is_empty E (ns_entries namespace) then drop_namespace sid c else Some c
   }"

definition evict_one :: "'l env \<Rightarrow> 'l cache \<Rightarrow> 'l cache option" where
  "evict_one E c = do {
     ((k, victim), tails, empty_namespaces) \<leftarrow> evict_pop E (c_slots c) (c_tails c) [];
     let c = c\<lparr>c_tails := map (\<lambda>sid. (0, sid)) empty_namespaces @ tails\<rparr>;
     c \<leftarrow> evict_one_from E victim c;
     Some (if map_of (c_slots c) victim \<noteq> None then c\<lparr>c_tails := (k, victim) # c_tails c\<rparr> else c)
   }"

text \<open>The test oracle of \<open>evict_one\<close>: the namespace whose LRU entry is the globally oldest.\<close>

definition scan_victim :: "'l env \<Rightarrow> 'l cache \<Rightarrow> nat option" where
  "scan_victim E c =
     (let tails = List.map_filter (\<lambda>(sid, namespace).
            map_option (\<lambda>(_, entry). (e_last_used entry, sid)) (lru_peek_lru E (ns_entries namespace)))
          (c_slots c)
      in case tails of
          [] \<Rightarrow> None
        | t # ts \<Rightarrow> Some (snd (fold (\<lambda>x m. if fst x < fst m then x else m) ts t)))"

partial_function (option) enforce_namespace_budget :: "'l env \<Rightarrow> nat \<Rightarrow> 'l cache \<Rightarrow> 'l cache option" where
  "enforce_namespace_budget E sid c =
     (case map_of (c_slots c) sid of
        None \<Rightarrow> Some c
      | Some namespace \<Rightarrow>
          (case ns_budget namespace of
             None \<Rightarrow> Some c
           | Some budget \<Rightarrow>
               if ns_used_bytes namespace \<le> budget \<or> lru_len E (ns_entries namespace) \<le> 1 then Some c
               else Option.bind (evict_one_from E sid c) (enforce_namespace_budget E sid)))"

text \<open>The last loop of \<open>insert_into\<close>.\<close>

partial_function (option) evict_to_fit :: "'l env \<Rightarrow> 'l cache \<Rightarrow> 'l cache option" where
  "evict_to_fit E c =
     (if c_used_bytes c > c_max_memory_bytes c \<and> c_entry_count c > 1
      then Option.bind (evict_one E c) (evict_to_fit E)
      else Some c)"

section \<open>Writing\<close>

definition insert_into ::
    "'l env \<Rightarrow> nat \<Rightarrow> bytes \<Rightarrow> bytes \<Rightarrow> instant option \<Rightarrow> 'l cache \<Rightarrow> 'l cache option" where
  "insert_into E sid name value expires_at c = do {
     let (last_used, c) = tick c;
     let entry = \<lparr>e_value = value, e_expires_at = expires_at, e_last_used = last_used\<rparr>;
     namespace \<leftarrow> map_of (c_slots c) sid;
     let (namespace, used_bytes, marked) = release_mark name (namespace, c_used_bytes c, c_marked c);
     let (namespace, used_bytes) = release_digest name (namespace, used_bytes);
     let (namespace, used_bytes, entry_count) =
       (case lru_get_mut E (ns_entries namespace) name of
          Some (existing, write) \<Rightarrow>
            let delta = int (length value) - int (length (e_value existing)) in
            (namespace\<lparr>ns_entries := write entry,
                       ns_used_bytes := ns_used_bytes namespace + delta\<rparr>,
             used_bytes + delta, c_entry_count c)
        | None \<Rightarrow>
            let bytes = entry_bytes name value in
            (namespace\<lparr>ns_entries := lru_put E (ns_entries namespace) name entry,
                       ns_used_bytes := ns_used_bytes namespace + bytes\<rparr>,
             used_bytes + bytes, c_entry_count c + 1));
     let c = put_slot sid namespace (c\<lparr>c_used_bytes := used_bytes, c_marked := marked,
               c_entry_count := entry_count\<rparr>);
     c \<leftarrow> enforce_namespace_budget E sid c;
     evict_to_fit E c
   }"

definition cache_insert ::
    "'l env \<Rightarrow> key \<Rightarrow> bytes \<Rightarrow> instant option \<Rightarrow> 'l cache \<Rightarrow> 'l cache option" where
  "cache_insert E key value expires_at c =
     (let (sid, c) = ensure_namespace E (key_namespace key) c
      in insert_into E sid (key_name key) value expires_at c)"

definition cache_set :: "'l env \<Rightarrow> key \<Rightarrow> bytes \<Rightarrow> 'l cache \<Rightarrow> 'l cache option" where
  "cache_set E key value c =
     cache_insert E key value None (c\<lparr>c_sets := c_sets c + 1\<rparr>)"

definition set_with_ttl ::
    "'l env \<Rightarrow> key \<Rightarrow> bytes \<Rightarrow> duration \<Rightarrow> instant \<Rightarrow> 'l cache \<Rightarrow> 'l cache option" where
  "set_with_ttl E key value ttl now c =
     cache_insert E key value (instant_checked_add now ttl) (c\<lparr>c_sets := c_sets c + 1\<rparr>)"

fun set_many_loop ::
    "'l env \<Rightarrow> bytes \<Rightarrow> instant option \<Rightarrow> nat option \<Rightarrow> (bytes \<times> bytes) list \<Rightarrow> 'l cache \<Rightarrow> 'l cache option" where
  "set_many_loop E namespace expires_at sid [] c = Some c"
| "set_many_loop E namespace expires_at sid ((name, value) # items) c = do {
     let c = c\<lparr>c_sets := c_sets c + 1\<rparr>;
     let (live, c) =
       (case sid of
          Some s \<Rightarrow> if map_of (c_slots c) s \<noteq> None then (s, c) else ensure_namespace E namespace c
        | None \<Rightarrow> ensure_namespace E namespace c);
     c \<leftarrow> insert_into E live name value expires_at c;
     set_many_loop E namespace expires_at (Some live) items c
   }"

definition set_many ::
    "'l env \<Rightarrow> bytes \<Rightarrow> (bytes \<times> bytes) list \<Rightarrow> duration option \<Rightarrow> instant \<Rightarrow> 'l cache \<Rightarrow> 'l cache option" where
  "set_many E namespace items ttl now c =
     set_many_loop E namespace (expiry_of now ttl) None items c"

section \<open>Reading and removing\<close>

definition peek :: "'l env \<Rightarrow> 'l cache \<Rightarrow> key \<Rightarrow> entry option" where
  "peek E c key = do {
     sid \<leftarrow> find_namespace c (key_namespace key);
     namespace \<leftarrow> map_of (c_slots c) sid;
     lru_peek E (ns_entries namespace) (key_name key)
   }"

definition remove_entry_in :: "'l env \<Rightarrow> nat \<Rightarrow> bytes \<Rightarrow> 'l cache \<Rightarrow> (entry option \<times> 'l cache) option" where
  "remove_entry_in E sid name c =
     (case map_of (c_slots c) sid of
        None \<Rightarrow> Some (None, c)
      | Some namespace \<Rightarrow>
          (case lru_pop E (ns_entries namespace) name of
             None \<Rightarrow> Some (None, c)
           | Some (entry, entries) \<Rightarrow> do {
               let bytes = entry_bytes name (e_value entry);
               let namespace = namespace\<lparr>ns_entries := entries,
                                         ns_used_bytes := ns_used_bytes namespace - bytes\<rparr>;
               let (namespace, used_bytes, marked) =
                 release_mark name (namespace, c_used_bytes c - bytes, c_marked c);
               let (namespace, used_bytes) = release_digest name (namespace, used_bytes);
               let c = put_slot sid namespace (c\<lparr>c_entry_count := c_entry_count c - 1,
                         c_used_bytes := used_bytes, c_marked := marked\<rparr>);
               c \<leftarrow> (if lru_is_empty E (ns_entries namespace) then drop_namespace sid c else Some c);
               Some (Some entry, c)
             }))"

definition remove_entry :: "'l env \<Rightarrow> key \<Rightarrow> 'l cache \<Rightarrow> (entry option \<times> 'l cache) option" where
  "remove_entry E key c =
     (case find_namespace c (key_namespace key) of
        None \<Rightarrow> Some (None, c)
      | Some sid \<Rightarrow> remove_entry_in E sid (key_name key) c)"

definition get_in ::
    "'l env \<Rightarrow> nat option \<Rightarrow> bytes \<Rightarrow> instant \<Rightarrow> nat \<Rightarrow> 'l cache \<Rightarrow> (bytes option \<times> 'l cache) option" where
  "get_in E sid name now last_used c =
     (case do { s \<leftarrow> sid; namespace \<leftarrow> map_of (c_slots c) s;
                (entry, write) \<leftarrow> lru_get_mut E (ns_entries namespace) name;
                Some (s, namespace, entry, write) } of
        None \<Rightarrow> Some (None, c\<lparr>c_misses := c_misses c + 1\<rparr>)
      | Some (s, namespace, entry, write) \<Rightarrow>
          if is_expired_at entry now
          then do {
            (_, c) \<leftarrow> remove_entry_in E s name
              (put_slot s (namespace\<lparr>ns_entries := write entry\<rparr>) c);
            Some (None, c\<lparr>c_expirations := c_expirations c + 1, c_misses := c_misses c + 1\<rparr>)
          }
          else
            let entry = entry\<lparr>e_last_used := last_used\<rparr>;
                c = put_slot s (namespace\<lparr>ns_entries := write entry\<rparr>) c
            in Some (Some (e_value entry), c\<lparr>c_hits := c_hits c + 1\<rparr>))"

definition get_at :: "'l env \<Rightarrow> key \<Rightarrow> instant \<Rightarrow> 'l cache \<Rightarrow> (bytes option \<times> 'l cache) option" where
  "get_at E key now c =
     (let (last_used, c) = tick c
      in get_in E (find_namespace c (key_namespace key)) (key_name key) now last_used c)"

fun get_many_loop ::
    "'l env \<Rightarrow> nat option \<Rightarrow> instant \<Rightarrow> nat \<Rightarrow> nat \<Rightarrow> bytes list \<Rightarrow> 'l cache \<Rightarrow> (bytes option list \<times> 'l cache) option" where
  "get_many_loop E sid now max_value_bytes value_bytes [] c = Some ([], c)"
| "get_many_loop E sid now max_value_bytes value_bytes (name # names) c =
     (if value_bytes \<ge> max_value_bytes then do {
        (results, c) \<leftarrow> get_many_loop E sid now max_value_bytes value_bytes names c;
        Some (None # results, c)
      } else do {
        let (last_used, c) = tick c;
        (value, c) \<leftarrow> get_in E sid name now last_used c;
        let (answer, value_bytes) =
          (case value of
             Some v \<Rightarrow> if value_bytes + length v \<le> max_value_bytes
                       then (Some v, value_bytes + length v) else (None, value_bytes)
           | None \<Rightarrow> (None, value_bytes));
        (results, c) \<leftarrow> get_many_loop E sid now max_value_bytes value_bytes names c;
        Some (answer # results, c)
      })"

definition get_many ::
    "'l env \<Rightarrow> bytes \<Rightarrow> bytes list \<Rightarrow> nat \<Rightarrow> instant \<Rightarrow> 'l cache \<Rightarrow> (bytes option list \<times> 'l cache) option" where
  "get_many E namespace names max_value_bytes now c =
     get_many_loop E (find_namespace c namespace) now max_value_bytes 0 names c"

definition incr_at :: "'l env \<Rightarrow> key \<Rightarrow> int \<Rightarrow> instant \<Rightarrow> 'l cache \<Rightarrow> (incr_result \<times> 'l cache) option" where
  "incr_at E key delta now c =
     (case peek E c key of
        None \<Rightarrow> Some (IncrNotFound, c)
      | Some entry \<Rightarrow>
          if is_expired_at entry now
          then do {
            (_, c) \<leftarrow> remove_entry E key c;
            Some (IncrNotFound, c\<lparr>c_expirations := c_expirations c + 1\<rparr>)
          }
          else (case parse_decimal_i64 (e_value entry) of
             None \<Rightarrow> Some (IncrNotNumeric, c)
           | Some current \<Rightarrow>
               (case i64_checked_add current delta of
                  None \<Rightarrow> Some (IncrNotNumeric, c)
                | Some new_value \<Rightarrow> do {
                    let expires_at = e_expires_at entry;
                    let remaining_ttl = map_option (\<lambda>t. t - now) expires_at;
                    let c = c\<lparr>c_incrs := c_incrs c + 1\<rparr>;
                    c \<leftarrow> cache_insert E key (int_to_dec new_value) expires_at c;
                    Some (IncrValue new_value remaining_ttl, c)
                  })))"

definition touch_in ::
    "'l env \<Rightarrow> nat option \<Rightarrow> bytes \<Rightarrow> duration option \<Rightarrow> bool \<Rightarrow> instant \<Rightarrow> 'l cache
      \<Rightarrow> ((bytes \<times> duration option) option \<times> 'l cache) option" where
  "touch_in E sid name ttl promote now c =
     (let c = c\<lparr>c_touches := c_touches c + 1\<rparr>;
          (last_used, c) = (if promote then let (t, c) = tick c in (Some t, c) else (None, c))
      in case do { s \<leftarrow> sid; namespace \<leftarrow> map_of (c_slots c) s;
                   (entry, write) \<leftarrow> (if promote then lru_get_mut E (ns_entries namespace) name
                                      else lru_peek_mut E (ns_entries namespace) name);
                   Some (s, namespace, entry, write) } of
           None \<Rightarrow>
             Some (None, c\<lparr>c_touch_misses := c_touch_misses c + 1,
                          c_misses := (if promote then c_misses c + 1 else c_misses c)\<rparr>)
         | Some (s, namespace, entry, write) \<Rightarrow>
             if is_expired_at entry now
             then do {
               (_, c) \<leftarrow> remove_entry_in E s name
                 (put_slot s (namespace\<lparr>ns_entries := write entry\<rparr>) c);
               Some (None, c\<lparr>c_expirations := c_expirations c + 1,
                            c_touch_misses := c_touch_misses c + 1,
                            c_misses := (if promote then c_misses c + 1 else c_misses c)\<rparr>)
             }
             else
               let entry = entry\<lparr>e_expires_at := expiry_of now ttl\<rparr>;
                   remaining = map_option (\<lambda>t. t - now) (e_expires_at entry);
                   value = e_value entry;
                   (entry, c) = (case last_used of
                       Some t \<Rightarrow> (entry\<lparr>e_last_used := t\<rparr>, c\<lparr>c_hits := c_hits c + 1\<rparr>)
                     | None \<Rightarrow> (entry, c))
               in Some (Some (value, remaining),
                        put_slot s (namespace\<lparr>ns_entries := write entry\<rparr>) c))"

definition touch_at ::
    "'l env \<Rightarrow> key \<Rightarrow> duration option \<Rightarrow> bool \<Rightarrow> instant \<Rightarrow> 'l cache
      \<Rightarrow> ((bytes \<times> duration option) option \<times> 'l cache) option" where
  "touch_at E key ttl promote now c =
     touch_in E (find_namespace c (key_namespace key)) (key_name key) ttl promote now c"

definition live_value_len :: "'l env \<Rightarrow> nat option \<Rightarrow> bytes \<Rightarrow> instant \<Rightarrow> 'l cache \<Rightarrow> nat option" where
  "live_value_len E sid name now c = do {
     s \<leftarrow> sid;
     namespace \<leftarrow> map_of (c_slots c) s;
     entry \<leftarrow> lru_peek E (ns_entries namespace) name;
     if is_expired_at entry now then None else Some (length (e_value entry))
   }"

definition saturating_add :: "nat \<Rightarrow> nat \<Rightarrow> nat" where
  "saturating_add a b = min (a + b) U64_MAX"

text \<open>
  \<open>touch_many\<close>: \<open>value_bytes\<close> is the size of the values returned so far and \<open>touched_at_once\<close> the
  values of the names a zero TTL has already expired in this batch.
\<close>

fun touch_many_loop ::
    "'l env \<Rightarrow> nat option \<Rightarrow> duration option \<Rightarrow> bool \<Rightarrow> nat \<Rightarrow> instant \<Rightarrow> nat \<Rightarrow> (bytes \<times> bytes) list
      \<Rightarrow> bytes list \<Rightarrow> 'l cache \<Rightarrow> (bytes option list \<times> 'l cache) option" where
  "touch_many_loop E sid ttl promote max_value_bytes now value_bytes touched_at_once [] c = Some ([], c)"
| "touch_many_loop E sid ttl promote max_value_bytes now value_bytes touched_at_once (name # names) c =
     (let bounded = (max_value_bytes \<noteq> U64_MAX);
          expires_at_once = (ttl = Some 0);
          skip = (\<lambda>_ :: unit. do {
            (results, c) \<leftarrow> touch_many_loop E sid ttl promote max_value_bytes now value_bytes
              touched_at_once names c;
            Some (None # results, c) })
      in case map_of touched_at_once name of
           Some value \<Rightarrow>
             if bounded \<and> (value_bytes \<ge> max_value_bytes
                  \<or> saturating_add value_bytes (length value) > max_value_bytes)
             then skip ()
             else do {
               let c = c\<lparr>c_touches := c_touches c + 1,
                         c_hits := (if promote then c_hits c + 1 else c_hits c)\<rparr>;
               (results, c) \<leftarrow> touch_many_loop E sid ttl promote max_value_bytes now
                 (saturating_add value_bytes (length value)) touched_at_once names c;
               Some (Some value # results, c)
             }
         | None \<Rightarrow>
             if bounded \<and> (value_bytes \<ge> max_value_bytes
                  \<or> (case live_value_len E sid name now c of
                       None \<Rightarrow> False
                     | Some len \<Rightarrow> saturating_add value_bytes len > max_value_bytes))
             then skip ()
             else do {
               (touched, c) \<leftarrow> touch_in E sid name ttl promote now c;
               (case touched of
                  Some (value, _) \<Rightarrow> do {
                    (results, c) \<leftarrow> touch_many_loop E sid ttl promote max_value_bytes now
                      (saturating_add value_bytes (length value))
                      (if expires_at_once then AList.update name value touched_at_once else touched_at_once)
                      names c;
                    Some (Some value # results, c)
                  }
                | None \<Rightarrow> do {
                    (results, c) \<leftarrow> touch_many_loop E sid ttl promote max_value_bytes now value_bytes
                      touched_at_once names c;
                    Some (None # results, c)
                  })
             })"

definition touch_many ::
    "'l env \<Rightarrow> bytes \<Rightarrow> bytes list \<Rightarrow> duration option \<Rightarrow> bool \<Rightarrow> nat \<Rightarrow> instant \<Rightarrow> 'l cache
      \<Rightarrow> (bytes option list \<times> 'l cache) option" where
  "touch_many E namespace names ttl promote max_value_bytes now c =
     touch_many_loop E (find_namespace c namespace) ttl promote max_value_bytes now 0 [] names c"

section \<open>Compare-and-set\<close>

definition digest_of :: "'l env \<Rightarrow> key \<Rightarrow> 'l cache \<Rightarrow> bytes option \<times> 'l cache" where
  "digest_of E key c =
     (case do { sid \<leftarrow> find_namespace c (key_namespace key);
                namespace \<leftarrow> map_of (c_slots c) sid;
                entry \<leftarrow> lru_peek E (ns_entries namespace) (key_name key);
                Some (sid, namespace, e_value entry) } of
        None \<Rightarrow> (None, c)
      | Some (sid, namespace, value) \<Rightarrow>
          if length value < DIGEST_CACHE_MIN_VALUE_BYTES then (Some (content_digest E value), c)
          else (case map_of (ns_digests namespace) (key_name key) of
             Some digest \<Rightarrow> (Some digest, c)
           | None \<Rightarrow>
               let digest = content_digest E value;
                   charge = digest_charge (key_name key);
                   namespace = namespace\<lparr>ns_digests := AList.update (key_name key) digest (ns_digests namespace),
                                         ns_used_bytes := ns_used_bytes namespace + charge\<rparr>
               in (Some digest, put_slot sid namespace (c\<lparr>c_used_bytes := c_used_bytes c + charge\<rparr>))))"

definition condition_holds_at ::
    "'l env \<Rightarrow> key \<Rightarrow> cas_condition \<Rightarrow> instant \<Rightarrow> 'l cache \<Rightarrow> (bool \<times> 'l cache) option" where
  "condition_holds_at E key condition now c = do {
     c \<leftarrow> (if (case peek E c key of None \<Rightarrow> False | Some entry \<Rightarrow> is_expired_at entry now)
           then do { (_, c) \<leftarrow> remove_entry E key c;
                     Some (c\<lparr>c_expirations := c_expirations c + 1\<rparr>) }
           else Some c);
     case condition of
       CondDigest expected \<Rightarrow>
         (let (digest, c) = digest_of E key c
          in Some (case digest of None \<Rightarrow> False | Some d \<Rightarrow> constant_time_eq d expected, c))
     | CondAbsent \<Rightarrow> Some (peek E c key = None, c)
     | CondPresent \<Rightarrow> Some (peek E c key \<noteq> None, c)
   }"

definition cas_set_at ::
    "'l env \<Rightarrow> key \<Rightarrow> cas_condition \<Rightarrow> bytes \<Rightarrow> duration option \<Rightarrow> instant \<Rightarrow> 'l cache
      \<Rightarrow> (cas_result \<times> 'l cache) option" where
  "cas_set_at E key condition value ttl now c = do {
     (holds, c) \<leftarrow> condition_holds_at E key condition now c;
     if \<not> holds then Some (Mismatch, c)
     else do {
       c \<leftarrow> cache_insert E key value (expiry_of now ttl) (c\<lparr>c_cas_sets := c_cas_sets c + 1\<rparr>);
       Some (Stored, c)
     }
   }"

definition cas_delete_at ::
    "'l env \<Rightarrow> key \<Rightarrow> bytes \<Rightarrow> instant \<Rightarrow> 'l cache \<Rightarrow> (bool \<times> 'l cache) option" where
  "cas_delete_at E key expected now c = do {
     (holds, c) \<leftarrow> condition_holds_at E key (CondDigest expected) now c;
     if \<not> holds then Some (False, c)
     else do {
       (_, c) \<leftarrow> remove_entry E key (c\<lparr>c_cas_deletes := c_cas_deletes c + 1\<rparr>);
       Some (True, c)
     }
   }"

definition delete_at :: "'l env \<Rightarrow> key \<Rightarrow> instant \<Rightarrow> 'l cache \<Rightarrow> (bool \<times> 'l cache) option" where
  "delete_at E key now c =
     (let expired = (case peek E c key of None \<Rightarrow> False | Some entry \<Rightarrow> is_expired_at entry now)
      in if expired then do {
           (_, c) \<leftarrow> remove_entry E key c;
           Some (False, c)
         } else do {
           (removed, c) \<leftarrow> remove_entry E key c;
           Some (removed \<noteq> None, c)
         })"

definition cache_delete :: "'l env \<Rightarrow> key \<Rightarrow> instant \<Rightarrow> 'l cache \<Rightarrow> (bool \<times> 'l cache) option" where
  "cache_delete E key now c = do {
     (removed, c) \<leftarrow> delete_at E key now c;
     Some (removed, if removed then c\<lparr>c_deletes := c_deletes c + 1\<rparr> else c)
   }"

section \<open>Handoff writes and tombstones\<close>

definition note_handoff :: "instant \<Rightarrow> bool \<Rightarrow> 'l cache \<Rightarrow> 'l cache" where
  "note_handoff now ahead_of_ring c =
     (if \<not> ahead_of_ring then c
      else c\<lparr>c_last_handoff_at := Some now, c_handoff_writes := c_handoff_writes c + 1\<rparr>)"

definition forget_tombstone_if_stamped :: "key \<Rightarrow> instant \<Rightarrow> 'l cache \<Rightarrow> bool \<times> 'l cache" where
  "forget_tombstone_if_stamped key stamped c =
     (if map_of (c_handoff_tombstones c) key \<noteq> Some stamped then (False, c)
      else (True, c\<lparr>c_handoff_tombstones := AList.delete key (c_handoff_tombstones c),
                    c_used_bytes := c_used_bytes c - tombstone_bytes key\<rparr>))"

text \<open>The two loops over \<open>tombstone_order\<close>, as recursions on the part of the queue still to see.\<close>

fun prune_loop :: "instant \<Rightarrow> (instant \<times> key) list \<Rightarrow> 'l cache \<Rightarrow> 'l cache" where
  "prune_loop now [] c = c\<lparr>c_tombstone_order := []\<rparr>"
| "prune_loop now ((stamped, key) # rest) c =
     (if now - stamped < HANDOFF_TOMBSTONE_TTL then c\<lparr>c_tombstone_order := (stamped, key) # rest\<rparr>
      else prune_loop now rest (snd (forget_tombstone_if_stamped key stamped c)))"

definition prune_tombstones :: "instant \<Rightarrow> 'l cache \<Rightarrow> 'l cache" where
  "prune_tombstones now c = prune_loop now (c_tombstone_order c) c"

fun forget_oldest_loop :: "(instant \<times> key) list \<Rightarrow> 'l cache \<Rightarrow> 'l cache" where
  "forget_oldest_loop [] c = c\<lparr>c_tombstone_order := []\<rparr>"
| "forget_oldest_loop ((stamped, key) # rest) c =
     (case forget_tombstone_if_stamped key stamped c of
        (True, c) \<Rightarrow> c\<lparr>c_tombstone_order := rest\<rparr>
      | (False, c) \<Rightarrow> forget_oldest_loop rest c)"

definition forget_oldest_tombstone :: "'l cache \<Rightarrow> 'l cache" where
  "forget_oldest_tombstone c = forget_oldest_loop (c_tombstone_order c) c"

definition tombstone :: "key \<Rightarrow> instant \<Rightarrow> 'l cache \<Rightarrow> 'l cache" where
  "tombstone key now c =
     (let c = prune_tombstones now c;
          c = (if length (c_handoff_tombstones c) \<ge> MAX_HANDOFF_TOMBSTONES
               then forget_oldest_tombstone c else c);
          fresh = (map_of (c_handoff_tombstones c) key = None);
          c = c\<lparr>c_handoff_tombstones := AList.update key now (c_handoff_tombstones c),
                c_used_bytes := (if fresh then c_used_bytes c + tombstone_bytes key
                                 else c_used_bytes c)\<rparr>;
          c = c\<lparr>c_tombstone_order := c_tombstone_order c @ [(now, key)]\<rparr>
      in if length (c_tombstone_order c) > 2 * MAX_HANDOFF_TOMBSTONES
         then c\<lparr>c_tombstone_order := filter (\<lambda>(stamped, k).
                map_of (c_handoff_tombstones c) k = Some stamped) (c_tombstone_order c)\<rparr>
         else c)"

definition tombstoned_at :: "key \<Rightarrow> instant \<Rightarrow> 'l cache \<Rightarrow> bool" where
  "tombstoned_at key now c =
     (c_handoff_tombstones c \<noteq> []
      \<and> (case map_of (c_handoff_tombstones c) key of
           None \<Rightarrow> False
         | Some stamped \<Rightarrow> now - stamped < HANDOFF_TOMBSTONE_TTL))"

definition forget_tombstone :: "key \<Rightarrow> 'l cache \<Rightarrow> 'l cache" where
  "forget_tombstone key c =
     (if c_handoff_tombstones c = [] then c
      else if map_of (c_handoff_tombstones c) key \<noteq> None
      then c\<lparr>c_handoff_tombstones := AList.delete key (c_handoff_tombstones c),
             c_used_bytes := c_used_bytes c - tombstone_bytes key\<rparr>
      else c)"

definition handoff_delete_at :: "'l env \<Rightarrow> key \<Rightarrow> instant \<Rightarrow> 'l cache \<Rightarrow> (bool \<times> 'l cache) option" where
  "handoff_delete_at E key now c = do {
     (removed, c) \<leftarrow> delete_at E key now c;
     Some (removed, tombstone key now c)
   }"

definition handoff_set ::
    "'l env \<Rightarrow> key \<Rightarrow> bytes \<Rightarrow> duration option \<Rightarrow> bool \<Rightarrow> instant \<Rightarrow> 'l cache \<Rightarrow> (bool \<times> 'l cache) option" where
  "handoff_set E key value ttl ahead_of_ring now c = do {
     let c = note_handoff now ahead_of_ring c;
     if ttl = Some 0 then do {
       (_, c) \<leftarrow> handoff_delete_at E key now c;
       Some (True, c)
     } else do {
       let expires_at = expiry_of now ttl;
       let unchanged = (case peek E c key of
           None \<Rightarrow> False
         | Some entry \<Rightarrow> \<not> is_expired_at entry now \<and> e_value entry = value
             \<and> (e_expires_at entry \<noteq> None) = (expires_at \<noteq> None));
       c \<leftarrow> cache_insert E key value expires_at c;
       Some (\<not> unchanged, c)
     }
   }"

definition is_marked :: "'l cache \<Rightarrow> key \<Rightarrow> bool" where
  "is_marked c key =
     (case Option.bind (find_namespace c (key_namespace key)) (map_of (c_slots c)) of
        None \<Rightarrow> False
      | Some namespace \<Rightarrow> key_name key \<in> set (ns_migrated namespace))"

definition handoff_set_if_absent_at ::
    "'l env \<Rightarrow> key \<Rightarrow> bytes \<Rightarrow> duration option \<Rightarrow> bool \<Rightarrow> instant \<Rightarrow> 'l cache
      \<Rightarrow> (cas_result \<times> 'l cache) option" where
  "handoff_set_if_absent_at E key value ttl ahead_of_ring now c = do {
     let c = note_handoff now ahead_of_ring c;
     (refused, c) \<leftarrow>
       (if tombstoned_at key now c then Some (True, c)
        else do {
          (absent, c) \<leftarrow> condition_holds_at E key CondAbsent now c;
          Some (\<not> absent \<and> \<not> is_marked c key, c)
        });
     if refused then Some (Mismatch, c)
     else do {
       c \<leftarrow> cache_insert E key value (expiry_of now ttl) c;
       Some (Stored, c)
     }
   }"

text \<open>\<open>owned\<close> is the caller's ownership check; it panics (\<open>None\<close>) where the key's hash does.\<close>

fun reclaim_loop :: "'l env \<Rightarrow> (key \<Rightarrow> bool option) \<Rightarrow> key list \<Rightarrow> nat \<Rightarrow> 'l cache \<Rightarrow> (nat \<times> 'l cache) option" where
  "reclaim_loop E owned [] removed c = Some (removed, c)"
| "reclaim_loop E owned (key # keys) removed c =
     (if peek E c key = None then reclaim_loop E owned keys removed c
      else do {
        keep \<leftarrow> owned key;
        if keep then reclaim_loop E owned keys removed c
        else do {
          (entry, c) \<leftarrow> remove_entry E key c;
          if entry \<noteq> None then reclaim_loop E owned keys (removed + 1) (forget_tombstone key c)
          else reclaim_loop E owned keys removed c
        }
      })"

definition reclaim_unowned_at ::
    "'l env \<Rightarrow> key list \<Rightarrow> (key \<Rightarrow> bool option) \<Rightarrow> duration \<Rightarrow> instant \<Rightarrow> 'l cache
      \<Rightarrow> (reclaim_report \<times> 'l cache) option" where
  "reclaim_unowned_at E keys owned handoff_quiet_for now c =
     (let handoff_writes = c_handoff_writes c
      in if (case c_last_handoff_at c of None \<Rightarrow> False | Some at \<Rightarrow> now - at < handoff_quiet_for)
         then Some (\<lparr>rr_removed = 0, rr_paused = True, rr_handoff_writes = handoff_writes\<rparr>, c)
         else do {
           (removed, c) \<leftarrow> reclaim_loop E owned keys 0 c;
           Some (\<lparr>rr_removed = removed, rr_paused = False, rr_handoff_writes = handoff_writes\<rparr>, c)
         })"

section \<open>Migration marks\<close>

definition clear_migrated_mark :: "key \<Rightarrow> 'l cache \<Rightarrow> 'l cache" where
  "clear_migrated_mark key c =
     (case find_namespace c (key_namespace key) of
        None \<Rightarrow> c
      | Some sid \<Rightarrow>
          (case map_of (c_slots c) sid of
             None \<Rightarrow> c
           | Some namespace \<Rightarrow>
               let (namespace, used_bytes, marked) =
                 release_mark (key_name key) (namespace, c_used_bytes c, c_marked c)
               in put_slot sid namespace (c\<lparr>c_used_bytes := used_bytes, c_marked := marked\<rparr>)))"

definition keys_at :: "'l env \<Rightarrow> instant \<Rightarrow> 'l cache \<Rightarrow> key list" where
  "keys_at E now c = concat (map (\<lambda>(_, sub_map).
     map (\<lambda>(name, _). new_key (ns_name sub_map) name)
       (filter (\<lambda>(_, entry). \<not> is_expired_at entry now) (lru_iter E (ns_entries sub_map)))) (c_slots c))"

definition peek_entry_at :: "'l env \<Rightarrow> key \<Rightarrow> instant \<Rightarrow> 'l cache \<Rightarrow> (key \<times> bytes \<times> duration option) option" where
  "peek_entry_at E key now c = do {
     entry \<leftarrow> peek E c key;
     if is_expired_at entry now then None
     else Some (key, e_value entry, map_option (\<lambda>t. t - now) (e_expires_at entry))
   }"

definition peek_live_entry :: "'l env \<Rightarrow> key \<Rightarrow> instant \<Rightarrow> 'l cache \<Rightarrow> (key \<times> bytes \<times> duration option) option" where
  "peek_live_entry E key now c =
     (if is_marked c key then None else peek_entry_at E key now c)"

definition mark_migrated :: "'l env \<Rightarrow> key \<Rightarrow> 'l cache \<Rightarrow> 'l cache" where
  "mark_migrated E key c =
     (case find_namespace c (key_namespace key) of
        None \<Rightarrow> c
      | Some sid \<Rightarrow>
          (case map_of (c_slots c) sid of
             None \<Rightarrow> c
           | Some namespace \<Rightarrow>
               if lru_contains E (ns_entries namespace) (key_name key)
                  \<and> key_name key \<notin> set (ns_migrated namespace)
               then let mark_bytes = mark_charge (key_name key) in
                 put_slot sid (namespace\<lparr>ns_migrated := key_name key # ns_migrated namespace,
                                         ns_used_bytes := ns_used_bytes namespace + mark_bytes\<rparr>)
                   (c\<lparr>c_used_bytes := c_used_bytes c + mark_bytes, c_marked := c_marked c + 1\<rparr>)
               else c))"

definition unmark_migrated_many :: "key list \<Rightarrow> 'l cache \<Rightarrow> int \<times> 'l cache" where
  "unmark_migrated_many keys c =
     (let before = c_marked c; c = fold clear_migrated_mark keys c in (before - c_marked c, c))"

section \<open>Statistics, clearing and the sweep\<close>

definition stats_top :: "'l env \<Rightarrow> nat \<Rightarrow> 'l cache \<Rightarrow> cache_stats" where
  "stats_top E largest c =
     (let order = (\<lambda>row. (- st_ns_used_bytes row, st_namespace row));
          namespaces = map (\<lambda>(_, sub_map). \<lparr>
              st_namespace = ns_name sub_map,
              st_ns_entries = lru_len E (ns_entries sub_map),
              st_ns_used_bytes = ns_used_bytes sub_map,
              st_budget_bytes = ns_budget sub_map\<rparr>) (c_slots c);
          namespace_count = length namespaces;
          namespaces =
            (if largest = 0 then []
             else if length namespaces > largest
             then take largest (select_nth_unstable_by order (largest - 1) namespaces)
             else namespaces);
          namespaces = sort_key order namespaces
      in \<lparr>st_namespace_count = namespace_count, st_used_bytes = c_used_bytes c,
          st_max_memory_bytes = c_max_memory_bytes c, st_entries = c_entry_count c,
          st_hits = c_hits c, st_misses = c_misses c, st_sets = c_sets c, st_deletes = c_deletes c,
          st_evictions = c_evictions c, st_expirations = c_expirations c, st_incrs = c_incrs c,
          st_cas_sets = c_cas_sets c, st_cas_deletes = c_cas_deletes c, st_touches = c_touches c,
          st_touch_misses = c_touch_misses c, st_namespaces = namespaces\<rparr>)"

definition clear :: "'l env \<Rightarrow> bytes \<Rightarrow> 'l cache \<Rightarrow> (nat \<times> 'l cache) option" where
  "clear E namespace c =
     (case map_of (c_namespaces c) namespace of
        None \<Rightarrow> Some (0, c)
      | Some sid \<Rightarrow> do {
          let c = c\<lparr>c_namespaces := AList.delete namespace (c_namespaces c)\<rparr>;
          dropped \<leftarrow> map_of (c_slots c) sid;
          let removed = lru_len E (ns_entries dropped);
          Some (removed,
            c\<lparr>c_slots := AList.delete sid (c_slots c),
              c_entry_count := c_entry_count c - int removed,
              c_used_bytes := c_used_bytes c - (ns_used_bytes dropped + name_charge (ns_name dropped)),
              c_marked := c_marked c - int (length (ns_migrated dropped))\<rparr>)
        })"

definition clear_all :: "'l cache \<Rightarrow> int \<times> 'l cache" where
  "clear_all c = (c_entry_count c,
     c\<lparr>c_namespaces := [], c_slots := [], c_tails := [], c_entry_count := 0, c_used_bytes := 0,
       c_marked := 0, c_handoff_tombstones := [], c_tombstone_order := []\<rparr>)"

text \<open>The loop of \<open>sweep_at\<close>, at most \<open>n\<close> keys of the queue.\<close>

fun sweep_loop ::
    "'l env \<Rightarrow> instant \<Rightarrow> bool \<Rightarrow> (key \<Rightarrow> bool option) option \<Rightarrow> nat \<Rightarrow> nat \<Rightarrow> 'l cache \<Rightarrow> (nat \<times> 'l cache) option" where
  "sweep_loop E now include_marked owned 0 removed c = Some (removed, c)"
| "sweep_loop E now include_marked owned (Suc n) removed c =
     (case c_pending_removal c of
        [] \<Rightarrow> Some (removed, c)
      | key # rest \<Rightarrow> do {
          let c = c\<lparr>c_pending_removal := rest\<rparr>;
          let marked = (include_marked \<and> is_marked c key);
          let expired = (case peek E c key of None \<Rightarrow> False | Some entry \<Rightarrow> is_expired_at entry now);
          keep \<leftarrow> (if marked \<and> \<not> expired
                   then (case owned of None \<Rightarrow> Some False | Some f \<Rightarrow> f key)
                   else Some False);
          if keep then sweep_loop E now include_marked owned n removed (clear_migrated_mark key c)
          else if marked \<or> expired then do {
            (entry, c) \<leftarrow> remove_entry E key c;
            if entry = None then sweep_loop E now include_marked owned n removed c
            else
              let c = (if marked then forget_tombstone key c else c);
                  c = (if expired then c\<lparr>c_expirations := c_expirations c + 1\<rparr> else c)
              in sweep_loop E now include_marked owned n (removed + 1) c
          }
          else sweep_loop E now include_marked owned n removed c
        })"

definition sweep_candidates :: "'l env \<Rightarrow> instant \<Rightarrow> bool \<Rightarrow> 'l cache \<Rightarrow> key list" where
  "sweep_candidates E now include_marked c =
     concat (map (\<lambda>(_, sub_map).
       map (\<lambda>(name, _). new_key (ns_name sub_map) name)
         (filter (\<lambda>(_, entry). is_expired_at entry now) (lru_iter E (ns_entries sub_map)))) (c_slots c))
     @ (if include_marked
        then concat (map (\<lambda>(_, sub_map). map (new_key (ns_name sub_map)) (ns_migrated sub_map)) (c_slots c))
        else [])"

definition sweep_at ::
    "'l env \<Rightarrow> instant \<Rightarrow> bool \<Rightarrow> (key \<Rightarrow> bool option) option \<Rightarrow> 'l cache \<Rightarrow> (nat \<times> 'l cache) option" where
  "sweep_at E now include_marked owned c =
     (let c = prune_tombstones now c;
          c = (if c_pending_removal c = []
               then c\<lparr>c_pending_removal := sweep_candidates E now include_marked c\<rparr> else c)
      in sweep_loop E now include_marked owned SWEEP_BUDGET 0 c)"

definition sweep :: "'l env \<Rightarrow> instant \<Rightarrow> 'l cache \<Rightarrow> (nat \<times> 'l cache) option" where
  "sweep E now c = sweep_at E now True None c"

definition sweep_keeping ::
    "'l env \<Rightarrow> (key \<Rightarrow> bool option) \<Rightarrow> instant \<Rightarrow> 'l cache \<Rightarrow> (nat \<times> 'l cache) option" where
  "sweep_keeping E owned now c = sweep_at E now True (Some owned) c"

definition sweep_expired :: "'l env \<Rightarrow> instant \<Rightarrow> 'l cache \<Rightarrow> (nat \<times> 'l cache) option" where
  "sweep_expired E now c = sweep_at E now False None c"

end
