(* ===== verification/Cache_Invariant.thy ===== *)
theory Cache_Invariant
  imports Cache_Model
begin

text \<open>
  The invariant of the store and the rules by which the operations keep it. \<open>ns_inv\<close> states what a
  namespace is charged and how its entries are ordered; \<open>cache_inv_but\<close> adds the index of the
  namespaces, the totals, the eviction heap and the tombstones. Between \<open>ensure_namespace\<close> and the
  write it serves the new namespace is empty; the set \<open>X\<close> names the slots for which that is
  allowed. Three rules cover every change of the state: one namespace is replaced
  (\<open>put_slot_inv\<close>), one is created (\<open>ensure_namespace_inv\<close>), one is dropped (\<open>drop_slot_inv\<close>).
\<close>

section \<open>The invariant\<close>

definition ns_items :: "'l env \<Rightarrow> 'l namespace \<Rightarrow> (bytes \<times> entry) list" where
  "ns_items E ns = lru_iter E (ns_entries ns)"

definition ns_stamps :: "'l env \<Rightarrow> 'l namespace \<Rightarrow> nat set" where
  "ns_stamps E ns = (\<lambda>(_, e). e_last_used e) ` set (ns_items E ns)"

definition items_bytes :: "(bytes \<times> entry) list \<Rightarrow> int" where
  "items_bytes l = sum_list (map (\<lambda>(n, e). entry_bytes n (e_value e)) l)"

definition ns_true_bytes :: "'l env \<Rightarrow> 'l namespace \<Rightarrow> int" where
  "ns_true_bytes E ns = items_bytes (ns_items E ns) + sum_list (map mark_charge (ns_migrated ns))
     + sum_list (map (\<lambda>(n, _). digest_charge n) (ns_digests ns))"

text \<open>A kept digest is the digest of the value now stored, which is a large one.\<close>

definition digests_ok :: "'l env \<Rightarrow> 'l namespace \<Rightarrow> bool" where
  "digests_ok E ns = (\<forall>n d. map_of (ns_digests ns) n = Some d \<longrightarrow>
     (\<exists>e. map_of (ns_items E ns) n = Some e \<and> DIGEST_CACHE_MIN_VALUE_BYTES \<le> length (e_value e)
        \<and> d = content_digest E (e_value e)))"

definition ns_inv :: "'l env \<Rightarrow> ('l \<Rightarrow> bool) \<Rightarrow> nat \<Rightarrow> 'l namespace \<Rightarrow> bool" where
  "ns_inv E lru_wf clock ns \<longleftrightarrow>
     lru_wf (ns_entries ns)
     \<and> sorted_wrt (\<lambda>(_, e) (_, e'). e_last_used e' < e_last_used e) (ns_items E ns)
     \<and> (\<forall>s \<in> ns_stamps E ns. s \<le> clock)
     \<and> distinct (ns_migrated ns)
     \<and> set (ns_migrated ns) \<subseteq> dom (map_of (ns_items E ns))
     \<and> distinct (map fst (ns_digests ns))
     \<and> digests_ok E ns
     \<and> ns_used_bytes ns = ns_true_bytes E ns"

definition slot_inv :: "'l env \<Rightarrow> ('l \<Rightarrow> bool) \<Rightarrow> nat set \<Rightarrow> 'l cache \<Rightarrow> nat \<Rightarrow> 'l namespace \<Rightarrow> bool" where
  "slot_inv E lru_wf X c sid ns \<longleftrightarrow>
     sid < c_next_slot_id c
     \<and> ns_inv E lru_wf (c_clock c) ns
     \<and> ns_budget ns = map_of (c_budgets c) (ns_name ns)
     \<and> (sid \<in> X \<or> ns_items E ns \<noteq> [])
     \<and> (\<exists>k. (k, sid) \<in> set (c_tails c) \<and> (\<forall>s \<in> ns_stamps E ns. k \<le> s))"

definition tombstones_bytes :: "(key \<times> instant) list \<Rightarrow> int" where
  "tombstones_bytes ts = sum_list (map (\<lambda>(k, _). tombstone_bytes k) ts)"

definition tombstones_inv :: "'l cache \<Rightarrow> bool" where
  "tombstones_inv c \<longleftrightarrow>
     distinct (map fst (c_handoff_tombstones c))
     \<and> (\<forall>k t. map_of (c_handoff_tombstones c) k = Some t \<longrightarrow> (t, k) \<in> set (c_tombstone_order c))"

definition slots_bytes :: "(nat \<times> 'l namespace) list \<Rightarrow> int" where
  "slots_bytes sl = sum_list (map (\<lambda>(_, ns). ns_used_bytes ns + name_charge (ns_name ns)) sl)"

definition slots_entries :: "'l env \<Rightarrow> (nat \<times> 'l namespace) list \<Rightarrow> int" where
  "slots_entries E sl = sum_list (map (\<lambda>(_, ns). int (length (ns_items E ns))) sl)"

definition slots_marked :: "(nat \<times> 'l namespace) list \<Rightarrow> int" where
  "slots_marked sl = sum_list (map (\<lambda>(_, ns). int (length (ns_migrated ns))) sl)"

definition index_inv :: "'l cache \<Rightarrow> bool" where
  "index_inv c \<longleftrightarrow>
     distinct (map fst (c_slots c)) \<and> distinct (map fst (c_namespaces c))
     \<and> (\<forall>n sid. map_of (c_namespaces c) n = Some sid
          \<longleftrightarrow> (\<exists>ns. map_of (c_slots c) sid = Some ns \<and> ns_name ns = n))"

definition totals_inv :: "'l env \<Rightarrow> 'l cache \<Rightarrow> bool" where
  "totals_inv E c \<longleftrightarrow>
     c_used_bytes c = slots_bytes (c_slots c) + tombstones_bytes (c_handoff_tombstones c)
     \<and> c_entry_count c = slots_entries E (c_slots c)
     \<and> c_marked c = slots_marked (c_slots c)"

definition stamps_unique :: "'l env \<Rightarrow> 'l cache \<Rightarrow> bool" where
  "stamps_unique E c \<longleftrightarrow>
     (\<forall>i j a b. map_of (c_slots c) i = Some a \<longrightarrow> map_of (c_slots c) j = Some b \<longrightarrow> i \<noteq> j \<longrightarrow>
        ns_stamps E a \<inter> ns_stamps E b = {})"

definition cache_inv_but :: "'l env \<Rightarrow> ('l \<Rightarrow> bool) \<Rightarrow> nat set \<Rightarrow> 'l cache \<Rightarrow> bool" where
  "cache_inv_but E lru_wf X c \<longleftrightarrow>
     index_inv c
     \<and> (\<forall>sid ns. map_of (c_slots c) sid = Some ns \<longrightarrow> slot_inv E lru_wf X c sid ns)
     \<and> stamps_unique E c
     \<and> (\<forall>(k, sid) \<in> set (c_tails c). k \<le> c_clock c)
     \<and> totals_inv E c
     \<and> tombstones_inv c"

definition cache_inv :: "'l env \<Rightarrow> ('l \<Rightarrow> bool) \<Rightarrow> 'l cache \<Rightarrow> bool" where
  "cache_inv E lru_wf c = cache_inv_but E lru_wf {} c"

text \<open>A heap that covers every slot: each has an item no later than its oldest entry.\<close>

definition tails_cover ::
    "'l env \<Rightarrow> (nat \<times> 'l namespace) list \<Rightarrow> (nat \<times> nat) list \<Rightarrow> nat \<Rightarrow> bool" where
  "tails_cover E slots tails clock \<longleftrightarrow>
     (\<forall>sid ns. map_of slots sid = Some ns \<longrightarrow> (\<exists>k. (k, sid) \<in> set tails \<and> (\<forall>s \<in> ns_stamps E ns. k \<le> s)))
     \<and> (\<forall>(k, sid) \<in> set tails. k \<le> clock)"

text \<open>What an operation on the entries leaves alone.\<close>

definition same_frame :: "'l cache \<Rightarrow> 'l cache \<Rightarrow> bool" where
  "same_frame c c' \<longleftrightarrow>
     c'\<lparr>c_namespaces := c_namespaces c, c_slots := c_slots c, c_tails := c_tails c,
        c_next_slot_id := c_next_slot_id c, c_marked := c_marked c, c_entry_count := c_entry_count c,
        c_used_bytes := c_used_bytes c, c_clock := c_clock c, c_evictions := c_evictions c\<rparr> = c"

lemma same_frame_refl [simp]: "same_frame c c"
  by (simp add: same_frame_def)

lemma same_frame_trans: "same_frame a b \<Longrightarrow> same_frame b c \<Longrightarrow> same_frame a c"
  by (cases a; cases b; cases c) (simp add: same_frame_def)

section \<open>Releasing a mark and a digest\<close>

definition strip_mark :: "bytes \<Rightarrow> 'l namespace \<Rightarrow> 'l namespace" where
  "strip_mark name ns = fst (release_mark name (ns, 0, 0))"

definition strip_digest :: "bytes \<Rightarrow> 'l namespace \<Rightarrow> 'l namespace" where
  "strip_digest name ns = fst (release_digest name (ns, 0))"

lemma strip_mark_fields [simp]:
  "ns_name (strip_mark name ns) = ns_name ns"
  "ns_entries (strip_mark name ns) = ns_entries ns"
  "ns_budget (strip_mark name ns) = ns_budget ns"
  "ns_digests (strip_mark name ns) = ns_digests ns"
  "ns_migrated (strip_mark name ns) = removeAll name (ns_migrated ns)"
  "ns_used_bytes (strip_mark name ns) =
     ns_used_bytes ns - (if name \<in> set (ns_migrated ns) then mark_charge name else 0)"
  by (auto simp: strip_mark_def release_mark_def)

lemma strip_digest_fields [simp]:
  "ns_name (strip_digest name ns) = ns_name ns"
  "ns_entries (strip_digest name ns) = ns_entries ns"
  "ns_budget (strip_digest name ns) = ns_budget ns"
  "ns_digests (strip_digest name ns) = AList.delete name (ns_digests ns)"
  "ns_migrated (strip_digest name ns) = ns_migrated ns"
  "ns_used_bytes (strip_digest name ns) =
     ns_used_bytes ns - (if map_of (ns_digests ns) name \<noteq> None then digest_charge name else 0)"
  by (auto simp: strip_digest_def release_digest_def)

lemma release_mark_strip:
  "release_mark name (ns, u, m) =
     (strip_mark name ns, u + (ns_used_bytes (strip_mark name ns) - ns_used_bytes ns),
      m - (if name \<in> set (ns_migrated ns) then 1 else 0))"
  by (auto simp: strip_mark_def release_mark_def)

lemma release_digest_strip:
  "release_digest name (ns, u) =
     (strip_digest name ns, u + (ns_used_bytes (strip_digest name ns) - ns_used_bytes ns))"
  by (auto simp: strip_digest_def release_digest_def)

lemma length_removeAll_distinct:
  "distinct xs \<Longrightarrow> int (length (removeAll x xs)) = int (length xs) - (if x \<in> set xs then 1 else 0)"
  by (induction xs) auto

lemma sum_removeAll_distinct:
  fixes g :: "'a \<Rightarrow> int"
  shows "distinct xs \<Longrightarrow> sum_list (map g (removeAll x xs)) = sum_list (map g xs) - (if x \<in> set xs then g x else 0)"
  by (induction xs) auto

lemma sum_delete_cases:
  fixes g :: "'k \<times> 'v \<Rightarrow> int"
  assumes "distinct (map fst al)"
  shows "sum_list (map g (AList.delete k al)) =
    sum_list (map g al) - (case map_of al k of None \<Rightarrow> 0 | Some old \<Rightarrow> g (k, old))"
  using assms by (auto simp: sum_delete split: option.splits)

lemma items_bytes_simps [simp]:
  "items_bytes [] = 0"
  "items_bytes ((n, e) # l) = entry_bytes n (e_value e) + items_bytes l"
  "items_bytes (l @ l') = items_bytes l + items_bytes l'"
  by (simp_all add: items_bytes_def)

lemma items_bytes_delete:
  "distinct (map fst l) \<Longrightarrow> items_bytes (AList.delete n l) =
     items_bytes l - (case map_of l n of None \<Rightarrow> 0 | Some e \<Rightarrow> entry_bytes n (e_value e))"
  by (simp add: items_bytes_def sum_delete_cases split: option.splits)

lemma items_bytes_update_same:
  "map_of l n = Some e \<Longrightarrow> e_value e' = e_value e \<Longrightarrow> items_bytes (AList.update n e' l) = items_bytes l"
  by (simp add: items_bytes_def sum_update)

lemma length_delete_distinct:
  "distinct (map fst l) \<Longrightarrow> int (length (AList.delete n l)) =
     int (length l) - (if map_of l n = None then 0 else 1)"
  using sum_delete_cases [of l "\<lambda>_. 1" n] by (cases "map_of l n") (simp_all add: sum_list_triv)

section \<open>One namespace\<close>

lemma name_charge_nonneg [simp]: "0 \<le> name_charge name"
  by (simp add: name_charge_def NAMESPACE_OVERHEAD_BYTES_def)

lemma ensure_namespace_used:
  "ensure_namespace E name c = (sid, c') \<Longrightarrow> c_used_bytes c' \<le> c_used_bytes c + name_charge name"
  by (auto simp: ensure_namespace_def Let_def rebuild_tails_def split: option.splits)

context lru_cache
begin

lemma ns_inv_wf: "ns_inv E lru_wf clock ns \<Longrightarrow> lru_wf (ns_entries ns)"
  by (simp add: ns_inv_def)

lemma ns_inv_distinct: "ns_inv E lru_wf clock ns \<Longrightarrow> distinct (map fst (ns_items E ns))"
  by (simp add: ns_inv_def ns_items_def)

lemma ns_inv_mono: "ns_inv E lru_wf clock ns \<Longrightarrow> clock \<le> clock' \<Longrightarrow> ns_inv E lru_wf clock' ns"
  by (auto simp: ns_inv_def)

text \<open>A write: the entry is the most recently used one, its mark and its digest are gone.\<close>

lemma ns_inv_write:
  assumes inv: "ns_inv E lru_wf clock ns"
    and wf: "lru_wf (ns_entries ns')"
    and items: "ns_items E ns' = (n, e) # AList.delete n (ns_items E ns)"
    and stamp: "clock < e_last_used e" "e_last_used e \<le> clock'"
    and marks: "ns_migrated ns' = removeAll n (ns_migrated ns)"
    and digests: "ns_digests ns' = AList.delete n (ns_digests ns)"
    and used: "ns_used_bytes ns' = ns_used_bytes ns + entry_bytes n (e_value e)
      - (case map_of (ns_items E ns) n of None \<Rightarrow> 0 | Some old \<Rightarrow> entry_bytes n (e_value old))
      - (if n \<in> set (ns_migrated ns) then mark_charge n else 0)
      - (if map_of (ns_digests ns) n \<noteq> None then digest_charge n else 0)"
  shows "ns_inv E lru_wf clock' ns'"
proof -
  note d = ns_inv_distinct [OF inv]
  have stamps: "\<forall>s \<in> ns_stamps E ns. s \<le> clock" using inv by (simp add: ns_inv_def)
  have "sorted_wrt (\<lambda>(_, e) (_, e'). e_last_used e' < e_last_used e) (ns_items E ns')"
    using inv stamp(1) unfolding items ns_inv_def
    by (force simp: sorted_wrt_delete ns_stamps_def)
  moreover have "\<forall>s \<in> ns_stamps E ns'. s \<le> clock'"
    using stamps stamp unfolding ns_stamps_def items by fastforce
  moreover have "set (ns_migrated ns') \<subseteq> dom (map_of (ns_items E ns'))"
    using inv unfolding marks items ns_inv_def by auto
  moreover have "digests_ok E ns'"
    using inv unfolding digests_ok_def digests items ns_inv_def by auto
  moreover have "ns_used_bytes ns' = ns_true_bytes E ns'"
    using inv d unfolding used ns_true_bytes_def marks digests items ns_inv_def
    by (auto simp: items_bytes_delete sum_removeAll_distinct sum_delete_cases split: option.splits)
  ultimately show ?thesis
    using inv wf by (simp add: ns_inv_def marks digests distinct_removeAll)
qed

text \<open>A removal, whatever the reason.\<close>

lemma ns_inv_remove:
  assumes inv: "ns_inv E lru_wf clock ns"
    and wf: "lru_wf (ns_entries ns')"
    and items: "ns_items E ns' = AList.delete n (ns_items E ns)"
    and old: "map_of (ns_items E ns) n = Some old"
    and marks: "ns_migrated ns' = removeAll n (ns_migrated ns)"
    and digests: "ns_digests ns' = AList.delete n (ns_digests ns)"
    and used: "ns_used_bytes ns' = ns_used_bytes ns - entry_bytes n (e_value old)
      - (if n \<in> set (ns_migrated ns) then mark_charge n else 0)
      - (if map_of (ns_digests ns) n \<noteq> None then digest_charge n else 0)"
  shows "ns_inv E lru_wf clock ns'"
proof -
  note d = ns_inv_distinct [OF inv]
  have "sorted_wrt (\<lambda>(_, e) (_, e'). e_last_used e' < e_last_used e) (ns_items E ns')"
    using inv unfolding items ns_inv_def by (simp add: sorted_wrt_delete)
  moreover have "\<forall>s \<in> ns_stamps E ns'. s \<le> clock"
    using inv unfolding ns_stamps_def items ns_inv_def by fastforce
  moreover have "set (ns_migrated ns') \<subseteq> dom (map_of (ns_items E ns'))"
    using inv unfolding marks items ns_inv_def by auto
  moreover have "digests_ok E ns'"
    using inv unfolding digests_ok_def digests items ns_inv_def by auto
  moreover have "ns_used_bytes ns' = ns_true_bytes E ns'"
    using inv d old unfolding used ns_true_bytes_def marks digests items ns_inv_def
    by (auto simp: items_bytes_delete sum_removeAll_distinct sum_delete_cases split: option.splits)
  ultimately show ?thesis
    using inv wf by (simp add: ns_inv_def marks digests distinct_removeAll)
qed

text \<open>A read or a touch: the value stays; the entry is promoted with a fresh stamp, or stays in its
  place with the stamp it had.\<close>

lemma ns_inv_promote:
  assumes inv: "ns_inv E lru_wf clock ns"
    and wf: "lru_wf (ns_entries ns')"
    and items: "ns_items E ns' = (n, e) # AList.delete n (ns_items E ns)"
    and old: "map_of (ns_items E ns) n = Some old" "e_value e = e_value old"
    and stamp: "clock < e_last_used e" "e_last_used e \<le> clock'"
    and same: "ns_migrated ns' = ns_migrated ns" "ns_digests ns' = ns_digests ns"
      "ns_used_bytes ns' = ns_used_bytes ns"
  shows "ns_inv E lru_wf clock' ns'"
proof -
  note d = ns_inv_distinct [OF inv]
  have stamps: "\<forall>s \<in> ns_stamps E ns. s \<le> clock" using inv by (simp add: ns_inv_def)
  have "sorted_wrt (\<lambda>(_, e) (_, e'). e_last_used e' < e_last_used e) (ns_items E ns')"
    using inv stamp(1) unfolding items ns_inv_def
    by (force simp: sorted_wrt_delete ns_stamps_def)
  moreover have "\<forall>s \<in> ns_stamps E ns'. s \<le> clock'"
    using stamps stamp unfolding ns_stamps_def items by fastforce
  moreover have "set (ns_migrated ns') \<subseteq> dom (map_of (ns_items E ns'))"
    using inv unfolding same items ns_inv_def by auto
  moreover have "digests_ok E ns'"
    using inv old unfolding digests_ok_def same items ns_inv_def by fastforce
  moreover have "ns_used_bytes ns' = ns_true_bytes E ns'"
    using inv d old unfolding same ns_true_bytes_def items ns_inv_def
    by (simp add: items_bytes_delete)
  ultimately show ?thesis
    using inv wf by (simp add: ns_inv_def same)
qed

lemma stamps_update:
  "map_of l n = Some old \<Longrightarrow> e_last_used e = e_last_used old \<Longrightarrow>
     map (\<lambda>(_, e). e_last_used e) (AList.update n e l) = map (\<lambda>(_, e). e_last_used e) l"
  by (induction l) auto

lemma sorted_wrt_map_stamps:
  "sorted_wrt (\<lambda>(_ :: bytes, e) (_, e'). e_last_used e' < e_last_used e) l
     \<longleftrightarrow> sorted_wrt (\<lambda>s s'. s' < s) (map (\<lambda>(_, e). e_last_used e) l)"
  by (simp add: sorted_wrt_map case_prod_unfold)

lemma ns_inv_in_place:
  assumes inv: "ns_inv E lru_wf clock ns"
    and wf: "lru_wf (ns_entries ns')"
    and items: "ns_items E ns' = AList.update n e (ns_items E ns)"
    and old: "map_of (ns_items E ns) n = Some old" "e_value e = e_value old" "e_last_used e = e_last_used old"
    and same: "ns_migrated ns' = ns_migrated ns" "ns_digests ns' = ns_digests ns"
      "ns_used_bytes ns' = ns_used_bytes ns"
  shows "ns_inv E lru_wf clock ns'"
    and "ns_stamps E ns' = ns_stamps E ns"
proof -
  note eq = stamps_update [OF old(1, 3)]
  show st: "ns_stamps E ns' = ns_stamps E ns"
    unfolding ns_stamps_def items by (metis eq list.set_map)
  have "sorted_wrt (\<lambda>(_, e) (_, e'). e_last_used e' < e_last_used e) (ns_items E ns')"
    using inv unfolding items ns_inv_def by (simp add: sorted_wrt_map_stamps eq)
  moreover have "set (ns_migrated ns') \<subseteq> dom (map_of (ns_items E ns'))"
    using inv unfolding same items ns_inv_def by auto
  moreover have "digests_ok E ns'"
    using inv old unfolding digests_ok_def same items ns_inv_def by fastforce
  moreover have "ns_used_bytes ns' = ns_true_bytes E ns'"
    using inv old unfolding same ns_true_bytes_def items ns_inv_def
    by (simp add: items_bytes_update_same)
  ultimately show "ns_inv E lru_wf clock ns'"
    using inv wf st by (simp add: ns_inv_def same)
qed

end

section \<open>Changes of the state\<close>

text \<open>Namespace \<open>ns\<close> in slot \<open>sid\<close> becomes \<open>ns'\<close>, and the totals follow.\<close>

definition slot_step ::
    "'l env \<Rightarrow> nat \<Rightarrow> 'l namespace \<Rightarrow> 'l namespace \<Rightarrow> 'l cache \<Rightarrow> 'l cache \<Rightarrow> bool" where
  "slot_step E sid ns ns' c c' \<longleftrightarrow>
     map_of (c_slots c) sid = Some ns
     \<and> ns_name ns' = ns_name ns \<and> ns_budget ns' = ns_budget ns
     \<and> ns_stamps E ns' \<subseteq> ns_stamps E ns \<union> {c_clock c<..}
     \<and> c_slots c' = AList.update sid ns' (c_slots c)
     \<and> c_namespaces c' = c_namespaces c \<and> c_tails c' = c_tails c
     \<and> c_next_slot_id c' = c_next_slot_id c \<and> c_budgets c' = c_budgets c
     \<and> c_handoff_tombstones c' = c_handoff_tombstones c \<and> c_tombstone_order c' = c_tombstone_order c
     \<and> c_clock c \<le> c_clock c'
     \<and> c_used_bytes c' = c_used_bytes c + (ns_used_bytes ns' - ns_used_bytes ns)
     \<and> c_entry_count c' = c_entry_count c + (int (length (ns_items E ns')) - int (length (ns_items E ns)))
     \<and> c_marked c' = c_marked c + (int (length (ns_migrated ns')) - int (length (ns_migrated ns)))"

text \<open>The namespace in slot \<open>sid\<close> is dropped with all it holds.\<close>

definition slot_drop :: "'l env \<Rightarrow> nat \<Rightarrow> 'l namespace \<Rightarrow> 'l cache \<Rightarrow> 'l cache \<Rightarrow> bool" where
  "slot_drop E sid ns c c' \<longleftrightarrow>
     map_of (c_slots c) sid = Some ns
     \<and> c_slots c' = AList.delete sid (c_slots c)
     \<and> c_namespaces c' = AList.delete (ns_name ns) (c_namespaces c)
     \<and> c_tails c' = c_tails c
     \<and> c_next_slot_id c' = c_next_slot_id c \<and> c_budgets c' = c_budgets c
     \<and> c_handoff_tombstones c' = c_handoff_tombstones c \<and> c_tombstone_order c' = c_tombstone_order c
     \<and> c_clock c' = c_clock c
     \<and> c_used_bytes c' = c_used_bytes c - (ns_used_bytes ns + name_charge (ns_name ns))
     \<and> c_entry_count c' = c_entry_count c - int (length (ns_items E ns))
     \<and> c_marked c' = c_marked c - int (length (ns_migrated ns))"

definition slot_of :: "'l cache \<Rightarrow> bytes \<Rightarrow> 'l namespace option" where
  "slot_of c n = Option.bind (map_of (c_namespaces c) n) (map_of (c_slots c))"

lemma slot_of_Some:
  assumes "index_inv c"
  shows "slot_of c n = Some ns \<longleftrightarrow> (\<exists>sid. map_of (c_slots c) sid = Some ns \<and> ns_name ns = n)"
proof
  assume "slot_of c n = Some ns"
  then obtain sid where "map_of (c_namespaces c) n = Some sid" "map_of (c_slots c) sid = Some ns"
    by (auto simp: slot_of_def Option.bind_eq_Some_conv)
  then show "\<exists>sid. map_of (c_slots c) sid = Some ns \<and> ns_name ns = n"
    using assms unfolding index_inv_def by fastforce
next
  assume "\<exists>sid. map_of (c_slots c) sid = Some ns \<and> ns_name ns = n"
  then obtain sid where s: "map_of (c_slots c) sid = Some ns" "ns_name ns = n" by blast
  then have "map_of (c_namespaces c) n = Some sid"
    using assms unfolding index_inv_def by blast
  then show "slot_of c n = Some ns" by (simp add: slot_of_def s)
qed

lemma index_unique:
  assumes "index_inv c" and "map_of (c_slots c) i = Some a" and "map_of (c_slots c) j = Some b"
    and "ns_name a = ns_name b"
  shows "i = j"
proof -
  have "map_of (c_namespaces c) (ns_name a) = Some i" "map_of (c_namespaces c) (ns_name a) = Some j"
    using assms unfolding index_inv_def by auto
  then show ?thesis by simp
qed

lemma index_find:
  "index_inv c \<Longrightarrow> map_of (c_namespaces c) n = Some sid \<Longrightarrow>
     \<exists>ns. map_of (c_slots c) sid = Some ns \<and> ns_name ns = n"
  unfolding index_inv_def by blast

lemma index_slot:
  "index_inv c \<Longrightarrow> map_of (c_slots c) sid = Some ns \<Longrightarrow> map_of (c_namespaces c) (ns_name ns) = Some sid"
  unfolding index_inv_def by blast

lemma index_inv_step:
  assumes "index_inv c" and "slot_step E sid ns ns' c c'"
  shows "index_inv c'"
proof -
  have slot: "map_of (c_slots c) sid = Some ns" "ns_name ns' = ns_name ns"
    and c': "c_slots c' = AList.update sid ns' (c_slots c)" "c_namespaces c' = c_namespaces c"
    using assms(2) by (auto simp: slot_step_def)
  have "map_of (c_namespaces c) n = Some i
      \<longleftrightarrow> (\<exists>x. map_of (AList.update sid ns' (c_slots c)) i = Some x \<and> ns_name x = n)" for n i
    using assms(1) slot unfolding index_inv_def by (cases "i = sid") auto
  then show ?thesis using assms(1) by (simp add: index_inv_def c')
qed

lemma slot_of_step:
  assumes "index_inv c" and "slot_step E sid ns ns' c c'"
  shows "slot_of c' n = (if n = ns_name ns then Some ns' else slot_of c n)"
proof -
  have slot: "map_of (c_slots c) sid = Some ns"
    and c': "c_slots c' = AList.update sid ns' (c_slots c)" "c_namespaces c' = c_namespaces c"
    using assms(2) by (auto simp: slot_step_def)
  note idx = index_slot [OF assms(1) slot]
  show ?thesis
  proof (cases "n = ns_name ns")
    case True
    then show ?thesis using idx by (simp add: slot_of_def c')
  next
    case False
    have "map_of (c_namespaces c) n \<noteq> Some sid"
      using index_find [OF assms(1), of n sid] slot False by auto
    then show ?thesis using False by (cases "map_of (c_namespaces c) n") (auto simp: slot_of_def c')
  qed
qed

lemma slots_sums_update:
  assumes "map_of sl sid = Some ns" and "ns_name ns' = ns_name ns"
  shows "slots_bytes (AList.update sid ns' sl) = slots_bytes sl + (ns_used_bytes ns' - ns_used_bytes ns)"
    and "slots_entries E (AList.update sid ns' sl)
      = slots_entries E sl + (int (length (ns_items E ns')) - int (length (ns_items E ns)))"
    and "slots_marked (AList.update sid ns' sl)
      = slots_marked sl + (int (length (ns_migrated ns')) - int (length (ns_migrated ns)))"
  using assms by (simp_all add: slots_bytes_def slots_entries_def slots_marked_def sum_update)

lemma slots_sums_delete:
  assumes "distinct (map fst sl)" and "map_of sl sid = Some ns"
  shows "slots_bytes (AList.delete sid sl) = slots_bytes sl - (ns_used_bytes ns + name_charge (ns_name ns))"
    and "slots_entries E (AList.delete sid sl) = slots_entries E sl - int (length (ns_items E ns))"
    and "slots_marked (AList.delete sid sl) = slots_marked sl - int (length (ns_migrated ns))"
  using assms by (simp_all add: slots_bytes_def slots_entries_def slots_marked_def sum_delete)

context lru_cache
begin

lemma inv_slot: "cache_inv_but E lru_wf X c \<Longrightarrow> map_of (c_slots c) sid = Some ns \<Longrightarrow> slot_inv E lru_wf X c sid ns"
  by (simp add: cache_inv_but_def)

lemma inv_ns: "cache_inv_but E lru_wf X c \<Longrightarrow> map_of (c_slots c) sid = Some ns \<Longrightarrow> ns_inv E lru_wf (c_clock c) ns"
  by (simp add: cache_inv_but_def slot_inv_def)

lemma inv_index: "cache_inv_but E lru_wf X c \<Longrightarrow> index_inv c"
  by (simp add: cache_inv_but_def)

lemma inv_stamp_le:
  "cache_inv_but E lru_wf X c \<Longrightarrow> map_of (c_slots c) sid = Some ns \<Longrightarrow> s \<in> ns_stamps E ns \<Longrightarrow> s \<le> c_clock c"
  using inv_ns by (fastforce simp: ns_inv_def)

lemma put_slot_inv:
  assumes inv: "cache_inv_but E lru_wf X c"
    and step: "slot_step E sid ns ns' c c'"
    and ns': "ns_inv E lru_wf (c_clock c') ns'"
    and X: "X - {sid} \<subseteq> X'" "sid \<in> X' \<or> ns_items E ns' \<noteq> []"
  shows "cache_inv_but E lru_wf X' c'"
proof -
  have slot: "map_of (c_slots c) sid = Some ns" "ns_name ns' = ns_name ns"
    and stamps: "ns_stamps E ns' \<subseteq> ns_stamps E ns \<union> {c_clock c<..}"
    and clock: "c_clock c \<le> c_clock c'"
    and c': "c_slots c' = AList.update sid ns' (c_slots c)" "c_tails c' = c_tails c"
    using step by (auto simp: slot_step_def)
  have tails: "\<forall>(k, i) \<in> set (c_tails c). k \<le> c_clock c"
    using inv by (simp add: cache_inv_but_def)
  have "slot_inv E lru_wf X' c' i x" if i: "map_of (c_slots c') i = Some x" for i x
  proof (cases "i = sid")
    case True
    then have x: "x = ns'" using i by (simp add: c')
    have old: "slot_inv E lru_wf X c sid ns" by (rule inv_slot [OF inv slot(1)])
    then obtain k where k: "(k, sid) \<in> set (c_tails c)" "\<forall>s \<in> ns_stamps E ns. k \<le> s"
      by (auto simp: slot_inv_def)
    have "\<forall>s \<in> ns_stamps E ns'. k \<le> s"
      using k tails stamps by fastforce
    with k(1) have "\<exists>k. (k, sid) \<in> set (c_tails c) \<and> (\<forall>s \<in> ns_stamps E ns'. k \<le> s)" by blast
    with old ns' X(2) show ?thesis
      unfolding slot_inv_def x True using step by (auto simp: slot_step_def)
  next
    case False
    then have "slot_inv E lru_wf X c i x" using i inv_slot [OF inv] by (simp add: c')
    then show ?thesis
      using False X(1) clock step by (auto simp: slot_inv_def slot_step_def intro: ns_inv_mono)
  qed
  moreover have "stamps_unique E c'"
    unfolding stamps_unique_def
  proof (intro allI impI)
    fix i j a b
    assume a: "map_of (c_slots c') i = Some a" and b: "map_of (c_slots c') j = Some b" and ne: "i \<noteq> j"
    have uniq: "\<And>i j a b. map_of (c_slots c) i = Some a \<Longrightarrow> map_of (c_slots c) j = Some b \<Longrightarrow>
        i \<noteq> j \<Longrightarrow> ns_stamps E a \<inter> ns_stamps E b = {}"
      using inv by (simp add: cache_inv_but_def stamps_unique_def)
    have fresh: "ns_stamps E ns' \<inter> ns_stamps E x = {}" if "map_of (c_slots c) l = Some x" "l \<noteq> sid" for l x
      using stamps uniq [OF slot(1) that(1)] that(2) inv_stamp_le [OF inv that(1)] by fastforce
    show "ns_stamps E a \<inter> ns_stamps E b = {}"
      using a b ne fresh uniq by (auto simp: c' split: if_splits)
  qed
  moreover have "\<forall>(k, i) \<in> set (c_tails c'). k \<le> c_clock c'"
    using tails clock by (fastforce simp: c')
  moreover have "totals_inv E c'"
    using inv step by (simp add: cache_inv_but_def totals_inv_def slot_step_def slots_sums_update)
  moreover have "tombstones_inv c'"
    using inv step by (simp add: cache_inv_but_def tombstones_inv_def slot_step_def)
  ultimately show ?thesis
    using index_inv_step [OF inv_index [OF inv] step] by (simp add: cache_inv_but_def)
qed

end

lemma slot_of_drop:
  assumes "index_inv c" and "slot_drop E sid ns c c'"
  shows "slot_of c' n = (if n = ns_name ns then None else slot_of c n)"
proof -
  have slot: "map_of (c_slots c) sid = Some ns"
    and c': "c_slots c' = AList.delete sid (c_slots c)"
      "c_namespaces c' = AList.delete (ns_name ns) (c_namespaces c)"
    using assms(2) by (auto simp: slot_drop_def)
  have "map_of (c_namespaces c) n \<noteq> Some sid" if "n \<noteq> ns_name ns"
    using index_find [OF assms(1), of n sid] slot that by auto
  then show ?thesis
    by (cases "map_of (c_namespaces c) n") (auto simp: slot_of_def c')
qed

lemma index_inv_drop:
  assumes "index_inv c" and "slot_drop E sid ns c c'"
  shows "index_inv c'"
proof -
  have slot: "map_of (c_slots c) sid = Some ns"
    and c': "c_slots c' = AList.delete sid (c_slots c)"
      "c_namespaces c' = AList.delete (ns_name ns) (c_namespaces c)"
    using assms(2) by (auto simp: slot_drop_def)
  have "map_of (c_namespaces c') n = Some i
      \<longleftrightarrow> (\<exists>x. map_of (c_slots c') i = Some x \<and> ns_name x = n)" for n i
  proof -
    consider "i = sid" | "i \<noteq> sid" "n = ns_name ns" | "i \<noteq> sid" "n \<noteq> ns_name ns" by blast
    then show ?thesis
    proof cases
      case 1
      then show ?thesis using index_find [OF assms(1), of n sid] slot by (auto simp: c')
    next
      case 2
      then show ?thesis using index_unique [OF assms(1) _ slot, of i] by (auto simp: c')
    next
      case 3
      then show ?thesis using assms(1) by (simp add: c' index_inv_def)
    qed
  qed
  then show ?thesis using assms(1) by (simp add: index_inv_def c')
qed

context lru_cache
begin

lemma drop_slot_inv:
  assumes inv: "cache_inv_but E lru_wf X c" and drop: "slot_drop E sid ns c c'"
  shows "cache_inv_but E lru_wf (X - {sid}) c'"
proof -
  have slot: "map_of (c_slots c) sid = Some ns" and c': "c_slots c' = AList.delete sid (c_slots c)"
    using drop by (auto simp: slot_drop_def)
  have "slot_inv E lru_wf (X - {sid}) c' i x" if "map_of (c_slots c') i = Some x" for i x
  proof -
    have "i \<noteq> sid" "map_of (c_slots c) i = Some x" using that by (auto simp: c' split: if_splits)
    with inv_slot [OF inv this(2)] drop show ?thesis by (simp add: slot_inv_def slot_drop_def)
  qed
  moreover have "stamps_unique E c'"
    using inv by (auto simp: cache_inv_but_def stamps_unique_def c')
  moreover have "totals_inv E c'"
    using inv drop slot by (simp add: cache_inv_but_def totals_inv_def slot_drop_def index_inv_def slots_sums_delete)
  moreover have "\<forall>(k, i) \<in> set (c_tails c'). k \<le> c_clock c'" "tombstones_inv c'"
    using inv drop by (simp_all add: cache_inv_but_def tombstones_inv_def slot_drop_def)
  ultimately show ?thesis
    using index_inv_drop [OF inv_index [OF inv] drop] by (simp add: cache_inv_but_def)
qed

lemma drop_namespace_eq:
  assumes inv: "cache_inv_but E lru_wf X c" and slot: "map_of (c_slots c) sid = Some ns"
    and empty: "ns_items E ns = []"
  obtains c' where "drop_namespace sid c = Some c'" "slot_drop E sid ns c c'" "same_frame c c'"
    "c_evictions c' = c_evictions c"
proof -
  have ns: "ns_inv E lru_wf (c_clock c) ns" by (rule inv_ns [OF inv slot])
  have m: "ns_migrated ns = []" using ns empty by (simp add: ns_inv_def)
  have "\<forall>n. map_of (ns_digests ns) n = None"
    using ns empty by (auto simp: ns_inv_def digests_ok_def)
  then have "ns_digests ns = []"
    by (cases "ns_digests ns") (auto split: if_splits)
  then have u: "ns_used_bytes ns = 0" using ns m empty by (simp add: ns_inv_def ns_true_bytes_def)
  define c' where "c' = c\<lparr>c_slots := AList.delete sid (c_slots c),
    c_namespaces := AList.delete (ns_name ns) (c_namespaces c),
    c_used_bytes := c_used_bytes c - name_charge (ns_name ns)\<rparr>"
  show thesis
  proof (rule that [of c'])
    show "drop_namespace sid c = Some c'" by (simp add: drop_namespace_def slot c'_def)
    show "slot_drop E sid ns c c'" using slot m empty u by (simp add: slot_drop_def c'_def)
    show "same_frame c c'" "c_evictions c' = c_evictions c" by (simp_all add: same_frame_def c'_def)
  qed
qed

text \<open>The lookups, through the invariant.\<close>

lemma peek_slot:
  assumes inv: "cache_inv_but E lru_wf X c"
  shows "peek E c k = (case slot_of c (key_namespace k) of
      None \<Rightarrow> None | Some ns \<Rightarrow> map_of (ns_items E ns) (key_name k))"
proof (cases "slot_of c (key_namespace k)")
  case None
  then show ?thesis
    by (auto simp: peek_def find_namespace_def slot_of_def Option.bind_eq_None_conv
        split: Option.bind_splits)
next
  case (Some ns)
  then obtain sid where "map_of (c_slots c) sid = Some ns"
    using slot_of_Some [OF inv_index [OF inv]] by blast
  then have "lru_wf (ns_entries ns)" using inv_ns [OF inv] ns_inv_wf by blast
  with Some show ?thesis
    by (auto simp: peek_def find_namespace_def slot_of_def ns_items_def split: Option.bind_splits)
qed

lemma is_marked_slot:
  "is_marked c k = (case slot_of c (key_namespace k) of
     None \<Rightarrow> False | Some ns \<Rightarrow> key_name k \<in> set (ns_migrated ns))"
  by (simp add: is_marked_def slot_of_def find_namespace_def)

lemma peek_step:
  assumes "cache_inv_but E lru_wf X c" and "slot_step E sid ns ns' c c'" and "cache_inv_but E lru_wf X' c'"
  shows "peek E c' k = (if key_namespace k = ns_name ns then map_of (ns_items E ns') (key_name k) else peek E c k)"
  by (simp add: peek_slot [OF assms(1)] peek_slot [OF assms(3)] slot_of_step [OF inv_index [OF assms(1)] assms(2)])

lemma peek_drop:
  assumes "cache_inv_but E lru_wf X c" and "slot_drop E sid ns c c'"
  shows "peek E c' k = (if key_namespace k = ns_name ns then None else peek E c k)"
  by (simp add: peek_slot [OF assms(1)] peek_slot [OF drop_slot_inv [OF assms]]
      slot_of_drop [OF inv_index [OF assms(1)] assms(2)])

lemma peek_in:
  assumes "cache_inv_but E lru_wf X c" and "map_of (c_slots c) sid = Some ns"
  shows "peek E c (new_key (ns_name ns) n) = map_of (ns_items E ns) n"
  using slot_of_Some [OF inv_index [OF assms(1)], of "ns_name ns" ns] assms(2)
  by (auto simp: peek_slot [OF assms(1)] new_key_def)

text \<open>A new namespace: empty, charged for its name, and with an item in the heap.\<close>

lemma ns_inv_new: "ns_inv E lru_wf clock (new_namespace E name budget)"
  by (simp add: ns_inv_def new_namespace_def ns_items_def ns_stamps_def digests_ok_def ns_true_bytes_def)

lemma ns_items_new [simp]: "ns_items E (new_namespace E name budget) = []"
  by (simp add: ns_items_def new_namespace_def)

text \<open>The last item of a namespace, its LRU entry, carries the least stamp.\<close>

lemma ns_lru_least:
  assumes "ns_inv E lru_wf clock ns" and "ns_items E ns \<noteq> []" and "s \<in> ns_stamps E ns"
  shows "e_last_used (snd (last (ns_items E ns))) \<le> s"
proof -
  obtain p l where l: "ns_items E ns = l @ [p]" using assms(2) by (metis append_butlast_last_id)
  have "sorted_wrt (\<lambda>(_, e) (_, e'). e_last_used e' < e_last_used e) (l @ [p])"
    using assms(1) l by (simp add: ns_inv_def)
  then have "\<forall>(_, e) \<in> set l. e_last_used (snd p) < e_last_used e"
    by (cases p) (auto simp: sorted_wrt_append)
  then show ?thesis using assms(3) l by (cases p) (auto simp: ns_stamps_def less_imp_le)
qed

lemma ns_lru_stamp:
  "ns_items E ns \<noteq> [] \<Longrightarrow> e_last_used (snd (last (ns_items E ns))) \<in> ns_stamps E ns"
  by (auto simp: ns_stamps_def case_prod_unfold intro!: image_eqI [OF _ last_in_set])

lemma inv_but_mono: "cache_inv_but E lru_wf X c \<Longrightarrow> X \<subseteq> Y \<Longrightarrow> cache_inv_but E lru_wf Y c"
  by (auto simp: cache_inv_but_def slot_inv_def)

text \<open>The heap may be replaced by any other that covers every slot.\<close>

lemma inv_tails_cover: "cache_inv_but E lru_wf X c \<Longrightarrow> tails_cover E (c_slots c) (c_tails c) (c_clock c)"
  by (simp add: cache_inv_but_def slot_inv_def tails_cover_def)

lemma inv_with_tails:
  assumes "cache_inv_but E lru_wf X c" and "tails_cover E (c_slots c) tails (c_clock c)"
  shows "cache_inv_but E lru_wf X (c\<lparr>c_tails := tails\<rparr>)"
  using assms
  by (auto simp: cache_inv_but_def slot_inv_def tails_cover_def index_inv_def stamps_unique_def
      totals_inv_def tombstones_inv_def)

lemma rebuild_tails_inv:
  assumes inv: "cache_inv_but E lru_wf X c"
  shows "cache_inv_but E lru_wf X (rebuild_tails E c)"
proof -
  define tail where "tail = (\<lambda>(sid :: nat, ns :: 'l namespace).
    (case lru_peek_lru E (ns_entries ns) of None \<Rightarrow> 0 | Some (_, e) \<Rightarrow> e_last_used e, sid))"
  have eq: "tail (sid, ns) = (if ns_items E ns = [] then 0 else e_last_used (snd (last (ns_items E ns))), sid)"
    if "map_of (c_slots c) sid = Some ns" for sid ns
    using ns_inv_wf [OF inv_ns [OF inv that]] by (auto simp: tail_def ns_items_def split: prod.splits)
  have dist: "distinct (map fst (c_slots c))" using inv_index [OF inv] by (simp add: index_inv_def)
  have "tails_cover E (c_slots c) (map tail (c_slots c)) (c_clock c)"
    unfolding tails_cover_def
  proof (intro conjI allI impI ballI)
    fix sid ns assume s: "map_of (c_slots c) sid = Some ns"
    have "tail (sid, ns) \<in> set (map tail (c_slots c))"
      using map_of_SomeD [OF s] by (metis list.set_map imageI)
    then show "\<exists>k. (k, sid) \<in> set (map tail (c_slots c)) \<and> (\<forall>s \<in> ns_stamps E ns. k \<le> s)"
      using ns_lru_least [OF inv_ns [OF inv s]] by (auto simp: eq [OF s] ns_stamps_def split: if_splits)
  next
    fix t assume "t \<in> set (map tail (c_slots c))"
    then obtain sid ns where s: "(sid, ns) \<in> set (c_slots c)" "t = tail (sid, ns)" by auto
    then have slot: "map_of (c_slots c) sid = Some ns" using dist by simp
    show "case t of (k, sid) \<Rightarrow> k \<le> c_clock c"
      using inv_stamp_le [OF inv slot ns_lru_stamp] by (auto simp: s(2) eq [OF slot])
  qed
  then show ?thesis using inv_with_tails [OF inv] by (simp add: rebuild_tails_def tail_def)
qed

lemma create_slot_inv:
  assumes inv: "cache_inv_but E lru_wf X c" and new: "map_of (c_namespaces c) name = None"
    and sid: "sid = c_next_slot_id c"
    and c': "c' = c\<lparr>c_next_slot_id := sid + 1,
                    c_used_bytes := c_used_bytes c + name_charge name,
                    c_namespaces := AList.update name sid (c_namespaces c),
                    c_slots := AList.update sid (new_namespace E name (map_of (c_budgets c) name)) (c_slots c),
                    c_tails := (0, sid) # c_tails c\<rparr>"
  shows "cache_inv_but E lru_wf (insert sid X) c'"
proof -
  let ?ns = "new_namespace E name (map_of (c_budgets c) name)"
  have fresh: "map_of (c_slots c) sid = None"
  proof (rule ccontr)
    assume "map_of (c_slots c) sid \<noteq> None"
    then show False using inv_slot [OF inv, of sid] by (auto simp: slot_inv_def sid)
  qed
  have names: "ns_name x \<noteq> name" if "map_of (c_slots c) i = Some x" for i x
    using index_slot [OF inv_index [OF inv] that] new by auto
  have nn: "ns_name ?ns = name" "ns_budget ?ns = map_of (c_budgets c) name" "ns_used_bytes ?ns = 0"
    "ns_migrated ?ns = []"
    by (simp_all add: new_namespace_def)
  have stamps: "ns_stamps E ?ns = {}" by (simp add: ns_stamps_def)
  have "index_inv c'"
  proof -
    have "map_of (c_namespaces c') n = Some i \<longleftrightarrow> (\<exists>x. map_of (c_slots c') i = Some x \<and> ns_name x = n)" for n i
      using inv_index [OF inv] names fresh nn(1) unfolding index_inv_def
      by (cases "i = sid"; cases "n = name") (auto simp: c')
    then show ?thesis using inv_index [OF inv] by (simp add: index_inv_def c')
  qed
  moreover have "slot_inv E lru_wf (insert sid X) c' i x" if "map_of (c_slots c') i = Some x" for i x
  proof (cases "i = sid")
    case True
    then show ?thesis
      using that ns_inv_new stamps nn by (auto simp: c' slot_inv_def)
  next
    case False
    then have "slot_inv E lru_wf X c i x" using that inv_slot [OF inv] by (simp add: c')
    then show ?thesis by (auto simp: c' slot_inv_def sid)
  qed
  moreover have "stamps_unique E c'"
    using inv stamps by (auto simp: cache_inv_but_def stamps_unique_def c')
  moreover have "\<forall>(k, i) \<in> set (c_tails c'). k \<le> c_clock c'"
    using inv by (simp add: cache_inv_but_def c')
  moreover have "totals_inv E c'"
    using inv fresh nn
    by (simp add: cache_inv_but_def totals_inv_def c' slots_bytes_def slots_entries_def slots_marked_def
        sum_update_new)
  moreover have "tombstones_inv c'"
    using inv by (simp add: cache_inv_but_def tombstones_inv_def c')
  ultimately show ?thesis by (simp add: cache_inv_but_def)
qed

text \<open>\<open>ensure_namespace\<close> gives a slot of that name and changes no content.\<close>

lemma ensure_namespace_inv:
  assumes inv: "cache_inv E lru_wf c" and ens: "ensure_namespace E name c = (sid, c')"
  shows "cache_inv_but E lru_wf {sid} c'"
    and "\<exists>ns. map_of (c_slots c') sid = Some ns \<and> ns_name ns = name"
    and "slot_of c' n = (if n = name \<and> slot_of c name = None
           then Some (new_namespace E name (map_of (c_budgets c) name)) else slot_of c n)"
    and "same_frame c c'" and "c_clock c' = c_clock c" and "c_evictions c' = c_evictions c"
    and "c_entry_count c' = c_entry_count c"
proof -
  note inv' = inv [unfolded cache_inv_def]
  have all: "cache_inv_but E lru_wf {sid} c' \<and> (\<exists>ns. map_of (c_slots c') sid = Some ns \<and> ns_name ns = name)
    \<and> slot_of c' n = (if n = name \<and> slot_of c name = None
           then Some (new_namespace E name (map_of (c_budgets c) name)) else slot_of c n)
    \<and> same_frame c c' \<and> c_clock c' = c_clock c \<and> c_evictions c' = c_evictions c
    \<and> c_entry_count c' = c_entry_count c"
  proof (cases "map_of (c_namespaces c) name")
    case (Some i)
    then have "i = sid" "c' = c" using ens by (simp_all add: ensure_namespace_def find_namespace_def)
    then show ?thesis
      using index_find [OF inv_index [OF inv'] Some] Some inv_but_mono [OF inv'] by (auto simp: slot_of_def)
  next
    case None
    define c1 where "c1 = c\<lparr>c_next_slot_id := sid + 1,
                    c_used_bytes := c_used_bytes c + name_charge name,
                    c_namespaces := AList.update name sid (c_namespaces c),
                    c_slots := AList.update sid (new_namespace E name (map_of (c_budgets c) name)) (c_slots c),
                    c_tails := (0, sid) # c_tails c\<rparr>"
    have sid: "sid = c_next_slot_id c"
      using ens None by (simp add: ensure_namespace_def find_namespace_def Let_def)
    have "c' = c1 \<or> c' = rebuild_tails E c1"
      using ens None unfolding c1_def sid
      by (auto simp: ensure_namespace_def find_namespace_def Let_def rebuild_tails_def split: if_splits)
    moreover note inv1 = create_slot_inv [OF inv' None sid c1_def]
    ultimately have inv2: "cache_inv_but E lru_wf {sid} c'" using rebuild_tails_inv by auto
    have f: "c_slots c' = c_slots c1" "c_namespaces c' = c_namespaces c1" "same_frame c c'"
      "c_clock c' = c_clock c" "c_evictions c' = c_evictions c" "c_entry_count c' = c_entry_count c"
      using \<open>c' = c1 \<or> c' = rebuild_tails E c1\<close>
      by (auto simp: rebuild_tails_def c1_def same_frame_def)
    have fresh: "map_of (c_namespaces c) m \<noteq> Some sid" for m
      using index_find [OF inv_index [OF inv'], of m sid] inv_slot [OF inv', of sid]
      by (auto simp: slot_inv_def sid)
    have "slot_of c' n = (if n = name \<and> slot_of c name = None
           then Some (new_namespace E name (map_of (c_budgets c) name)) else slot_of c n)"
      using None fresh [of n] by (cases "map_of (c_namespaces c) n") (auto simp: slot_of_def f c1_def)
    moreover have "\<exists>ns. map_of (c_slots c') sid = Some ns \<and> ns_name ns = name"
      by (simp add: f c1_def new_namespace_def)
    ultimately show ?thesis using inv2 f by simp
  qed
  show "cache_inv_but E lru_wf {sid} c'"
    "\<exists>ns. map_of (c_slots c') sid = Some ns \<and> ns_name ns = name"
    "slot_of c' n = (if n = name \<and> slot_of c name = None
           then Some (new_namespace E name (map_of (c_budgets c) name)) else slot_of c n)"
    "same_frame c c'" "c_clock c' = c_clock c" "c_evictions c' = c_evictions c"
    "c_entry_count c' = c_entry_count c"
    using all by blast+
qed

end

end
