(* ===== verification/Cache_Evict.thy ===== *)
theory Cache_Evict
  imports Cache_Invariant
begin

text \<open>
  Removing entries: on request (\<open>remove_entry_in\<close>) and under memory pressure (\<open>evict_one_from\<close>,
  \<open>evict_one\<close> and the two loops of \<open>insert_into\<close>). Each removal returns, keeps the invariant and takes
  exactly one key out of the store; the lazily kept heap of \<open>evict_one\<close> yields the globally least
  recently used entry.
\<close>

section \<open>Taking one entry out\<close>

text \<open>A slot that is still there holds the namespace of the same name.\<close>

definition ids_kept :: "'l cache \<Rightarrow> 'l cache \<Rightarrow> bool" where
  "ids_kept c c' \<longleftrightarrow>
     (\<forall>sid ns'. map_of (c_slots c') sid = Some ns' \<longrightarrow>
        (\<exists>ns. map_of (c_slots c) sid = Some ns \<and> ns_name ns = ns_name ns'))"

lemma ids_kept_refl [simp]: "ids_kept c c"
  by (simp add: ids_kept_def)

lemma ids_kept_trans: "ids_kept a b \<Longrightarrow> ids_kept b c \<Longrightarrow> ids_kept a c"
  by (fastforce simp: ids_kept_def)

lemma ids_kept_step: "slot_step E sid ns ns' c c' \<Longrightarrow> ids_kept c c'"
  by (auto simp: ids_kept_def slot_step_def)

lemma ids_kept_drop: "slot_drop E sid ns c c' \<Longrightarrow> ids_kept c c'"
  by (auto simp: ids_kept_def slot_drop_def split: if_splits)

text \<open>Key \<open>k\<close>, and nothing else, is gone.\<close>

definition entry_gone :: "'l env \<Rightarrow> key \<Rightarrow> 'l cache \<Rightarrow> 'l cache \<Rightarrow> bool" where
  "entry_gone E k c c' \<longleftrightarrow>
     peek E c' = (peek E c)(k := None)
     \<and> is_marked c' = (is_marked c)(k := False)
     \<and> c_entry_count c' = c_entry_count c - 1
     \<and> c_clock c' = c_clock c
     \<and> same_frame c c'
     \<and> ids_kept c c'"

lemma key_eq_iff: "k = new_key n m \<longleftrightarrow> key_namespace k = n \<and> key_name k = m"
  by (cases k) (auto simp: new_key_def)

lemma new_key_sel [simp]: "key_namespace (new_key n m) = n" "key_name (new_key n m) = m"
  by (simp_all add: new_key_def)

lemma new_key_collapse [simp]: "new_key (key_namespace k) (key_name k) = k"
  by (simp add: new_key_def)

lemma bind_Some_map: "Option.bind a (\<lambda>x. Some (f x)) = map_option f a"
  by (cases a) auto

context lru_cache
begin

lemma take_out:
  assumes inv: "cache_inv_but E lru_wf X c" and slot: "map_of (c_slots c) sid = Some ns"
    and old: "map_of (ns_items E ns) n = Some old"
    and step: "slot_step E sid ns ns' c c1" and ns': "ns_inv E lru_wf (c_clock c) ns'"
    and items: "ns_items E ns' = AList.delete n (ns_items E ns)"
    and marks: "ns_migrated ns' = removeAll n (ns_migrated ns)"
    and c1: "c_clock c1 = c_clock c" "same_frame c c1"
  shows "\<exists>c'. (if lru_is_empty E (ns_entries ns') then drop_namespace sid c1 else Some c1) = Some c'
     \<and> cache_inv_but E lru_wf (X - {sid}) c' \<and> entry_gone E (new_key (ns_name ns) n) c c'
     \<and> c_evictions c' = c_evictions c1
     \<and> map_of (c_slots c') sid = (if ns_items E ns' = [] then None else Some ns')"
proof -
  have slot1: "map_of (c_slots c1) sid = Some ns'" "ns_name ns' = ns_name ns"
    using step by (auto simp: slot_step_def)
  have empty: "lru_is_empty E (ns_entries ns') \<longleftrightarrow> ns_items E ns' = []"
    using ns_inv_wf [OF ns'] by (simp add: ns_items_def)
  have inv1: "cache_inv_but E lru_wf (insert sid X) c1"
    using put_slot_inv [OF inv step, of "insert sid X"] ns' c1(1) by auto
  have peek1: "peek E c1 = (peek E c)(new_key (ns_name ns) n := None)"
    using peek_step [OF inv step inv1] peek_in [OF inv slot] items
    by (auto simp: fun_eq_iff key_eq_iff) (metis new_key_collapse)
  have slot_c: "slot_of c (ns_name ns) = Some ns"
    using slot_of_Some [OF inv_index [OF inv]] slot by blast
  have marked1: "is_marked c1 = (is_marked c)(new_key (ns_name ns) n := False)"
    by (auto simp: fun_eq_iff is_marked_slot slot_of_step [OF inv_index [OF inv] step] marks slot_c
        key_eq_iff split: option.splits)
  have count1: "c_entry_count c1 = c_entry_count c - 1"
    using step old ns_inv_distinct [OF inv_ns [OF inv slot]]
    by (simp add: slot_step_def items length_delete_distinct)
  show ?thesis
  proof (cases "ns_items E ns' = []")
    case False
    then have "cache_inv_but E lru_wf (X - {sid}) c1"
      using put_slot_inv [OF inv step, of "X - {sid}"] ns' c1(1) by auto
    then show ?thesis
      using False empty peek1 marked1 count1 c1 slot1(1) ids_kept_step [OF step] by (simp add: entry_gone_def)
  next
    case True
    obtain c' where c': "drop_namespace sid c1 = Some c'" "slot_drop E sid ns' c1 c'" "same_frame c1 c'"
        "c_evictions c' = c_evictions c1"
      using drop_namespace_eq [OF inv1 slot1(1) True] by blast
    have m: "ns_migrated ns' = []" using ns' True by (simp add: ns_inv_def)
    have none: "\<forall>m. map_of (ns_items E ns') m = None" using True by simp
    have "peek E c' = peek E c1"
      using peek_drop [OF inv1 c'(2)] peek_in [OF inv1 slot1(1)] none
      by (auto simp: fun_eq_iff) (metis new_key_collapse)
    moreover have "is_marked c' = is_marked c1"
      using slot_of_Some [OF inv_index [OF inv1], of "ns_name ns'" ns'] slot1(1) m
      by (auto simp: fun_eq_iff is_marked_slot slot_of_drop [OF inv_index [OF inv1] c'(2)])
    moreover have "cache_inv_but E lru_wf (X - {sid}) c'"
      using inv_but_mono [OF drop_slot_inv [OF inv1 c'(2)], of "X - {sid}"] by auto
    moreover have "c_entry_count c' = c_entry_count c1" "c_clock c' = c_clock c1"
      "map_of (c_slots c') sid = None"
      using c'(2) True by (simp_all add: slot_drop_def)
    ultimately show ?thesis
      using True empty peek1 marked1 count1 c1 c'(1, 4) same_frame_trans [OF c1(2) c'(3)]
        ids_kept_trans [OF ids_kept_step [OF step] ids_kept_drop [OF c'(2)]]
      by (simp add: entry_gone_def)
  qed
qed

text \<open>The common end of \<open>remove_entry_in\<close> and \<open>evict_one_from\<close>, once entry \<open>old\<close> of \<open>n\<close> is popped.\<close>

lemma popped:
  assumes inv: "cache_inv_but E lru_wf X c" and slot: "map_of (c_slots c) sid = Some ns"
    and old: "map_of (ns_items E ns) n = Some old"
    and pop: "lru_wf l'" "lru_iter E l' = AList.delete n (ns_items E ns)"
    and ns': "ns' = strip_digest n (strip_mark n (ns\<lparr>ns_entries := l',
      ns_used_bytes := ns_used_bytes ns - entry_bytes n (e_value old)\<rparr>))"
    and c1: "c1 = put_slot sid ns' (c\<lparr>c_entry_count := c_entry_count c - 1,
      c_used_bytes := c_used_bytes c + (ns_used_bytes ns' - ns_used_bytes ns),
      c_marked := c_marked c - (if n \<in> set (ns_migrated ns) then 1 else 0)\<rparr>)"
  shows "\<exists>c'. (if lru_is_empty E (ns_entries ns') then drop_namespace sid c1 else Some c1) = Some c'
     \<and> cache_inv_but E lru_wf (X - {sid}) c' \<and> entry_gone E (new_key (ns_name ns) n) c c'
     \<and> c_evictions c' = c_evictions c
     \<and> map_of (c_slots c') sid = (if ns_items E ns' = [] then None else Some ns')"
proof -
  have nsi: "ns_inv E lru_wf (c_clock c) ns" by (rule inv_ns [OF inv slot])
  have items: "ns_items E ns' = AList.delete n (ns_items E ns)"
    by (simp add: ns' ns_items_def pop)
  have marks: "ns_migrated ns' = removeAll n (ns_migrated ns)" by (simp add: ns')
  have inv': "ns_inv E lru_wf (c_clock c) ns'"
    by (rule ns_inv_remove [OF nsi _ items old marks]) (simp_all add: ns' pop)
  have "ns_stamps E ns' \<subseteq> ns_stamps E ns" unfolding ns_stamps_def items by auto
  moreover have "distinct (ns_migrated ns)" using nsi by (simp add: ns_inv_def)
  moreover have "ns_name ns' = ns_name ns" "ns_budget ns' = ns_budget ns" by (simp_all add: ns')
  ultimately have step: "slot_step E sid ns ns' c c1"
    using old ns_inv_distinct [OF nsi]
    by (simp add: slot_step_def c1 put_slot_def slot items marks length_delete_distinct
        length_removeAll_distinct le_supI1)
  have "same_frame c c1" "c_clock c1 = c_clock c" "c_evictions c1 = c_evictions c"
    by (simp_all add: c1 put_slot_def same_frame_def)
  then show ?thesis
    using take_out [OF inv slot old step inv' items marks] by simp
qed

lemma popped_bytes:
  "u - b + (ns_used_bytes x - (v - b)) + (ns_used_bytes y - ns_used_bytes x) = u + (ns_used_bytes y - v)"
  by simp

lemma popped_fields:
  "ns_used_bytes (ns\<lparr>ns_entries := l, ns_used_bytes := v\<rparr>) = v"
  "ns_migrated (ns\<lparr>ns_entries := l, ns_used_bytes := v\<rparr>) = ns_migrated ns"
  by simp_all

lemmas popped_eqs = option.case prod.case Let_def release_mark_strip release_digest_strip
  popped_bytes popped_fields

lemma remove_entry_in_present:
  assumes inv: "cache_inv_but E lru_wf X c" and slot: "map_of (c_slots c) sid = Some ns"
    and old: "map_of (ns_items E ns) n = Some old"
  shows "\<exists>c'. remove_entry_in E sid n c = Some (Some old, c')
     \<and> cache_inv_but E lru_wf (X - {sid}) c' \<and> entry_gone E (new_key (ns_name ns) n) c c'
     \<and> c_evictions c' = c_evictions c"
proof -
  have nsi: "ns_inv E lru_wf (c_clock c) ns" by (rule inv_ns [OF inv slot])
  obtain l' where pop: "lru_pop E (ns_entries ns) n = Some (old, l')" "lru_wf l'"
      "lru_iter E l' = AList.delete n (ns_items E ns)"
    using old by (cases rule: pop_cases [OF ns_inv_wf [OF nsi], of n]) (auto simp: ns_items_def)
  show ?thesis
    using popped [OF inv slot old pop(2, 3) refl refl]
    by (elim exE conjE) (simp only: remove_entry_in_def slot pop(1) popped_eqs bind_Some_map option.map, blast)
qed

lemma remove_entry_in_absent:
  assumes inv: "cache_inv_but E lru_wf X c"
    and "\<And>ns. map_of (c_slots c) sid = Some ns \<Longrightarrow> map_of (ns_items E ns) n = None"
  shows "remove_entry_in E sid n c = Some (None, c)"
proof (cases "map_of (c_slots c) sid")
  case (Some ns)
  then show ?thesis
    using assms(2) [OF Some]
    by (cases rule: pop_cases [OF ns_inv_wf [OF inv_ns [OF inv Some]], of n])
       (auto simp: remove_entry_in_def ns_items_def)
qed (simp add: remove_entry_in_def)

text \<open>\<open>remove_entry\<close>: returns the entry, and takes it out.\<close>

lemma remove_entry_spec:
  assumes inv: "cache_inv E lru_wf c"
  shows "\<exists>c'. remove_entry E k c = Some (peek E c k, c') \<and> cache_inv E lru_wf c'
     \<and> c_evictions c' = c_evictions c
     \<and> (if peek E c k = None then c' = c else entry_gone E k c c')"
proof -
  note inv' = inv [unfolded cache_inv_def]
  show ?thesis
  proof (cases "map_of (c_namespaces c) (key_namespace k)")
    case None
    then show ?thesis
      using inv by (simp add: remove_entry_def find_namespace_def peek_def)
  next
    case (Some sid)
    then obtain ns where slot: "map_of (c_slots c) sid = Some ns" "ns_name ns = key_namespace k"
      using index_find [OF inv_index [OF inv']] by blast
    have peek: "peek E c k = map_of (ns_items E ns) (key_name k)"
      using peek_in [OF inv' slot(1), of "key_name k"] slot(2) by simp
    show ?thesis
    proof (cases "map_of (ns_items E ns) (key_name k)")
      case None
      then show ?thesis
        using inv peek Some remove_entry_in_absent [OF inv', of sid "key_name k"] slot(1)
        by (simp add: remove_entry_def find_namespace_def)
    next
      case old: (Some old)
      show ?thesis
        using remove_entry_in_present [OF inv' slot(1) old] slot(2) peek old Some
        by (auto simp: remove_entry_def find_namespace_def cache_inv_def)
    qed
  qed
qed

section \<open>Evicting from one namespace\<close>

lemma inv_evictions: "cache_inv_but E lru_wf X (c\<lparr>c_evictions := n\<rparr>) = cache_inv_but E lru_wf X c"
  by (simp add: cache_inv_but_def slot_inv_def index_inv_def stamps_unique_def totals_inv_def
      tombstones_inv_def)

lemma peek_evictions: "peek E (c\<lparr>c_evictions := n\<rparr>) = peek E c"
  by (simp add: peek_def find_namespace_def fun_eq_iff)

lemma entry_gone_evictions: "entry_gone E k (c\<lparr>c_evictions := n\<rparr>) c' = entry_gone E k c c'"
  by (cases c; cases c') (simp add: entry_gone_def peek_evictions is_marked_def find_namespace_def same_frame_def
      ids_kept_def fun_eq_iff peek_def)

lemma evict_one_from_spec:
  assumes inv: "cache_inv_but E lru_wf X c" and slot: "map_of (c_slots c) sid = Some ns"
    and lru: "ns_items E ns \<noteq> []" "last (ns_items E ns) = (n, old)"
  shows "\<exists>c'. evict_one_from E sid c = Some c'
     \<and> cache_inv_but E lru_wf (X - {sid}) c' \<and> entry_gone E (new_key (ns_name ns) n) c c'
     \<and> c_evictions c' = c_evictions c + 1
     \<and> (butlast (ns_items E ns) \<noteq> [] \<longrightarrow> (\<exists>ns'. map_of (c_slots c') sid = Some ns'
          \<and> ns_name ns' = ns_name ns \<and> ns_items E ns' = butlast (ns_items E ns)))"
proof -
  have nsi: "ns_inv E lru_wf (c_clock c) ns" by (rule inv_ns [OF inv slot])
  obtain l' where pop: "lru_pop_lru E (ns_entries ns) = Some ((n, old), l')" "lru_wf l'"
      "ns_items E ns = lru_iter E l' @ [(n, old)]"
    using lru by (cases rule: pop_lru_cases [OF ns_inv_wf [OF nsi]]) (auto simp: ns_items_def)
  have d: "distinct (map fst (lru_iter E l' @ [(n, old)]))"
    using ns_inv_distinct [OF nsi] pop(3) by simp
  then have old: "map_of (ns_items E ns) n = Some old"
    by (simp add: pop(3) map_of_eq_None_iff [symmetric] map_add_def)
  have del: "lru_iter E l' = AList.delete n (ns_items E ns)"
  proof -
    have "AList.delete n (lru_iter E l') = lru_iter E l'"
      using d by (simp add: map_of_eq_None_iff)
    then show ?thesis by (simp add: pop(3) AList.delete_eq)
  qed
  let ?c = "c\<lparr>c_evictions := c_evictions c + 1\<rparr>"
  have "cache_inv_but E lru_wf X ?c" "map_of (c_slots ?c) sid = Some ns"
    using inv slot by (simp_all add: inv_evictions)
  from popped [OF this old pop(2) del refl refl] obtain c' where c':
    "(if lru_is_empty E (ns_entries (strip_digest n (strip_mark n (ns\<lparr>ns_entries := l',
        ns_used_bytes := ns_used_bytes ns - entry_bytes n (e_value old)\<rparr>))))
      then drop_namespace sid (put_slot sid (strip_digest n (strip_mark n (ns\<lparr>ns_entries := l',
          ns_used_bytes := ns_used_bytes ns - entry_bytes n (e_value old)\<rparr>)))
        (?c\<lparr>c_entry_count := c_entry_count ?c - 1,
           c_used_bytes := c_used_bytes ?c + (ns_used_bytes (strip_digest n (strip_mark n (ns\<lparr>ns_entries := l',
             ns_used_bytes := ns_used_bytes ns - entry_bytes n (e_value old)\<rparr>))) - ns_used_bytes ns),
           c_marked := c_marked ?c - (if n \<in> set (ns_migrated ns) then 1 else 0)\<rparr>))
      else Some (put_slot sid (strip_digest n (strip_mark n (ns\<lparr>ns_entries := l',
          ns_used_bytes := ns_used_bytes ns - entry_bytes n (e_value old)\<rparr>)))
        (?c\<lparr>c_entry_count := c_entry_count ?c - 1,
           c_used_bytes := c_used_bytes ?c + (ns_used_bytes (strip_digest n (strip_mark n (ns\<lparr>ns_entries := l',
             ns_used_bytes := ns_used_bytes ns - entry_bytes n (e_value old)\<rparr>))) - ns_used_bytes ns),
           c_marked := c_marked ?c - (if n \<in> set (ns_migrated ns) then 1 else 0)\<rparr>))) = Some c'"
    and rest: "cache_inv_but E lru_wf (X - {sid}) c'" "entry_gone E (new_key (ns_name ns) n) ?c c'"
      "c_evictions c' = c_evictions ?c"
      "map_of (c_slots c') sid = (if ns_items E (strip_digest n (strip_mark n (ns\<lparr>ns_entries := l',
        ns_used_bytes := ns_used_bytes ns - entry_bytes n (e_value old)\<rparr>))) = [] then None
        else Some (strip_digest n (strip_mark n (ns\<lparr>ns_entries := l',
        ns_used_bytes := ns_used_bytes ns - entry_bytes n (e_value old)\<rparr>))))"
    by blast
  have slot': "map_of (c_slots ?c) sid = Some ns" by (simp add: slot)
  have "evict_one_from E sid c = Some c'"
    using c' by (simp only: evict_one_from_def slot' pop(1) popped_eqs Option.bind.simps(2))
  moreover have "butlast (ns_items E ns) = lru_iter E l'" by (simp add: pop(3))
  ultimately show ?thesis
    using rest by (auto simp: entry_gone_evictions ns_items_def split: if_splits)
qed

section \<open>The global eviction\<close>

text \<open>
  The state of the pop loop: every live namespace has an item in the heap no later than its oldest
  entry, or is empty and has been set aside.
\<close>

lemma evict_pop_spec:
  assumes "\<And>sid ns. map_of slots sid = Some ns \<Longrightarrow> ns_inv E lru_wf clock ns"
    and "\<And>sid ns. map_of slots sid = Some ns \<Longrightarrow>
      (sid \<in> set empties \<and> ns_items E ns = []) \<or> (\<exists>k. (k, sid) \<in> set tails \<and> (\<forall>s \<in> ns_stamps E ns. k \<le> s))"
    and "\<forall>(k, sid) \<in> set tails. k \<le> clock"
    and "map_of slots s0 = Some ns0" and "ns_items E ns0 \<noteq> []"
  shows "\<exists>k victim tails' empties' ns. evict_pop E slots tails empties = Some ((k, victim), tails', empties')
    \<and> map_of slots victim = Some ns \<and> ns_items E ns \<noteq> [] \<and> e_last_used (snd (last (ns_items E ns))) = k
    \<and> (\<forall>sid x s. map_of slots sid = Some x \<longrightarrow> s \<in> ns_stamps E x \<longrightarrow> k \<le> s)
    \<and> tails_cover E slots ((k, victim) # map (\<lambda>sid. (0, sid)) empties' @ tails') clock"
  using assms
proof (induction "stale_count E slots tails" arbitrary: tails empties rule: less_induct)
  case less
  note nsi = less.prems(1) and cover = less.prems(2) and le = less.prems(3)
  have "tails \<noteq> []" using cover [OF less.prems(4)] less.prems(5) by auto
  then obtain k sid tails' where pop: "heap_pop tails = Some ((k, sid), tails')"
    by (metis heap_pop_None option.exhaust surj_pair)
  note p = heap_pop_Some [OF pop]
  have sub: "set tails \<subseteq> insert (k, sid) (set tails')" "set tails' \<subseteq> set tails"
    using p(2) set_remove1_subset [of "(k, sid)" tails] in_set_remove1 [of _ "(k, sid)" tails] by blast+
  have other: "(j \<in> set empties \<and> ns_items E x = []) \<or> (\<exists>l. (l, j) \<in> set tails' \<and> (\<forall>s \<in> ns_stamps E x. l \<le> s))"
    if "map_of slots j = Some x" "j \<noteq> sid" for j x
    using cover [OF that(1)] that(2) sub(1) by blast
  show ?case
  proof (cases "map_of slots sid")
    case None
    then have eq: "evict_pop E slots tails empties = evict_pop E slots tails' empties"
      by (simp add: evict_pop.simps [of E slots tails] pop)
    have cover': "(j \<in> set empties \<and> ns_items E x = []) \<or> (\<exists>l. (l, j) \<in> set tails' \<and> (\<forall>s \<in> ns_stamps E x. l \<le> s))"
      if "map_of slots j = Some x" for j x
      using other [OF that] that None by force
    show ?thesis
      unfolding eq
      by (rule less.hyps [OF stale_count_pop [OF pop] nsi cover' _ less.prems(4, 5)])
         (use le sub(2) in auto)
  next
    case (Some ns)
    note wf = ns_inv_wf [OF nsi [OF Some]]
    have lru: "lru_peek_lru E (ns_entries ns) = (if ns_items E ns = [] then None else Some (last (ns_items E ns)))"
      using wf by (simp add: ns_items_def)
    show ?thesis
    proof (cases "ns_items E ns = []")
      case True
      then have eq: "evict_pop E slots tails empties = evict_pop E slots tails' (empties @ [sid])"
        by (simp add: evict_pop.simps [of E slots tails] pop Some lru)
      have cover': "(j \<in> set (empties @ [sid]) \<and> ns_items E x = [])
          \<or> (\<exists>l. (l, j) \<in> set tails' \<and> (\<forall>s \<in> ns_stamps E x. l \<le> s))"
        if "map_of slots j = Some x" for j x
        using other [OF that] that Some True by (cases "j = sid") auto
      show ?thesis
        unfolding eq
        by (rule less.hyps [OF stale_count_pop [OF pop] nsi cover' _ less.prems(4, 5)])
           (use le sub(2) in auto)
    next
      case False
      obtain n e where last: "last (ns_items E ns) = (n, e)" by fastforce
      have stamp: "e_last_used e \<in> ns_stamps E ns" using ns_lru_stamp [OF False] last by simp
      show ?thesis
      proof (cases "e_last_used e = k")
        case False': False
        then have eq: "evict_pop E slots tails empties = evict_pop E slots ((e_last_used e, sid) # tails') empties"
          by (simp add: evict_pop.simps [of E slots tails] pop Some lru False last)
        have e: "\<forall>s \<in> ns_stamps E ns. e_last_used e \<le> s" "e_last_used e \<le> clock"
          using ns_lru_least [OF nsi [OF Some] False] last nsi [OF Some] stamp by (auto simp: ns_inv_def)
        have cover': "(j \<in> set empties \<and> ns_items E x = [])
            \<or> (\<exists>l. (l, j) \<in> set ((e_last_used e, sid) # tails') \<and> (\<forall>s \<in> ns_stamps E x. l \<le> s))"
          if "map_of slots j = Some x" for j x
          using other [OF that] that Some e(1) by (cases "j = sid") auto
        have "tail_current E slots (e_last_used e, sid)" "\<not> tail_current E slots (k, sid)"
          using Some lru False last False' by (simp_all add: tail_current_def)
        note refresh = stale_count_refresh [OF pop this(2, 1)]
        show ?thesis
          unfolding eq
          by (rule less.hyps [OF refresh nsi cover' _ less.prems(4, 5)]) (use le e(2) sub(2) in auto)
      next
        case True
        then have eq: "evict_pop E slots tails empties = Some ((k, sid), tails', empties)"
          by (simp add: evict_pop.simps [of E slots tails] pop Some lru False last)
        have least: "k \<le> s" if j: "map_of slots j = Some x" and s: "s \<in> ns_stamps E x" for j x s
        proof -
          have "ns_items E x \<noteq> []" using s by (auto simp: ns_stamps_def)
          then obtain l where "(l, j) \<in> set tails" "l \<le> s" using cover [OF j] s by blast
          then show ?thesis using p(3) [of "(l, j)"] by (auto simp: less_eq_prod_def)
        qed
        have "tails_cover E slots ((k, sid) # map (\<lambda>sid. (0, sid)) empties @ tails') clock"
          unfolding tails_cover_def
        proof (intro conjI allI impI)
          fix j x assume j: "map_of slots j = Some x"
          show "\<exists>l. (l, j) \<in> set ((k, sid) # map (\<lambda>sid. (0, sid)) empties @ tails') \<and> (\<forall>s \<in> ns_stamps E x. l \<le> s)"
            using cover [OF j] sub(1) by auto
        qed (use le sub(2) p(1) in auto)
        then show ?thesis unfolding eq using Some False last True least by auto
      qed
    qed
  qed
qed

lemma evict_one_from_tails:
  "evict_one_from E sid (c\<lparr>c_tails := t\<rparr>) = map_option (\<lambda>c. c\<lparr>c_tails := t\<rparr>) (evict_one_from E sid c)"
  by (auto simp: evict_one_from_def drop_namespace_def put_slot_def Let_def release_mark_strip release_digest_strip
      split: Option.bind_splits option.splits prod.splits)

lemma peek_tails [simp]: "peek E (c\<lparr>c_tails := t\<rparr>) = peek E c"
  by (simp add: peek_def find_namespace_def fun_eq_iff)

lemma is_marked_tails [simp]: "is_marked (c\<lparr>c_tails := t\<rparr>) = is_marked c"
  by (simp add: is_marked_def find_namespace_def fun_eq_iff)

lemma same_frame_tails [simp]:
  "same_frame (c\<lparr>c_tails := t\<rparr>) c' = same_frame c c'" "same_frame c (c'\<lparr>c_tails := t\<rparr>) = same_frame c c'"
  by (cases c; cases c'; simp add: same_frame_def)+

lemma ids_kept_tails [simp]:
  "ids_kept (c\<lparr>c_tails := t\<rparr>) c' = ids_kept c c'" "ids_kept c (c'\<lparr>c_tails := t\<rparr>) = ids_kept c c'"
  by (simp_all add: ids_kept_def)

lemma entry_gone_tails [simp]:
  "entry_gone E k (c\<lparr>c_tails := t\<rparr>) c' = entry_gone E k c c'"
  "entry_gone E k c (c'\<lparr>c_tails := t\<rparr>) = entry_gone E k c c'"
  by (simp_all add: entry_gone_def)

lemma peek_slotE:
  assumes inv: "cache_inv_but E lru_wf X c" and "peek E c k = Some e"
  obtains sid ns where "map_of (c_slots c) sid = Some ns" "ns_name ns = key_namespace k"
    "map_of (ns_items E ns) (key_name k) = Some e" "e_last_used e \<in> ns_stamps E ns"
proof -
  obtain ns where ns: "slot_of c (key_namespace k) = Some ns" "map_of (ns_items E ns) (key_name k) = Some e"
    using assms(2) by (auto simp: peek_slot [OF inv] split: option.splits)
  then obtain sid where "map_of (c_slots c) sid = Some ns" "ns_name ns = key_namespace k"
    using slot_of_Some [OF inv_index [OF inv]] by blast
  moreover have "e_last_used e \<in> ns_stamps E ns"
    using map_of_SomeD [OF ns(2)] by (force simp: ns_stamps_def)
  ultimately show thesis using that ns(2) by blast
qed

text \<open>No two entries of the store carry the same stamp.\<close>

lemma sorted_stamps_inj:
  "sorted_wrt (\<lambda>(_, e) (_, e'). e_last_used e' < e_last_used e) l \<Longrightarrow> (n, e) \<in> set l \<Longrightarrow> (n', e') \<in> set l \<Longrightarrow>
     e_last_used e = e_last_used e' \<Longrightarrow> n = n'"
  by (induction l) auto

lemma peek_stamp_inj:
  assumes inv: "cache_inv_but E lru_wf X c" and "peek E c k = Some e" and "peek E c k' = Some e'"
    and "e_last_used e = e_last_used e'"
  shows "k = k'"
proof -
  obtain i a where a: "map_of (c_slots c) i = Some a" "ns_name a = key_namespace k"
      "map_of (ns_items E a) (key_name k) = Some e" "e_last_used e \<in> ns_stamps E a"
    using peek_slotE [OF inv assms(2)] .
  obtain j b where b: "map_of (c_slots c) j = Some b" "ns_name b = key_namespace k'"
      "map_of (ns_items E b) (key_name k') = Some e'" "e_last_used e' \<in> ns_stamps E b"
    using peek_slotE [OF inv assms(3)] .
  have "i = j"
    using inv a b assms(4) unfolding cache_inv_but_def stamps_unique_def by (metis disjoint_iff)
  then have "a = b" using a b by simp
  then have "key_name k = key_name k'"
    using inv_ns [OF inv a(1)] map_of_SomeD [OF a(3)] map_of_SomeD [OF b(3)] assms(4)
    unfolding ns_inv_def by (metis sorted_stamps_inj)
  then show ?thesis using a(2) b(2) \<open>a = b\<close> by (metis new_key_collapse)
qed

lemma some_slot_nonempty:
  assumes inv: "cache_inv E lru_wf c" and "0 < c_entry_count c"
  obtains sid ns where "map_of (c_slots c) sid = Some ns" "ns_items E ns \<noteq> []"
proof -
  have "c_slots c \<noteq> []"
    using assms by (auto simp: cache_inv_def cache_inv_but_def totals_inv_def slots_entries_def)
  then obtain sid ns sl where "c_slots c = (sid, ns) # sl" by (metis list.exhaust surj_pair)
  then have "map_of (c_slots c) sid = Some ns" by simp
  then show thesis using that inv_slot [OF inv [unfolded cache_inv_def]] by (auto simp: slot_inv_def)
qed

text \<open>\<open>evict_one\<close> removes the globally least recently used entry.\<close>

lemma evict_pop_cache:
  assumes inv: "cache_inv E lru_wf c" and "0 < c_entry_count c"
  shows "\<exists>k victim tails' empties' ns. evict_pop E (c_slots c) (c_tails c) [] = Some ((k, victim), tails', empties')
    \<and> map_of (c_slots c) victim = Some ns \<and> ns_items E ns \<noteq> [] \<and> e_last_used (snd (last (ns_items E ns))) = k
    \<and> (\<forall>sid x s. map_of (c_slots c) sid = Some x \<longrightarrow> s \<in> ns_stamps E x \<longrightarrow> k \<le> s)
    \<and> tails_cover E (c_slots c) ((k, victim) # map (\<lambda>sid. (0, sid)) empties' @ tails') (c_clock c)"
proof -
  note inv' = inv [unfolded cache_inv_def]
  obtain s0 ns0 where s0: "map_of (c_slots c) s0 = Some ns0" "ns_items E ns0 \<noteq> []"
    using some_slot_nonempty [OF assms] .
  have nsi: "ns_inv E lru_wf (c_clock c) x" if "map_of (c_slots c) i = Some x" for i x
    by (rule inv_ns [OF inv' that])
  have covered: "(i \<in> set [] \<and> ns_items E x = []) \<or> (\<exists>k. (k, i) \<in> set (c_tails c) \<and> (\<forall>s \<in> ns_stamps E x. k \<le> s))"
    if "map_of (c_slots c) i = Some x" for i x
    using inv_tails_cover [OF inv'] that by (simp add: tails_cover_def)
  have le: "\<forall>(k, i) \<in> set (c_tails c). k \<le> c_clock c"
    using inv_tails_cover [OF inv'] by (simp add: tails_cover_def)
  show ?thesis
    by (rule evict_pop_spec [OF _ _ le s0]) (use nsi covered in blast)+
qed

lemma evict_one_spec:
  assumes inv: "cache_inv E lru_wf c" and "0 < c_entry_count c"
  shows "\<exists>c' k e. evict_one E c = Some c' \<and> cache_inv E lru_wf c' \<and> peek E c k = Some e
    \<and> (\<forall>k' e'. peek E c k' = Some e' \<longrightarrow> e_last_used e \<le> e_last_used e')
    \<and> entry_gone E k c c' \<and> c_evictions c' = c_evictions c + 1"
proof -
  note inv' = inv [unfolded cache_inv_def]
  from evict_pop_cache [OF assms]
  obtain k victim tails empties ns where pop:
    "evict_pop E (c_slots c) (c_tails c) [] = Some ((k, victim), tails, empties)"
    and v: "map_of (c_slots c) victim = Some ns" "ns_items E ns \<noteq> []" "e_last_used (snd (last (ns_items E ns))) = k"
    and least: "\<forall>sid x s. map_of (c_slots c) sid = Some x \<longrightarrow> s \<in> ns_stamps E x \<longrightarrow> k \<le> s"
    and cover: "tails_cover E (c_slots c) ((k, victim) # map (\<lambda>sid. (0, sid)) empties @ tails) (c_clock c)"
    by blast
  define ts where "ts = map (\<lambda>sid. (0, sid)) empties @ tails"
  obtain n e where last: "last (ns_items E ns) = (n, e)" by fastforce
  have inv1: "cache_inv_but E lru_wf {} (c\<lparr>c_tails := (k, victim) # ts\<rparr>)"
    using inv_with_tails [OF inv'] cover by (simp add: ts_def)
  obtain c1 where c1: "evict_one_from E victim (c\<lparr>c_tails := (k, victim) # ts\<rparr>) = Some c1"
      "cache_inv_but E lru_wf {} c1" "entry_gone E (new_key (ns_name ns) n) c c1"
      "c_evictions c1 = c_evictions c + 1"
    using evict_one_from_spec [OF inv1 _ v(2) last, of victim] v(1) by auto
  then obtain c0 where c0: "evict_one_from E victim c = Some c0" "c1 = c0\<lparr>c_tails := (k, victim) # ts\<rparr>"
    by (auto simp: evict_one_from_tails)
  have from_c: "evict_one_from E victim (c\<lparr>c_tails := ts\<rparr>) = Some (c0\<lparr>c_tails := ts\<rparr>)"
    by (simp add: evict_one_from_tails c0)
  define c' where "c' = (if map_of (c_slots c0) victim \<noteq> None then c1 else c0\<lparr>c_tails := ts\<rparr>)"
  have eq: "evict_one E c = Some c'"
    by (simp add: evict_one_def pop ts_def [symmetric] from_c c'_def c0(2))
  have "cache_inv_but E lru_wf {} c'"
  proof (cases "map_of (c_slots c0) victim")
    case None
    then have "tails_cover E (c_slots c1) ts (c_clock c1)"
      using inv_tails_cover [OF c1(2)] by (auto simp: tails_cover_def c0(2)) (metis option.distinct(1))
    from inv_with_tails [OF c1(2) this] show ?thesis by (simp add: c'_def None c0(2))
  qed (simp add: c'_def c1(2))
  moreover have "peek E c (new_key (ns_name ns) n) = Some e"
  proof -
    have "(n, e) \<in> set (ns_items E ns)" using last v(2) by (metis last_in_set)
    then show ?thesis
      using peek_in [OF inv' v(1)] ns_inv_distinct [OF inv_ns [OF inv' v(1)]] by simp
  qed
  moreover have "\<forall>k' e'. peek E c k' = Some e' \<longrightarrow> e_last_used e \<le> e_last_used e'"
    using least v(3) last by (metis peek_slotE [OF inv'] snd_conv)
  moreover have "entry_gone E (new_key (ns_name ns) n) c c'" "c_evictions c' = c_evictions c + 1"
    using c1(3, 4) by (auto simp: c'_def c0(2))
  ultimately show ?thesis using eq by (auto simp: cache_inv_def)
qed

end

end
