(* ===== verification/Cache_Ops.thy ===== *)
theory Cache_Ops
  imports Cache_Evict
begin

text \<open>
  The operations of the store against the map they implement: \<open>peek E c\<close>, from keys to entries.
  For each operation one lemma states that it returns, keeps the invariant, what it answers and
  what it does to that map and to the migration marks.
\<close>

section \<open>Shrinking\<close>

text \<open>What evictions may do: entries disappear, marks with them, nothing else changes.\<close>

definition shrunk :: "'l env \<Rightarrow> 'l cache \<Rightarrow> 'l cache \<Rightarrow> bool" where
  "shrunk E c c' \<longleftrightarrow>
     (\<forall>k. peek E c' k = None \<or> peek E c' k = peek E c k)
     \<and> (\<forall>k. is_marked c' k \<longleftrightarrow> is_marked c k \<and> peek E c' k \<noteq> None)
     \<and> c_clock c' = c_clock c
     \<and> same_frame c c'
     \<and> ids_kept c c'
     \<and> c_evictions c \<le> c_evictions c'
     \<and> c_entry_count c' = c_entry_count c - (int (c_evictions c') - int (c_evictions c))
     \<and> (c_evictions c' = c_evictions c \<longrightarrow> peek E c' = peek E c)"

text \<open>Everything evicted was less recently used than everything kept.\<close>

definition oldest_first :: "'l env \<Rightarrow> 'l cache \<Rightarrow> 'l cache \<Rightarrow> bool" where
  "oldest_first E c c' \<longleftrightarrow>
     (\<forall>k e k' e'. peek E c k = Some e \<longrightarrow> peek E c' k = None \<longrightarrow> peek E c' k' = Some e' \<longrightarrow>
        e_last_used e < e_last_used e')"

lemma shrunk_trans:
  assumes "shrunk E a b" and "shrunk E b c"
  shows "shrunk E a c"
proof -
  have ev: "c_evictions a \<le> c_evictions b" "c_evictions b \<le> c_evictions c"
    and peeks: "\<And>k. peek E b k = None \<or> peek E b k = peek E a k"
      "\<And>k. peek E c k = None \<or> peek E c k = peek E b k"
    and marks: "\<And>k. is_marked b k \<longleftrightarrow> is_marked a k \<and> peek E b k \<noteq> None"
      "\<And>k. is_marked c k \<longleftrightarrow> is_marked b k \<and> peek E c k \<noteq> None"
    using assms by (simp_all add: shrunk_def)
  have "peek E c k = None \<or> peek E c k = peek E a k" for k
    using peeks [of k] by auto
  moreover have "is_marked c k \<longleftrightarrow> is_marked a k \<and> peek E c k \<noteq> None" for k
    using marks [of k] peeks [of k] by auto
  moreover have "same_frame a c" "ids_kept a c"
    using assms same_frame_trans [of a b c] ids_kept_trans [of a b c] by (simp_all add: shrunk_def)
  ultimately show ?thesis using assms ev by (simp add: shrunk_def)
qed

lemma oldest_first_refl [simp]: "oldest_first E c c"
  by (simp add: oldest_first_def)

context lru_cache
begin

lemma marked_present:
  assumes inv: "cache_inv_but E lru_wf X c" and "is_marked c k"
  shows "peek E c k \<noteq> None"
proof -
  obtain ns where ns: "slot_of c (key_namespace k) = Some ns" "key_name k \<in> set (ns_migrated ns)"
    using assms(2) by (auto simp: is_marked_slot split: option.splits)
  then obtain sid where "map_of (c_slots c) sid = Some ns"
    using slot_of_Some [OF inv_index [OF inv]] by blast
  then have "set (ns_migrated ns) \<subseteq> dom (map_of (ns_items E ns))"
    using inv_ns [OF inv] by (simp add: ns_inv_def)
  then show ?thesis using ns by (auto simp: peek_slot [OF inv])
qed

lemma shrunk_refl: "cache_inv_but E lru_wf X c \<Longrightarrow> shrunk E c c"
  using marked_present by (auto simp: shrunk_def)

lemma entry_gone_shrunk:
  assumes "cache_inv_but E lru_wf X c" and "entry_gone E k c c'" and "c_evictions c' = c_evictions c + 1"
  shows "shrunk E c c'"
  using assms(2, 3) marked_present [OF assms(1)] by (auto simp: shrunk_def entry_gone_def)

lemma evict_to_fit_spec:
  "cache_inv E lru_wf c \<Longrightarrow>
     \<exists>c'. evict_to_fit E c = Some c' \<and> cache_inv E lru_wf c' \<and> shrunk E c c' \<and> oldest_first E c c'
       \<and> (c_used_bytes c' \<le> c_max_memory_bytes c' \<or> c_entry_count c' \<le> 1)
       \<and> (c_used_bytes c \<le> c_max_memory_bytes c \<longrightarrow> c' = c)
       \<and> (1 \<le> c_entry_count c \<longrightarrow> 1 \<le> c_entry_count c')"
proof (induction "nat (c_entry_count c)" arbitrary: c rule: less_induct)
  case less
  note inv = less.prems [unfolded cache_inv_def]
  show ?case
  proof (cases "c_used_bytes c > c_max_memory_bytes c \<and> c_entry_count c > 1")
    case False
    then show ?thesis
      using less.prems shrunk_refl [OF inv] by (subst evict_to_fit.simps) auto
  next
    case True
    obtain c1 k e where c1: "evict_one E c = Some c1" "cache_inv E lru_wf c1" "peek E c k = Some e"
        "\<forall>k' e'. peek E c k' = Some e' \<longrightarrow> e_last_used e \<le> e_last_used e'"
        "entry_gone E k c c1" "c_evictions c1 = c_evictions c + 1"
      using evict_one_spec [OF less.prems] True by auto
    have s1: "shrunk E c c1" by (rule entry_gone_shrunk [OF inv c1(5, 6)])
    have "nat (c_entry_count c1) < nat (c_entry_count c)" and one: "1 \<le> c_entry_count c1"
      using c1(5) True by (auto simp: entry_gone_def)
    from less.hyps [OF this(1) c1(2)] obtain c' where c': "evict_to_fit E c1 = Some c'" "cache_inv E lru_wf c'"
        "shrunk E c1 c'" "oldest_first E c1 c'" "c_used_bytes c' \<le> c_max_memory_bytes c' \<or> c_entry_count c' \<le> 1"
        "1 \<le> c_entry_count c'"
      using one by blast
    have "oldest_first E c c'"
      unfolding oldest_first_def
    proof (intro allI impI)
      fix x ex y ey assume x: "peek E c x = Some ex" "peek E c' x = None" and y: "peek E c' y = Some ey"
      have y1: "peek E c1 y = Some ey" using c'(3) y by (metis shrunk_def option.distinct(1))
      show "e_last_used ex < e_last_used ey"
      proof (cases "x = k")
        case True
        have yk: "y \<noteq> k" "peek E c y = Some ey" using y1 c1(5) by (auto simp: entry_gone_def split: if_splits)
        then show ?thesis
          using True x(1) c1(3, 4) peek_stamp_inj [OF inv x(1) yk(2)] by (metis nat_less_le option.sel)
      next
        case False
        then have "peek E c1 x = Some ex" using x(1) c1(5) by (simp add: entry_gone_def)
        then show ?thesis using c'(4) x(2) y by (auto simp: oldest_first_def)
      qed
    qed
    then show ?thesis
      using True c1(1) c' shrunk_trans [OF s1 c'(3)] by (subst evict_to_fit.simps) auto
  qed
qed

text \<open>The budget loop evicts from its own namespace, and never the most recently used entry.\<close>

lemma enforce_namespace_budget_spec:
  assumes "cache_inv E lru_wf c" and "map_of (c_slots c) sid = Some ns" and "ns_items E ns = (n, e) # rest"
  shows "\<exists>c' ns' rest'. enforce_namespace_budget E sid c = Some c' \<and> cache_inv E lru_wf c' \<and> shrunk E c c'
     \<and> map_of (c_slots c') sid = Some ns' \<and> ns_items E ns' = (n, e) # rest' \<and> ns_name ns' = ns_name ns
     \<and> (\<forall>k. key_namespace k \<noteq> ns_name ns \<longrightarrow> peek E c' k = peek E c k)
     \<and> (case map_of (c_budgets c) (ns_name ns) of
          None \<Rightarrow> c' = c | Some b \<Rightarrow> ns_used_bytes ns' \<le> b \<or> rest' = [])"
  using assms
proof (induction "length rest" arbitrary: c ns rest rule: less_induct)
  case less
  note inv = less.prems(1) [unfolded cache_inv_def] and slot = less.prems(2) and items = less.prems(3)
  have len: "lru_len E (ns_entries ns) = length (ns_items E ns)"
    using ns_inv_wf [OF inv_ns [OF inv slot]] by (simp add: ns_items_def)
  have budget: "ns_budget ns = map_of (c_budgets c) (ns_name ns)"
    using inv_slot [OF inv slot] by (simp add: slot_inv_def)
  show ?case
  proof (cases "\<exists>b. ns_budget ns = Some b \<and> \<not> ns_used_bytes ns \<le> b \<and> rest \<noteq> []")
    case False
    then have "enforce_namespace_budget E sid c = Some c"
      using slot len items by (subst enforce_namespace_budget.simps) (auto split: option.splits)
    moreover have "case map_of (c_budgets c) (ns_name ns) of
          None \<Rightarrow> c = c | Some b \<Rightarrow> ns_used_bytes ns \<le> b \<or> rest = []"
      using False budget by (auto split: option.splits)
    ultimately show ?thesis
      using less.prems shrunk_refl [OF inv] by blast
  next
    case True
    then obtain b where b: "ns_budget ns = Some b" "\<not> ns_used_bytes ns \<le> b" "rest \<noteq> []" by blast
    obtain m old where last: "last (ns_items E ns) = (m, old)" by fastforce
    have "ns_items E ns \<noteq> []" using items by simp
    from evict_one_from_spec [OF inv slot this last] obtain c1 where c1: "evict_one_from E sid c = Some c1"
        "cache_inv E lru_wf c1" "entry_gone E (new_key (ns_name ns) m) c c1" "c_evictions c1 = c_evictions c + 1"
        "butlast (ns_items E ns) \<noteq> [] \<longrightarrow> (\<exists>ns'. map_of (c_slots c1) sid = Some ns'
          \<and> ns_name ns' = ns_name ns \<and> ns_items E ns' = butlast (ns_items E ns))"
      by (auto simp: cache_inv_def)
    have s1: "shrunk E c c1" by (rule entry_gone_shrunk [OF inv c1(3, 4)])
    have step: "enforce_namespace_budget E sid c = enforce_namespace_budget E sid c1"
      using slot b len items c1(1) by (subst enforce_namespace_budget.simps) auto
    obtain ns1 where ns1: "map_of (c_slots c1) sid = Some ns1" "ns_name ns1 = ns_name ns"
        "ns_items E ns1 = (n, e) # butlast rest"
      using c1(5) items b(3) by auto
    have budgets: "c_budgets c1 = c_budgets c"
      using s1 by (cases c; cases c1) (simp add: shrunk_def same_frame_def)
    have "length (butlast rest) < length rest" using b(3) by simp
    from less.hyps [OF this c1(2) ns1(1, 3)] obtain c' ns' rest' where c':
      "enforce_namespace_budget E sid c1 = Some c'" "cache_inv E lru_wf c'" "shrunk E c1 c'"
      "map_of (c_slots c') sid = Some ns'" "ns_items E ns' = (n, e) # rest'" "ns_name ns' = ns_name ns1"
      "\<forall>k. key_namespace k \<noteq> ns_name ns1 \<longrightarrow> peek E c' k = peek E c1 k"
      "case map_of (c_budgets c1) (ns_name ns1) of None \<Rightarrow> c' = c1 | Some b \<Rightarrow> ns_used_bytes ns' \<le> b \<or> rest' = []"
      by blast
    moreover have "\<forall>k. key_namespace k \<noteq> ns_name ns \<longrightarrow> peek E c1 k = peek E c k"
      using c1(3) by (auto simp: entry_gone_def)
    ultimately show ?thesis
      using step shrunk_trans [OF s1 c'(3)] b(1) budget budgets ns1(2) by auto
  qed
qed

end

section \<open>Writing\<close>

text \<open>
  What a write of entry \<open>e\<close> under key \<open>k\<close> does: the key holds the entry and carries no mark; any
  other key is as before or has been evicted; nothing is evicted unless the memory bound or the
  budget of the key's namespace asks for it (\<open>extra\<close> is what the write may be charged beyond its
  entry); and in the end the bound holds, unless a single entry is left.
\<close>

definition written :: "'l env \<Rightarrow> int \<Rightarrow> key \<Rightarrow> entry \<Rightarrow> 'l cache \<Rightarrow> 'l cache \<Rightarrow> bool" where
  "written E extra k e c c' \<longleftrightarrow>
     peek E c' k = Some e \<and> \<not> is_marked c' k
     \<and> (\<forall>k'. k' \<noteq> k \<longrightarrow> peek E c' k' = None \<or> peek E c' k' = peek E c k')
     \<and> (\<forall>k'. k' \<noteq> k \<longrightarrow> (is_marked c' k' \<longleftrightarrow> is_marked c k' \<and> peek E c' k' \<noteq> None))
     \<and> c_clock c' = c_clock c + 1
     \<and> same_frame c c'
     \<and> c_evictions c \<le> c_evictions c'
     \<and> (c_evictions c' = c_evictions c \<longrightarrow> peek E c' = (peek E c)(k \<mapsto> e))
     \<and> (c_used_bytes c' \<le> c_max_memory_bytes c' \<or> c_entry_count c' = 1)
     \<and> (map_of (c_budgets c) (key_namespace k) = None \<longrightarrow>
          (\<forall>k1 e1 k2 e2. k1 \<noteq> k \<longrightarrow> peek E c k1 = Some e1 \<longrightarrow> peek E c' k1 = None \<longrightarrow>
             peek E c' k2 = Some e2 \<longrightarrow> e_last_used e1 < e_last_used e2)
          \<and> (c_used_bytes c + extra + entry_bytes (key_name k) (e_value e) \<le> c_max_memory_bytes c \<longrightarrow>
               c_evictions c' = c_evictions c))"

context lru_cache
begin

lemma frame_budgets: "same_frame c c' \<Longrightarrow> c_budgets c' = c_budgets c \<and> c_max_memory_bytes c' = c_max_memory_bytes c"
  by (cases c; cases c') (simp add: same_frame_def)

lemma slot_survives:
  assumes inv: "cache_inv_but E lru_wf X c" and slot: "map_of (c_slots c) sid = Some ns"
    and inv': "cache_inv_but E lru_wf X' c'" and kept: "ids_kept c c'"
    and present: "peek E c' k = Some e" "key_namespace k = ns_name ns"
  shows "\<exists>ns'. map_of (c_slots c') sid = Some ns' \<and> ns_name ns' = ns_name ns"
proof -
  obtain i ns' where i: "map_of (c_slots c') i = Some ns'" "ns_name ns' = ns_name ns"
    using peek_slotE [OF inv' present(1)] present(2) by metis
  then obtain x where "map_of (c_slots c) i = Some x" "ns_name x = ns_name ns"
    using kept unfolding ids_kept_def by metis
  then have "i = sid" using index_unique [OF inv_index [OF inv] _ slot] by blast
  then show ?thesis using i by blast
qed

lemma peek_stamp_le: "cache_inv_but E lru_wf X c \<Longrightarrow> peek E c k = Some e \<Longrightarrow> e_last_used e \<le> c_clock c"
  by (metis peek_slotE inv_stamp_le)

lemma entry_count_pos:
  assumes "cache_inv E lru_wf c" and "peek E c k = Some e"
  shows "0 < c_entry_count c"
proof -
  obtain sid ns where slot: "map_of (c_slots c) sid = Some ns" "map_of (ns_items E ns) (key_name k) = Some e"
    using peek_slotE [OF assms(1) [unfolded cache_inv_def] assms(2)] .
  have "int (length (ns_items E ns)) \<le> slots_entries E (c_slots c)"
    using sum_ge_member [OF map_of_SomeD [OF slot(1)], of "\<lambda>(_, ns). int (length (ns_items E ns))"]
    by (auto simp: slots_entries_def)
  moreover have "ns_items E ns \<noteq> []" using slot(2) by auto
  ultimately show ?thesis
    using assms(1) by (cases "ns_items E ns") (auto simp: cache_inv_def cache_inv_but_def totals_inv_def)
qed

lemma some_entry:
  assumes "cache_inv E lru_wf c" and "0 < c_entry_count c"
  shows "\<exists>k e. peek E c k = Some e"
proof -
  obtain sid ns where slot: "map_of (c_slots c) sid = Some ns" "ns_items E ns \<noteq> []"
    using some_slot_nonempty [OF assms] .
  then obtain n e l where "ns_items E ns = (n, e) # l" by (metis list.exhaust surj_pair)
  then show ?thesis using peek_in [OF assms(1) [unfolded cache_inv_def] slot(1), of n] by auto
qed

lemma chain_bytes:
  "u + (ns_used_bytes x - v) + (ns_used_bytes y - ns_used_bytes x) = u + (ns_used_bytes y - v)"
  by simp

text \<open>The state of \<open>insert_into\<close> once the entry is stored, before the evictions.\<close>

lemma insert_store:
  assumes inv: "cache_inv_but E lru_wf {sid} c" and slot: "map_of (c_slots c) sid = Some ns"
    and e: "e = \<lparr>e_value = value, e_expires_at = expires_at, e_last_used = c_clock c + 1\<rparr>"
  obtains c1 ns' where
    "insert_into E sid n value expires_at c =
       Option.bind (enforce_namespace_budget E sid c1) (evict_to_fit E)"
    and "slot_step E sid ns ns' c c1" and "ns_inv E lru_wf (c_clock c1) ns'"
    and "ns_items E ns' = (n, e) # AList.delete n (ns_items E ns)"
    and "ns_migrated ns' = removeAll n (ns_migrated ns)"
    and "c_clock c1 = c_clock c + 1" and "same_frame c c1" and "c_evictions c1 = c_evictions c"
    and "c_used_bytes c1 \<le> c_used_bytes c + entry_bytes n value"
proof -
  have nsi: "ns_inv E lru_wf (c_clock c) ns" by (rule inv_ns [OF inv slot])
  note wf = ns_inv_wf [OF nsi] and dist = ns_inv_distinct [OF nsi]
  have dm: "distinct (ns_migrated ns)" using nsi by (simp add: ns_inv_def)
  define es where "es = (case lru_get_mut E (ns_entries ns) n of
      Some (_, wr) \<Rightarrow> wr e | None \<Rightarrow> lru_put E (ns_entries ns) n e)"
  define delta where "delta = (case map_of (ns_items E ns) n of
      None \<Rightarrow> entry_bytes n value | Some old \<Rightarrow> int (length value) - int (length (e_value old)))"
  define more :: int where "more = (case map_of (ns_items E ns) n of None \<Rightarrow> 1 | Some _ \<Rightarrow> 0)"
  define st where "st = strip_digest n (strip_mark n ns)"
  define ns' where "ns' = st\<lparr>ns_entries := es, ns_used_bytes := ns_used_bytes st + delta\<rparr>"
  define c1 where "c1 = put_slot sid ns' (c\<lparr>c_clock := c_clock c + 1,
      c_used_bytes := c_used_bytes c + (ns_used_bytes st - ns_used_bytes ns) + delta,
      c_marked := c_marked c - (if n \<in> set (ns_migrated ns) then 1 else 0),
      c_entry_count := c_entry_count c + more\<rparr>)"
  have es: "lru_wf es" "lru_iter E es = (n, e) # AList.delete n (ns_items E ns)"
    using put_iter [OF wf]
    by (cases rule: get_mut_cases [OF wf, of n]; simp add: es_def ns_items_def)+
  have st: "ns_name st = ns_name ns" "ns_entries st = ns_entries ns" "ns_budget st = ns_budget ns"
    "ns_migrated st = removeAll n (ns_migrated ns)" "ns_digests st = AList.delete n (ns_digests ns)"
    "ns_used_bytes st = ns_used_bytes ns - (if n \<in> set (ns_migrated ns) then mark_charge n else 0)
      - (if map_of (ns_digests ns) n \<noteq> None then digest_charge n else 0)"
    by (simp_all add: st_def)
  have items: "ns_items E ns' = (n, e) # AList.delete n (ns_items E ns)"
    by (simp add: ns'_def ns_items_def es [unfolded ns_items_def])
  have marks: "ns_migrated ns' = removeAll n (ns_migrated ns)" by (simp add: ns'_def st)
  have inv': "ns_inv E lru_wf (c_clock c + 1) ns'"
    by (rule ns_inv_write [OF nsi _ items]; simp add: ns'_def es st e delta_def entry_bytes_def split: option.splits)
  have eq: "insert_into E sid n value expires_at c =
       Option.bind (enforce_namespace_budget E sid c1) (evict_to_fit E)"
    using wf
    by (cases rule: get_mut_cases [OF wf, of n])
       (simp_all add: insert_into_def tick_def slot release_mark_strip release_digest_strip c1_def ns'_def
         es_def delta_def more_def ns_items_def st_def e put_slot_def Let_def chain_bytes
         del: strip_mark_fields(6) strip_digest_fields(6))
  have step: "slot_step E sid ns ns' c c1"
  proof -
    have "ns_stamps E ns' \<subseteq> ns_stamps E ns \<union> {c_clock c<..}"
      unfolding ns_stamps_def items by (auto simp: e)
    moreover have "int (length (ns_items E ns')) = int (length (ns_items E ns)) + more"
      using dist by (auto simp: items more_def length_delete_distinct split: option.splits)
    moreover have "ns_name ns' = ns_name ns" "ns_budget ns' = ns_budget ns"
      "ns_used_bytes ns' = ns_used_bytes st + delta"
      by (simp_all add: ns'_def st)
    ultimately show ?thesis
      using dm by (simp add: slot_step_def c1_def put_slot_def slot marks length_removeAll_distinct)
  qed
  have "delta \<le> entry_bytes n value"
    by (auto simp: delta_def entry_bytes_def ENTRY_OVERHEAD_BYTES_def split: option.splits)
  moreover have "0 \<le> mark_charge n" "0 \<le> digest_charge n"
    by (simp_all add: mark_charge_def digest_charge_def MARK_OVERHEAD_BYTES_def DIGEST_OVERHEAD_BYTES_def)
  ultimately have "c_used_bytes c1 \<le> c_used_bytes c + entry_bytes n value"
    by (simp add: c1_def put_slot_def st)
  then show thesis
    using that [OF eq step _ items marks] inv'
    by (simp add: c1_def put_slot_def same_frame_def)
qed

lemma insert_into_spec:
  assumes inv: "cache_inv_but E lru_wf {sid} c" and slot: "map_of (c_slots c) sid = Some ns"
    and e: "e = \<lparr>e_value = value, e_expires_at = expires_at, e_last_used = c_clock c + 1\<rparr>"
    and k: "k = new_key (ns_name ns) n"
  shows "\<exists>c'. insert_into E sid n value expires_at c = Some c' \<and> cache_inv E lru_wf c' \<and> written E 0 k e c c'
    \<and> (\<exists>ns'. map_of (c_slots c') sid = Some ns' \<and> ns_name ns' = ns_name ns)"
proof -
  obtain c1 ns1 where eq: "insert_into E sid n value expires_at c =
       Option.bind (enforce_namespace_budget E sid c1) (evict_to_fit E)"
    and step: "slot_step E sid ns ns1 c c1" and ns1: "ns_inv E lru_wf (c_clock c1) ns1"
    and items: "ns_items E ns1 = (n, e) # AList.delete n (ns_items E ns)"
    and marks: "ns_migrated ns1 = removeAll n (ns_migrated ns)"
    and c1: "c_clock c1 = c_clock c + 1" "same_frame c c1" "c_evictions c1 = c_evictions c"
    and used: "c_used_bytes c1 \<le> c_used_bytes c + entry_bytes n value"
    using insert_store [OF inv slot e] .
  have inv1: "cache_inv E lru_wf c1"
    unfolding cache_inv_def by (rule put_slot_inv [OF inv step ns1]) (auto simp: items)
  note inv1' = inv1 [unfolded cache_inv_def]
  have slot1: "map_of (c_slots c1) sid = Some ns1" "ns_name ns1 = ns_name ns"
    using step by (auto simp: slot_step_def)
  have slot_c: "slot_of c (ns_name ns) = Some ns"
    using slot_of_Some [OF inv_index [OF inv]] slot by blast
  have peek1: "peek E c1 = (peek E c)(k \<mapsto> e)"
    using peek_step [OF inv step inv1'] peek_in [OF inv slot] items
    by (auto simp: fun_eq_iff key_eq_iff k) (metis new_key_collapse)
  have marked1: "is_marked c1 = (is_marked c)(k := False)"
    by (auto simp: fun_eq_iff is_marked_slot slot_of_step [OF inv_index [OF inv] step] marks slot_c
        key_eq_iff k split: option.splits)
  obtain c2 ns2 rest where c2: "enforce_namespace_budget E sid c1 = Some c2" "cache_inv E lru_wf c2" "shrunk E c1 c2"
      "map_of (c_slots c2) sid = Some ns2" "ns_items E ns2 = (n, e) # rest" "ns_name ns2 = ns_name ns1"
      "case map_of (c_budgets c1) (ns_name ns1) of None \<Rightarrow> c2 = c1 | Some b \<Rightarrow> ns_used_bytes ns2 \<le> b \<or> rest = []"
    using enforce_namespace_budget_spec [OF inv1 slot1(1) items] by blast
  note inv2 = c2(2) [unfolded cache_inv_def]
  obtain c3 where c3: "evict_to_fit E c2 = Some c3" "cache_inv E lru_wf c3" "shrunk E c2 c3" "oldest_first E c2 c3"
      "c_used_bytes c3 \<le> c_max_memory_bytes c3 \<or> c_entry_count c3 \<le> 1"
      "c_used_bytes c2 \<le> c_max_memory_bytes c2 \<longrightarrow> c3 = c2"
      "1 \<le> c_entry_count c2 \<longrightarrow> 1 \<le> c_entry_count c3"
    using evict_to_fit_spec [OF c2(2)] by blast
  note inv3 = c3(2) [unfolded cache_inv_def]
  have peek2: "peek E c2 k = Some e"
    using peek_in [OF inv2 c2(4), of n] c2(5, 6) slot1(2) by (simp add: k)
  have "1 \<le> c_entry_count c2"
    using entry_count_pos [OF c2(2) peek2] by simp
  then have one: "1 \<le> c_entry_count c3" using c3(7) by simp
  have peek3: "peek E c3 k = Some e"
  proof (rule ccontr)
    assume "peek E c3 k \<noteq> Some e"
    then have gone: "peek E c3 k = None" using c3(3) peek2 by (metis shrunk_def)
    obtain j x where x: "peek E c3 j = Some x" using some_entry [OF c3(2)] one by force
    then have "e_last_used e < e_last_used x"
      using c3(4) peek2 gone by (auto simp: oldest_first_def)
    moreover have "e_last_used x \<le> c_clock c3"
      by (rule peek_stamp_le [OF inv3 x])
    ultimately show False using c2(3) c3(3) c1(1) e by (simp add: shrunk_def)
  qed
  have s: "shrunk E c1 c3" by (rule shrunk_trans [OF c2(3) c3(3)])
  have budgets: "c_budgets c1 = c_budgets c" "c_max_memory_bytes c1 = c_max_memory_bytes c"
    using frame_budgets [OF c1(2)] by auto
  have unbudgeted: "c2 = c1" if "map_of (c_budgets c) (key_namespace k) = None"
    using that c2(7) budgets slot1(2) by (simp add: k)
  have "written E 0 k e c c3"
    unfolding written_def
  proof (intro conjI impI allI)
    show "c_used_bytes c3 \<le> c_max_memory_bytes c3 \<or> c_entry_count c3 = 1" using c3(5) one by auto
    show "same_frame c c3" using same_frame_trans [OF c1(2)] s by (auto simp: shrunk_def)
  next
    fix k1 e1 k2 e2
    assume "map_of (c_budgets c) (key_namespace k) = None" "k1 \<noteq> k" "peek E c k1 = Some e1"
      "peek E c3 k1 = None" "peek E c3 k2 = Some e2"
    moreover from this have "peek E c2 k1 = Some e1" using unbudgeted peek1 by simp
    ultimately show "e_last_used e1 < e_last_used e2"
      using c3(4) unfolding oldest_first_def by blast
  next
    assume "map_of (c_budgets c) (key_namespace k) = None"
      "c_used_bytes c + 0 + entry_bytes (key_name k) (e_value e) \<le> c_max_memory_bytes c"
    then show "c_evictions c3 = c_evictions c"
      using unbudgeted c3(6) used budgets c1(3) by (simp add: k e)
  qed (use peek3 peek1 marked1 s c1 in \<open>auto simp: shrunk_def split: if_splits\<close>)
  moreover have "\<exists>ns'. map_of (c_slots c3) sid = Some ns' \<and> ns_name ns' = ns_name ns"
    using slot_survives [OF inv2 c2(4) inv3 _ peek3] c3(3) c2(6) slot1(2) by (auto simp: shrunk_def k)
  ultimately show ?thesis using eq c2(1) c3(1, 2) by auto
qed


text \<open>Bookkeeping fields play no part in the invariant and in the contents.\<close>

lemma inv_counters [simp]:
  "cache_inv_but E lru_wf X (c\<lparr>c_hits := n\<rparr>) = cache_inv_but E lru_wf X c"
  "cache_inv_but E lru_wf X (c\<lparr>c_misses := n\<rparr>) = cache_inv_but E lru_wf X c"
  "cache_inv_but E lru_wf X (c\<lparr>c_sets := n\<rparr>) = cache_inv_but E lru_wf X c"
  "cache_inv_but E lru_wf X (c\<lparr>c_deletes := n\<rparr>) = cache_inv_but E lru_wf X c"
  "cache_inv_but E lru_wf X (c\<lparr>c_expirations := n\<rparr>) = cache_inv_but E lru_wf X c"
  "cache_inv_but E lru_wf X (c\<lparr>c_incrs := n\<rparr>) = cache_inv_but E lru_wf X c"
  "cache_inv_but E lru_wf X (c\<lparr>c_cas_sets := n\<rparr>) = cache_inv_but E lru_wf X c"
  "cache_inv_but E lru_wf X (c\<lparr>c_cas_deletes := n\<rparr>) = cache_inv_but E lru_wf X c"
  "cache_inv_but E lru_wf X (c\<lparr>c_touches := n\<rparr>) = cache_inv_but E lru_wf X c"
  "cache_inv_but E lru_wf X (c\<lparr>c_touch_misses := n\<rparr>) = cache_inv_but E lru_wf X c"
  "cache_inv_but E lru_wf X (c\<lparr>c_pending_removal := q\<rparr>) = cache_inv_but E lru_wf X c"
  "cache_inv_but E lru_wf X (c\<lparr>c_last_handoff_at := h\<rparr>) = cache_inv_but E lru_wf X c"
  "cache_inv_but E lru_wf X (c\<lparr>c_handoff_writes := w\<rparr>) = cache_inv_but E lru_wf X c"
  by (simp_all add: cache_inv_but_def slot_inv_def index_inv_def stamps_unique_def totals_inv_def
      tombstones_inv_def)

lemma inv_counters' [simp]:
  "cache_inv E lru_wf (c\<lparr>c_hits := n\<rparr>) = cache_inv E lru_wf c"
  "cache_inv E lru_wf (c\<lparr>c_misses := n\<rparr>) = cache_inv E lru_wf c"
  "cache_inv E lru_wf (c\<lparr>c_sets := n\<rparr>) = cache_inv E lru_wf c"
  "cache_inv E lru_wf (c\<lparr>c_deletes := n\<rparr>) = cache_inv E lru_wf c"
  "cache_inv E lru_wf (c\<lparr>c_expirations := n\<rparr>) = cache_inv E lru_wf c"
  "cache_inv E lru_wf (c\<lparr>c_incrs := n\<rparr>) = cache_inv E lru_wf c"
  "cache_inv E lru_wf (c\<lparr>c_cas_sets := n\<rparr>) = cache_inv E lru_wf c"
  "cache_inv E lru_wf (c\<lparr>c_cas_deletes := n\<rparr>) = cache_inv E lru_wf c"
  "cache_inv E lru_wf (c\<lparr>c_touches := n\<rparr>) = cache_inv E lru_wf c"
  "cache_inv E lru_wf (c\<lparr>c_touch_misses := n\<rparr>) = cache_inv E lru_wf c"
  "cache_inv E lru_wf (c\<lparr>c_pending_removal := q\<rparr>) = cache_inv E lru_wf c"
  "cache_inv E lru_wf (c\<lparr>c_last_handoff_at := h\<rparr>) = cache_inv E lru_wf c"
  "cache_inv E lru_wf (c\<lparr>c_handoff_writes := w\<rparr>) = cache_inv E lru_wf c"
  by (simp_all add: cache_inv_def)

lemma cache_insert_spec:
  assumes inv: "cache_inv E lru_wf c"
    and e: "e = \<lparr>e_value = value, e_expires_at = expires_at, e_last_used = c_clock c + 1\<rparr>"
  shows "\<exists>c'. cache_insert E k value expires_at c = Some c' \<and> cache_inv E lru_wf c'
    \<and> written E (name_charge (key_namespace k)) k e c c'"
proof -
  obtain sid c1 where ens: "ensure_namespace E (key_namespace k) c = (sid, c1)" by fastforce
  note ens' = ensure_namespace_inv [OF inv ens]
  obtain ns where ns: "map_of (c_slots c1) sid = Some ns" "ns_name ns = key_namespace k"
    using ens'(2) by blast
  have same: "peek E c1 = peek E c" "is_marked c1 = is_marked c"
    using peek_slot [OF inv [unfolded cache_inv_def]] peek_slot [OF ens'(1)] ens'(3)
    by (auto simp: fun_eq_iff is_marked_slot new_namespace_def ns_items_def)
  have used: "c_used_bytes c1 \<le> c_used_bytes c + name_charge (key_namespace k)"
    by (rule ensure_namespace_used [OF ens])
  obtain c' where c': "insert_into E sid (key_name k) value expires_at c1 = Some c'" "cache_inv E lru_wf c'"
      "written E 0 k e c1 c'"
    using insert_into_spec [OF ens'(1) ns(1), of e "value" expires_at k "key_name k"] e ens'(5) ns(2) by auto
  have "written E (name_charge (key_namespace k)) k e c c'"
    using c'(3) same used ens'(4-7) frame_budgets [OF ens'(4)] same_frame_trans [OF ens'(4), of c']
    by (auto simp: written_def)
  then show ?thesis using c' ens by (auto simp: cache_insert_def)
qed

end

end
