(* ===== verification/Cache_Read.thy ===== *)
theory Cache_Read
  imports Cache_Ops
begin

text \<open>
  The operations that read: \<open>get\<close>, \<open>touch\<close> and their batched forms, on every branch. A lookup that
  finds an expired entry removes it and answers as if the key had never been there.
\<close>

section \<open>Resolved namespaces\<close>

text \<open>What no operation on entries changes, whatever it counts.\<close>

definition same_core :: "'l cache \<Rightarrow> 'l cache \<Rightarrow> bool" where
  "same_core c c' \<longleftrightarrow>
     c_budgets c' = c_budgets c \<and> c_max_memory_bytes c' = c_max_memory_bytes c
     \<and> c_pending_removal c' = c_pending_removal c \<and> c_last_handoff_at c' = c_last_handoff_at c
     \<and> c_handoff_tombstones c' = c_handoff_tombstones c \<and> c_tombstone_order c' = c_tombstone_order c
     \<and> c_handoff_writes c' = c_handoff_writes c \<and> c_evictions c' = c_evictions c"

lemma same_core_refl [simp]: "same_core c c"
  by (simp add: same_core_def)

lemma same_core_trans: "same_core a b \<Longrightarrow> same_core b c \<Longrightarrow> same_core a c"
  by (simp add: same_core_def)

lemma same_frame_core: "same_frame c c' \<Longrightarrow> c_evictions c' = c_evictions c \<Longrightarrow> same_core c c'"
  by (cases c; cases c') (simp add: same_frame_def same_core_def)

lemma written_pending: "written E x k e c c' \<Longrightarrow> c_pending_removal c' = c_pending_removal c"
  by (cases c; cases c') (simp add: written_def same_frame_def)

text \<open>A resolved id leads to the namespace of that name, or to nothing if there is none.\<close>

definition resolves :: "'l cache \<Rightarrow> bytes \<Rightarrow> nat option \<Rightarrow> bool" where
  "resolves c n sid \<longleftrightarrow> Option.bind sid (map_of (c_slots c)) = slot_of c n"

lemma resolves_find [simp]: "resolves c n (find_namespace c n)"
  by (simp add: resolves_def find_namespace_def slot_of_def)

lemma update_update [simp]: "AList.update k v (AList.update k w al) = AList.update k v al"
  by (induction al) auto

lemma delete_update [simp]: "AList.delete k (AList.update k v al) = AList.delete k al"
  by (induction al) auto

lemma ids_keptD:
  "ids_kept c c' \<Longrightarrow> map_of (c_slots c') sid = Some ns' \<Longrightarrow>
     \<exists>ns. map_of (c_slots c) sid = Some ns \<and> ns_name ns = ns_name ns'"
  by (simp add: ids_kept_def)

context lru_cache
begin

lemma resolves_kept:
  assumes inv: "cache_inv_but E lru_wf X c" and inv': "cache_inv_but E lru_wf X' c'"
    and kept: "ids_kept c c'" and r: "resolves c n sid"
  shows "resolves c' n sid"
proof (cases "slot_of c' n")
  case (Some ns')
  then obtain i where i: "map_of (c_slots c') i = Some ns'" "ns_name ns' = n"
    using slot_of_Some [OF inv_index [OF inv']] by blast
  then obtain ns where ns: "map_of (c_slots c) i = Some ns" "ns_name ns = n"
    using ids_keptD [OF kept i(1)] by auto
  then have "slot_of c n = Some ns" using slot_of_Some [OF inv_index [OF inv], of n ns] by auto
  then obtain s where s: "sid = Some s" "map_of (c_slots c) s = Some ns"
    using r by (auto simp: resolves_def Option.bind_eq_Some_conv)
  then have "s = i" using index_unique [OF inv_index [OF inv] s(2) ns(1)] by simp
  then show ?thesis using s i(1) Some by (simp add: resolves_def)
next
  case None
  show ?thesis
  proof (cases "Option.bind sid (map_of (c_slots c'))")
    case (Some ns')
    then obtain s where s: "sid = Some s" "map_of (c_slots c') s = Some ns'"
      by (auto simp: Option.bind_eq_Some_conv)
    then obtain ns where "map_of (c_slots c) s = Some ns" "ns_name ns = ns_name ns'"
      using ids_keptD [OF kept s(2)] by auto
    then have "slot_of c n = Some ns" using r s(1) by (simp add: resolves_def)
    then have "ns_name ns' = n"
      using slot_of_Some [OF inv_index [OF inv], of n ns] \<open>ns_name ns = ns_name ns'\<close> by auto
    then have "slot_of c' n = Some ns'"
      using slot_of_Some [OF inv_index [OF inv'], of n ns'] s(2) by auto
    then show ?thesis using None by simp
  qed (simp add: resolves_def None)
qed

text \<open>
  A lookup through a mutable reference promotes the entry before its expiry is seen; removing it
  then is the same as removing it right away.
\<close>

lemma remove_looked_up:
  assumes inv: "cache_inv_but E lru_wf X c" and slot: "map_of (c_slots c) s = Some ns"
    and old: "map_of (ns_items E ns) n = Some old"
    and l: "lru_wf l" "map_of (lru_iter E l) n = Some old"
      "AList.delete n (lru_iter E l) = AList.delete n (ns_items E ns)"
  shows "\<exists>c'. remove_entry_in E s n (put_slot s (ns\<lparr>ns_entries := l\<rparr>) c) = Some (Some old, c')
     \<and> cache_inv_but E lru_wf (X - {s}) c' \<and> entry_gone E (new_key (ns_name ns) n) c c'
     \<and> c_evictions c' = c_evictions c"
proof -
  obtain l' where pop: "lru_pop E l n = Some (old, l')" "lru_wf l'"
      "lru_iter E l' = AList.delete n (ns_items E ns)"
    using l by (cases rule: pop_cases [OF l(1), of n]) auto
  have slot': "map_of (c_slots (put_slot s (ns\<lparr>ns_entries := l\<rparr>) c)) s = Some (ns\<lparr>ns_entries := l\<rparr>)"
    by (simp add: put_slot_def)
  have ns': "ns\<lparr>ns_entries := l\<rparr>\<lparr>ns_entries := l', ns_used_bytes := v\<rparr> = ns\<lparr>ns_entries := l', ns_used_bytes := v\<rparr>" for v
    by simp
  have fields: "ns_entries (ns\<lparr>ns_entries := l\<rparr>) = l" "ns_used_bytes (ns\<lparr>ns_entries := l\<rparr>) = ns_used_bytes ns"
    "ns_migrated (ns\<lparr>ns_entries := l\<rparr>) = ns_migrated ns"
    by simp_all
  have c_fields: "c_used_bytes (put_slot s x c) = c_used_bytes c" "c_marked (put_slot s x c) = c_marked c"
    "c_entry_count (put_slot s x c) = c_entry_count c"
    "put_slot s y (put_slot s x c\<lparr>c_entry_count := a, c_used_bytes := b, c_marked := d\<rparr>)
      = put_slot s y (c\<lparr>c_entry_count := a, c_used_bytes := b, c_marked := d\<rparr>)" for x y a b d
    by (simp_all add: put_slot_def)
  show ?thesis
    using popped [OF inv slot old pop(2, 3) refl refl]
    by (elim exE conjE)
       (simp only: remove_entry_in_def slot' fields pop(1) popped_eqs ns' c_fields bind_Some_map option.map, blast)
qed

text \<open>What a lookup that may promote does to the store.\<close>

lemma promote_step:
  assumes inv: "cache_inv E lru_wf c" and slot: "map_of (c_slots c) s = Some ns"
    and old: "map_of (ns_items E ns) n = Some old"
    and l: "lru_wf l" "lru_iter E l = (n, e) # AList.delete n (ns_items E ns)"
    and e: "e_value e = e_value old" "e_last_used e = c_clock c + 1"
    and c': "c' = put_slot s (ns\<lparr>ns_entries := l\<rparr>) (c\<lparr>c_clock := c_clock c + 1\<rparr>)"
  shows "cache_inv E lru_wf c'" and "peek E c' = (peek E c)(new_key (ns_name ns) n \<mapsto> e)"
    and "is_marked c' = is_marked c" and "ids_kept c c'"
proof -
  note inv' = inv [unfolded cache_inv_def]
  let ?ns = "ns\<lparr>ns_entries := l\<rparr>"
  have items: "ns_items E ?ns = (n, e) # AList.delete n (ns_items E ns)" by (simp add: ns_items_def l)
  have nsi: "ns_inv E lru_wf (c_clock c') ?ns"
    by (rule ns_inv_promote [OF inv_ns [OF inv' slot] _ items old]) (simp_all add: l e c' put_slot_def)
  have "ns_stamps E ?ns \<subseteq> ns_stamps E ns \<union> {c_clock c<..}"
    unfolding ns_stamps_def items by (auto simp: e)
  then have step: "slot_step E s ns ?ns c c'"
    using old ns_inv_distinct [OF inv_ns [OF inv' slot]]
    by (auto simp: slot_step_def slot c' put_slot_def items length_delete_distinct)
  show *: "cache_inv E lru_wf c'"
    unfolding cache_inv_def by (rule put_slot_inv [OF inv' step nsi]) (auto simp: items)
  show "peek E c' = (peek E c)(new_key (ns_name ns) n \<mapsto> e)"
    using peek_step [OF inv' step * [unfolded cache_inv_def]] peek_in [OF inv' slot] items
    by (auto simp: fun_eq_iff key_eq_iff) (metis new_key_collapse)
  have "slot_of c (ns_name ns) = Some ns"
    using slot_of_Some [OF inv_index [OF inv']] slot by blast
  then show "is_marked c' = is_marked c"
    by (auto simp: fun_eq_iff is_marked_slot slot_of_step [OF inv_index [OF inv'] step])
  show "ids_kept c c'" by (rule ids_kept_step [OF step])
qed

end

section \<open>get\<close>

text \<open>The entry of a key as a reader sees it: an expired one is not there.\<close>

definition live_entry :: "'l env \<Rightarrow> instant \<Rightarrow> 'l cache \<Rightarrow> key \<Rightarrow> entry option" where
  "live_entry E now c k =
     (case peek E c k of None \<Rightarrow> None | Some e \<Rightarrow> if is_expired_at e now then None else Some e)"

text \<open>
  A lookup of \<open>k\<close> that leaves \<open>f e\<close> in the place of a live entry \<open>e\<close>: an expired entry goes, with
  its mark, and no other key is affected.
\<close>

definition looked_up :: "'l env \<Rightarrow> instant \<Rightarrow> key \<Rightarrow> (entry \<Rightarrow> entry) \<Rightarrow> 'l cache \<Rightarrow> 'l cache \<Rightarrow> bool" where
  "looked_up E now k f c c' \<longleftrightarrow>
     peek E c' = (peek E c)(k := map_option f (live_entry E now c k))
     \<and> is_marked c' = (is_marked c)(k := is_marked c k \<and> live_entry E now c k \<noteq> None)
     \<and> ids_kept c c' \<and> same_core c c'"

context lru_cache
begin

lemma inv_clock:
  assumes inv: "cache_inv_but E lru_wf X c" and "c_clock c \<le> t"
  shows "cache_inv_but E lru_wf X (c\<lparr>c_clock := t\<rparr>)"
proof -
  have "slot_inv E lru_wf X (c\<lparr>c_clock := t\<rparr>) sid ns" if "map_of (c_slots c) sid = Some ns" for sid ns
    using inv_slot [OF inv that] ns_inv_mono [OF _ assms(2)] by (simp add: slot_inv_def)
  moreover have "\<forall>(k, sid) \<in> set (c_tails c). k \<le> t"
    using inv assms(2) by (auto simp: cache_inv_but_def)
  ultimately show ?thesis
    using inv by (simp add: cache_inv_but_def index_inv_def stamps_unique_def totals_inv_def tombstones_inv_def)
qed

lemma peek_counters [simp]:
  "peek E (c\<lparr>c_hits := i\<rparr>) = peek E c" "peek E (c\<lparr>c_misses := i\<rparr>) = peek E c"
  "peek E (c\<lparr>c_expirations := i\<rparr>) = peek E c" "peek E (c\<lparr>c_clock := i\<rparr>) = peek E c"
  "peek E (c\<lparr>c_touches := i\<rparr>) = peek E c" "peek E (c\<lparr>c_touch_misses := i\<rparr>) = peek E c"
  "peek E (c\<lparr>c_sets := i\<rparr>) = peek E c" "peek E (c\<lparr>c_deletes := i\<rparr>) = peek E c"
  "peek E (c\<lparr>c_incrs := i\<rparr>) = peek E c" "peek E (c\<lparr>c_cas_sets := i\<rparr>) = peek E c"
  "peek E (c\<lparr>c_cas_deletes := i\<rparr>) = peek E c" "peek E (c\<lparr>c_pending_removal := q\<rparr>) = peek E c"
  "peek E (c\<lparr>c_last_handoff_at := h\<rparr>) = peek E c" "peek E (c\<lparr>c_handoff_writes := w\<rparr>) = peek E c"
  "peek E (c\<lparr>c_handoff_tombstones := ts\<rparr>) = peek E c" "peek E (c\<lparr>c_tombstone_order := to\<rparr>) = peek E c"
  "peek E (c\<lparr>c_used_bytes := u\<rparr>) = peek E c"
  by (simp_all add: peek_def find_namespace_def fun_eq_iff)

lemma is_marked_counters [simp]:
  "is_marked (c\<lparr>c_hits := i\<rparr>) = is_marked c" "is_marked (c\<lparr>c_misses := i\<rparr>) = is_marked c"
  "is_marked (c\<lparr>c_expirations := i\<rparr>) = is_marked c" "is_marked (c\<lparr>c_clock := i\<rparr>) = is_marked c"
  "is_marked (c\<lparr>c_touches := i\<rparr>) = is_marked c" "is_marked (c\<lparr>c_touch_misses := i\<rparr>) = is_marked c"
  "is_marked (c\<lparr>c_sets := i\<rparr>) = is_marked c" "is_marked (c\<lparr>c_deletes := i\<rparr>) = is_marked c"
  "is_marked (c\<lparr>c_incrs := i\<rparr>) = is_marked c" "is_marked (c\<lparr>c_cas_sets := i\<rparr>) = is_marked c"
  "is_marked (c\<lparr>c_cas_deletes := i\<rparr>) = is_marked c" "is_marked (c\<lparr>c_pending_removal := q\<rparr>) = is_marked c"
  "is_marked (c\<lparr>c_last_handoff_at := h\<rparr>) = is_marked c" "is_marked (c\<lparr>c_handoff_writes := w\<rparr>) = is_marked c"
  "is_marked (c\<lparr>c_handoff_tombstones := ts\<rparr>) = is_marked c" "is_marked (c\<lparr>c_tombstone_order := to\<rparr>) = is_marked c"
  "is_marked (c\<lparr>c_used_bytes := u\<rparr>) = is_marked c"
  by (simp_all add: is_marked_def find_namespace_def fun_eq_iff)

lemma resolves_slot:
  assumes inv: "cache_inv_but E lru_wf X c" and "resolves c n sid"
  obtains (absent) "Option.bind sid (map_of (c_slots c)) = None" "\<And>m. peek E c (new_key n m) = None"
  | (present) s ns where "sid = Some s" "map_of (c_slots c) s = Some ns" "ns_name ns = n"
      "\<And>m. peek E c (new_key n m) = map_of (ns_items E ns) m"
proof (cases "slot_of c n")
  case None
  then show thesis
    using absent assms(2) peek_slot [OF inv] by (simp add: resolves_def new_key_def)
next
  case (Some ns)
  then obtain s where "sid = Some s" "map_of (c_slots c) s = Some ns"
    using assms(2) by (auto simp: resolves_def Option.bind_eq_Some_conv)
  moreover have "ns_name ns = n" using slot_of_Some [OF inv_index [OF inv], of n ns] Some by auto
  ultimately show thesis using present peek_in [OF inv] by blast
qed

lemma looked_up_absent:
  assumes inv: "cache_inv_but E lru_wf X c" and "peek E c k = None"
    and "peek E c' = peek E c" "is_marked c' = is_marked c" "c_slots c' = c_slots c" "same_core c c'"
  shows "looked_up E now k f c c'"
  using assms marked_present [OF inv, of k]
  by (auto simp: looked_up_def live_entry_def ids_kept_def fun_eq_iff)

lemma looked_up_expired:
  assumes "peek E c k = Some e" "is_expired_at e now" "entry_gone E k c c'" "c_evictions c' = c_evictions c"
  shows "looked_up E now k f c c'"
  using assms same_frame_core by (auto simp: looked_up_def live_entry_def entry_gone_def)

lemma live_entry_counters [simp]:
  "live_entry E now (c\<lparr>c_clock := i\<rparr>) = live_entry E now c"
  "live_entry E now (c\<lparr>c_touches := i\<rparr>) = live_entry E now c"
  by (simp_all add: live_entry_def fun_eq_iff)

lemma looked_up_counters [simp]:
  "looked_up E now k f (c\<lparr>c_clock := i\<rparr>) c' = looked_up E now k f c c'"
  "looked_up E now k f (c\<lparr>c_touches := i\<rparr>) c' = looked_up E now k f c c'"
  "looked_up E now k f c (c'\<lparr>c_hits := i\<rparr>) = looked_up E now k f c c'"
  "looked_up E now k f c (c'\<lparr>c_misses := i\<rparr>) = looked_up E now k f c c'"
  "looked_up E now k f c (c'\<lparr>c_expirations := i\<rparr>) = looked_up E now k f c c'"
  "looked_up E now k f c (c'\<lparr>c_touches := i\<rparr>) = looked_up E now k f c c'"
  "looked_up E now k f c (c'\<lparr>c_touch_misses := i\<rparr>) = looked_up E now k f c c'"
  "looked_up E now k f c (c'\<lparr>c_clock := i\<rparr>) = looked_up E now k f c c'"
  by (simp_all add: looked_up_def ids_kept_def same_core_def)

lemma frame_counters:
  assumes "same_frame c c'"
  shows "c_hits c' = c_hits c" "c_misses c' = c_misses c" "c_touches c' = c_touches c"
    "c_touch_misses c' = c_touch_misses c" "c_expirations c' = c_expirations c"
  using assms by (cases c; cases c'; simp add: same_frame_def)+

lemma looked_up_live:
  assumes "peek E c k = Some e" "\<not> is_expired_at e now"
    and "peek E c' = (peek E c)(k \<mapsto> f e)" "is_marked c' = is_marked c" "ids_kept c c'" "same_core c c'"
  shows "looked_up E now k f c c'"
  using assms by (simp add: looked_up_def live_entry_def)

lemma get_in_spec:
  assumes inv: "cache_inv E lru_wf c" and r: "resolves c n sid" and k: "k = new_key n name"
  shows "\<exists>c'. get_in E sid name now (c_clock c + 1) (c\<lparr>c_clock := c_clock c + 1\<rparr>)
        = Some (map_option e_value (live_entry E now c k), c')
    \<and> cache_inv E lru_wf c' \<and> looked_up E now k (\<lambda>e. e\<lparr>e_last_used := c_clock c + 1\<rparr>) c c'
    \<and> c_clock c' = c_clock c + 1
    \<and> c_hits c' = c_hits c + (if live_entry E now c k = None then 0 else 1)
    \<and> c_misses c' = c_misses c + (if live_entry E now c k = None then 1 else 0)"
proof -
  note inv' = inv [unfolded cache_inv_def]
  let ?c = "c\<lparr>c_clock := c_clock c + 1\<rparr>"
  have invt: "cache_inv_but E lru_wf {} ?c" using inv_clock [OF inv'] by simp
  have miss: ?thesis if "peek E c k = None"
    and eq: "get_in E sid name now (c_clock c + 1) ?c = Some (None, ?c\<lparr>c_misses := c_misses c + 1\<rparr>)"
    using looked_up_absent [OF inv' that(1), of "?c\<lparr>c_misses := c_misses c + 1\<rparr>"] invt that
    by (auto simp: live_entry_def same_core_def cache_inv_def)
  from inv' r show ?thesis
  proof (cases rule: resolves_slot)
    case absent
    then show ?thesis
      using absent(2) [of name] by (intro miss) (auto simp: get_in_def k split: Option.bind_splits)
  next
    case (present s ns)
    have peek: "peek E c k = map_of (ns_items E ns) name" using present(4) k by simp
    have slot: "map_of (c_slots ?c) s = Some ns" using present(2) by simp
    note wf = ns_inv_wf [OF inv_ns [OF inv' present(2)]]
    from wf show ?thesis
    proof (cases rule: get_mut_cases [of _ name])
      case absent
      then show ?thesis
        using present peek by (intro miss) (auto simp: get_in_def ns_items_def)
    next
      case (present e wr)
      have old: "map_of (ns_items E ns) name = Some e" using present(2) by (simp add: ns_items_def)
      show ?thesis
      proof (cases "is_expired_at e now")
        case True
        obtain c1 where c1: "remove_entry_in E s name (put_slot s (ns\<lparr>ns_entries := wr e\<rparr>) ?c) = Some (Some e, c1)"
            "cache_inv_but E lru_wf {} c1" "entry_gone E k ?c c1" "c_evictions c1 = c_evictions ?c"
          using remove_looked_up [OF invt slot old present(3), of e] present(4) \<open>ns_name ns = n\<close> k
          by (auto simp: ns_items_def)
        let ?c' = "c1\<lparr>c_expirations := c_expirations c1 + 1, c_misses := c_misses c1 + 1\<rparr>"
        have "get_in E sid name now (c_clock c + 1) ?c = Some (None, ?c')"
          by (simp only: get_in_def \<open>sid = Some s\<close> slot present(1) True c1(1) Option.bind.simps option.case
              prod.case if_True)
        moreover have "looked_up E now k (\<lambda>e. e\<lparr>e_last_used := c_clock c + 1\<rparr>) c ?c'"
          using looked_up_expired [OF _ True c1(3, 4)] peek old by simp
        moreover have "c_hits c1 = c_hits c" "c_misses c1 = c_misses c" "c_clock c1 = c_clock c + 1"
          using c1(3) frame_counters [of ?c c1] by (simp_all add: entry_gone_def)
        ultimately show ?thesis
          using c1(2) peek old True by (simp add: live_entry_def cache_inv_def)
      next
        case False
        let ?e = "e\<lparr>e_last_used := c_clock c + 1\<rparr>"
        define c1 where "c1 = put_slot s (ns\<lparr>ns_entries := wr ?e\<rparr>) ?c"
        have s1: "cache_inv E lru_wf c1" "peek E c1 = (peek E c)(k \<mapsto> ?e)" "is_marked c1 = is_marked c" "ids_kept c c1"
          using promote_step [OF inv \<open>map_of (c_slots c) s = Some ns\<close> old present(3), of ?e ?e c1]
            present(4) [of ?e] \<open>ns_name ns = n\<close> k by (auto simp: ns_items_def c1_def)
        have f: "c_clock c1 = c_clock c + 1" "c_hits c1 = c_hits c" "c_misses c1 = c_misses c" "same_core c c1"
          by (simp_all add: c1_def put_slot_def same_core_def)
        have "get_in E sid name now (c_clock c + 1) ?c = Some (Some (e_value e), c1\<lparr>c_hits := c_hits c1 + 1\<rparr>)"
          by (simp add: get_in_def \<open>sid = Some s\<close> slot [simplified] present(1) False c1_def Let_def)
        moreover have "looked_up E now k (\<lambda>e. e\<lparr>e_last_used := c_clock c + 1\<rparr>) c c1"
          using looked_up_live [where f = "\<lambda>e. e\<lparr>e_last_used := c_clock c + 1\<rparr>", OF _ False s1(2-4) f(4)] peek old by simp
        ultimately show ?thesis
          using s1(1) peek old False f by (simp add: live_entry_def)
      qed
    qed
  qed
qed

lemma get_at_spec:
  assumes inv: "cache_inv E lru_wf c"
  shows "\<exists>c'. get_at E k now c = Some (map_option e_value (live_entry E now c k), c')
    \<and> cache_inv E lru_wf c' \<and> looked_up E now k (\<lambda>e. e\<lparr>e_last_used := c_clock c + 1\<rparr>) c c'
    \<and> c_clock c' = c_clock c + 1
    \<and> c_hits c' = c_hits c + (if live_entry E now c k = None then 0 else 1)
    \<and> c_misses c' = c_misses c + (if live_entry E now c k = None then 1 else 0)"
  using get_in_spec [OF inv resolves_find, of k "key_namespace k" "key_name k" now]
  by (simp add: get_at_def tick_def find_namespace_def)

text \<open>A resolved id is as good as a fresh lookup.\<close>

lemma resolves_eq_find:
  assumes inv: "cache_inv_but E lru_wf X c" and r: "resolves c n sid"
  shows "sid = find_namespace c n \<or> Option.bind sid (map_of (c_slots c)) = None
    \<and> Option.bind (find_namespace c n) (map_of (c_slots c)) = None"
proof (cases "slot_of c n")
  case None
  then show ?thesis using r resolves_find [of c n] by (simp add: resolves_def)
next
  case (Some ns)
  then obtain s where s: "sid = Some s" "map_of (c_slots c) s = Some ns"
    using r by (auto simp: resolves_def Option.bind_eq_Some_conv)
  moreover have "ns_name ns = n" using slot_of_Some [OF inv_index [OF inv], of n ns] Some by auto
  ultimately show ?thesis using index_slot [OF inv_index [OF inv] s(2)] by (simp add: find_namespace_def)
qed

lemma get_in_resolved:
  assumes "cache_inv_but E lru_wf X c" and "resolves c n sid"
  shows "get_in E sid name now t c = get_in E (find_namespace c n) name now t c"
proof -
  have "Option.bind s (map_of (c_slots c)) = None \<Longrightarrow> get_in E s name now t c = Some (None, c\<lparr>c_misses := c_misses c + 1\<rparr>)" for s
    by (cases s) (auto simp: get_in_def)
  then show ?thesis using resolves_eq_find [OF assms] by metis
qed

section \<open>touch\<close>

lemma in_place_step:
  assumes inv: "cache_inv E lru_wf c" and slot: "map_of (c_slots c) s = Some ns"
    and old: "map_of (ns_items E ns) n = Some old"
    and l: "lru_wf l" "lru_iter E l = AList.update n e (ns_items E ns)"
    and e: "e_value e = e_value old" "e_last_used e = e_last_used old"
    and c': "c' = put_slot s (ns\<lparr>ns_entries := l\<rparr>) c"
  shows "cache_inv E lru_wf c'" and "peek E c' = (peek E c)(new_key (ns_name ns) n \<mapsto> e)"
    and "is_marked c' = is_marked c" and "ids_kept c c'"
proof -
  note inv' = inv [unfolded cache_inv_def]
  let ?ns = "ns\<lparr>ns_entries := l\<rparr>"
  have items: "ns_items E ?ns = AList.update n e (ns_items E ns)" by (simp add: ns_items_def l)
  have nsi: "ns_inv E lru_wf (c_clock c') ?ns" "ns_stamps E ?ns = ns_stamps E ns"
    using ns_inv_in_place [OF inv_ns [OF inv' slot] _ items old e] by (simp_all add: l c' put_slot_def)
  have len: "length (AList.update n e (ns_items E ns)) = length (ns_items E ns)"
    using arg_cong [OF stamps_update [OF old e(2)], of length] by simp
  have step: "slot_step E s ns ?ns c c'"
    by (auto simp: slot_step_def slot c' put_slot_def items nsi(2) len)
  have ne: "ns_items E ?ns \<noteq> []" using old len by (auto simp: items)
  show *: "cache_inv E lru_wf c'"
    unfolding cache_inv_def by (rule put_slot_inv [OF inv' step nsi(1)]) (use ne in auto)
  show "peek E c' = (peek E c)(new_key (ns_name ns) n \<mapsto> e)"
    using peek_step [OF inv' step * [unfolded cache_inv_def]] peek_in [OF inv' slot] items
    by (auto simp: fun_eq_iff key_eq_iff) (metis new_key_collapse)
  have "slot_of c (ns_name ns) = Some ns"
    using slot_of_Some [OF inv_index [OF inv'], of "ns_name ns" ns] slot by auto
  then show "is_marked c' = is_marked c"
    by (auto simp: fun_eq_iff is_marked_slot slot_of_step [OF inv_index [OF inv'] step])
  show "ids_kept c c'" by (rule ids_kept_step [OF step])
qed

lemma touch_store:
  fixes promote :: bool
  assumes inv: "cache_inv E lru_wf c" and slot: "map_of (c_slots c) s = Some ns"
    and old: "map_of (ns_items E ns) n = Some old"
    and wr: "\<And>e'. lru_wf (wr e')" "\<And>e'. lru_iter E (wr e') = (if promote then (n, e') # AList.delete n (ns_items E ns)
             else AList.update n e' (ns_items E ns))"
    and e: "e_value e = e_value old" "e_last_used e = (if promote then t else e_last_used old)"
    and t: "t = (if promote then c_clock c + 1 else c_clock c)"
    and c': "c' = put_slot s (ns\<lparr>ns_entries := wr e\<rparr>) (c\<lparr>c_touches := c_touches c + 1, c_clock := t\<rparr>)"
  shows "cache_inv E lru_wf c' \<and> peek E c' = (peek E c)(new_key (ns_name ns) n \<mapsto> e)
    \<and> is_marked c' = is_marked c \<and> ids_kept c c'"
proof -
  define b where "b = put_slot s (ns\<lparr>ns_entries := wr e\<rparr>) (c\<lparr>c_clock := t\<rparr>)"
  have c'b: "c' = b\<lparr>c_touches := c_touches c + 1\<rparr>" by (simp add: c' b_def put_slot_def)
  have "cache_inv E lru_wf b \<and> peek E b = (peek E c)(new_key (ns_name ns) n \<mapsto> e)
    \<and> is_marked b = is_marked c \<and> ids_kept c b"
  proof (cases promote)
    case True
    then show ?thesis
      using promote_step [OF inv slot old wr(1), of e e b] wr(2) [of e] e t by (simp add: b_def)
  next
    case False
    then show ?thesis
      using in_place_step [OF inv slot old wr(1), of e e b] wr(2) [of e] e t by (simp add: b_def)
  qed
  then show ?thesis by (simp add: c'b ids_kept_def)
qed

lemma touch_in_spec:
  fixes promote :: bool and now :: instant and ttl :: "duration option"
  assumes inv: "cache_inv E lru_wf c" and r: "resolves c n sid" and k: "k = new_key n name"
  defines "t \<equiv> if promote then c_clock c + 1 else c_clock c"
  defines "f \<equiv> \<lambda>e. e\<lparr>e_expires_at := expiry_of now ttl, e_last_used := if promote then t else e_last_used e\<rparr>"
  shows "\<exists>c'. touch_in E sid name ttl promote now c
        = Some (map_option (\<lambda>e. (e_value e, map_option (\<lambda>x. x - now) (expiry_of now ttl))) (live_entry E now c k), c')
    \<and> cache_inv E lru_wf c' \<and> looked_up E now k f c c' \<and> c_clock c' = t
    \<and> c_touches c' = c_touches c + 1
    \<and> c_touch_misses c' = c_touch_misses c + (if live_entry E now c k = None then 1 else 0)
    \<and> c_hits c' = c_hits c + (if promote \<and> live_entry E now c k \<noteq> None then 1 else 0)
    \<and> c_misses c' = c_misses c + (if promote \<and> live_entry E now c k = None then 1 else 0)"
proof -
  note inv' = inv [unfolded cache_inv_def]
  define c0 where "c0 = c\<lparr>c_touches := c_touches c + 1, c_clock := t\<rparr>"
  have c0: "c_slots c0 = c_slots c" "c_clock c0 = t" "c_touches c0 = c_touches c + 1" "c_hits c0 = c_hits c"
    "c_misses c0 = c_misses c" "c_touch_misses c0 = c_touch_misses c"
    by (simp_all add: c0_def)
  have "c_clock c \<le> t" by (simp add: t_def)
  then have inv0: "cache_inv_but E lru_wf {} c0"
    unfolding c0_def using inv' by (intro inv_clock) simp_all
  have lu0: "looked_up E now k f c0 c' = looked_up E now k f c c'" for c' by (simp add: c0_def)
  have peek0: "peek E c0 = peek E c" by (simp add: c0_def)
  define look where "look = (\<lambda>ns :: 'l namespace. if promote then lru_get_mut E (ns_entries ns) name else lru_peek_mut E (ns_entries ns) name)"
  have unfold: "touch_in E sid name ttl promote now c =
     (case do { s \<leftarrow> sid; ns \<leftarrow> map_of (c_slots c0) s; (e, wr) \<leftarrow> look ns; Some (s, ns, e, wr) } of
        None \<Rightarrow> Some (None, c0\<lparr>c_touch_misses := c_touch_misses c0 + 1,
                     c_misses := (if promote then c_misses c0 + 1 else c_misses c0)\<rparr>)
      | Some (s, ns, e, wr) \<Rightarrow>
          if is_expired_at e now
          then Option.bind (remove_entry_in E s name (put_slot s (ns\<lparr>ns_entries := wr e\<rparr>) c0))
            (\<lambda>(_, c). Some (None, c\<lparr>c_expirations := c_expirations c + 1, c_touch_misses := c_touch_misses c + 1,
               c_misses := (if promote then c_misses c + 1 else c_misses c)\<rparr>))
          else Some (Some (e_value e, map_option (\<lambda>x. x - now) (expiry_of now ttl)),
             put_slot s (ns\<lparr>ns_entries := wr (f e)\<rparr>)
               (c0\<lparr>c_hits := (if promote then c_hits c0 + 1 else c_hits c0)\<rparr>)))"
    by (simp add: touch_in_def c0_def t_def f_def tick_def look_def Let_def
        split: Option.bind_splits option.splits prod.splits)
  have miss: ?thesis if "peek E c k = None"
    and eq: "touch_in E sid name ttl promote now c = Some (None, c0\<lparr>c_touch_misses := c_touch_misses c0 + 1,
                     c_misses := (if promote then c_misses c0 + 1 else c_misses c0)\<rparr>)"
  proof -
    let ?c' = "c0\<lparr>c_touch_misses := c_touch_misses c0 + 1, c_misses := (if promote then c_misses c0 + 1 else c_misses c0)\<rparr>"
    have "looked_up E now k f c0 ?c'"
      by (rule looked_up_absent [OF inv0]) (simp_all add: peek0 that(1) same_core_def)
    then show ?thesis using eq inv0 that(1) c0 by (simp add: lu0 live_entry_def cache_inv_def)
  qed
  have looked: "\<exists>e wr. look ns = Some (e, wr) \<and> map_of (ns_items E ns) name = Some e \<and> (\<forall>e'. lru_wf (wr e'))
      \<and> (\<forall>e'. lru_iter E (wr e') = (if promote then (name, e') # AList.delete name (ns_items E ns)
           else AList.update name e' (ns_items E ns)))"
    if "lru_wf (ns_entries ns)" "map_of (ns_items E ns) name \<noteq> None" for ns
    using that(2)
    by (cases rule: get_mut_cases [OF that(1), of name]; cases rule: peek_mut_cases [OF that(1), of name])
       (auto simp: look_def ns_items_def)
  have looked_none: "look ns = None" if "lru_wf (ns_entries ns)" "map_of (ns_items E ns) name = None" for ns
    using that(2)
    by (cases rule: get_mut_cases [OF that(1), of name]; cases rule: peek_mut_cases [OF that(1), of name])
       (auto simp: look_def ns_items_def)
  from inv' r show ?thesis
  proof (cases rule: resolves_slot)
    case absent
    then show ?thesis
      using absent(2) [of name] by (intro miss) (auto simp: unfold k c0 split: Option.bind_splits)
  next
    case (present s ns)
    have peek: "peek E c k = map_of (ns_items E ns) name" using present(4) k by simp
    have slot: "map_of (c_slots c0) s = Some ns" using present(2) by (simp add: c0)
    note wf = ns_inv_wf [OF inv_ns [OF inv' present(2)]]
    show ?thesis
    proof (cases "map_of (ns_items E ns) name")
      case None
      have "touch_in E sid name ttl promote now c = Some (None, c0\<lparr>c_touch_misses := c_touch_misses c0 + 1,
                     c_misses := (if promote then c_misses c0 + 1 else c_misses c0)\<rparr>)"
        unfolding unfold by (simp add: \<open>sid = Some s\<close> slot looked_none [OF wf None])
      then show ?thesis using miss peek None by simp
    next
      case (Some e)
      obtain wr where wr: "look ns = Some (e, wr)" "\<And>e'. lru_wf (wr e')"
          "\<And>e'. lru_iter E (wr e') = (if promote then (name, e') # AList.delete name (ns_items E ns)
             else AList.update name e' (ns_items E ns))"
        using looked [OF wf] Some by auto
      show ?thesis
      proof (cases "is_expired_at e now")
        case True
        have "map_of (lru_iter E (wr e)) name = Some e"
          "AList.delete name (lru_iter E (wr e)) = AList.delete name (ns_items E ns)"
          by (simp_all add: wr(3))
        from remove_looked_up [OF inv0 slot Some wr(2) this]
        obtain c1 where c1: "remove_entry_in E s name (put_slot s (ns\<lparr>ns_entries := wr e\<rparr>) c0) = Some (Some e, c1)"
            "cache_inv_but E lru_wf {} c1" "entry_gone E k c0 c1" "c_evictions c1 = c_evictions c0"
          using \<open>ns_name ns = n\<close> k by auto
        have "touch_in E sid name ttl promote now c = Some (None,
            c1\<lparr>c_expirations := c_expirations c1 + 1, c_touch_misses := c_touch_misses c1 + 1,
               c_misses := (if promote then c_misses c1 + 1 else c_misses c1)\<rparr>)"
          unfolding unfold by (simp add: \<open>sid = Some s\<close> slot wr(1) True c1(1))
        moreover have "looked_up E now k f c c1"
          using looked_up_expired [where f = f, OF _ True c1(3, 4)] peek Some by (simp add: lu0 [symmetric] peek0)
        moreover have "c_clock c1 = t" using c1(3) c0 by (simp add: entry_gone_def)
        moreover have "same_frame c0 c1" using c1(3) by (simp add: entry_gone_def)
        note frame_counters [OF this]
        ultimately show ?thesis
          using c1(2) peek Some True c0 by (simp add: live_entry_def cache_inv_def)
      next
        case False
        define c1 where "c1 = put_slot s (ns\<lparr>ns_entries := wr (f e)\<rparr>) c0"
        have "cache_inv E lru_wf c1 \<and> peek E c1 = (peek E c)(k \<mapsto> f e) \<and> is_marked c1 = is_marked c \<and> ids_kept c c1"
          using touch_store [OF inv present(2) Some wr(2, 3), of "f e" t c1] \<open>ns_name ns = n\<close> k
          by (simp add: f_def t_def c1_def c0_def)
        note s1 = this
        have f: "c_clock c1 = t" "c_hits c1 = c_hits c" "c_misses c1 = c_misses c" "c_touches c1 = c_touches c + 1"
          "c_touch_misses c1 = c_touch_misses c" "same_core c c1"
          by (simp_all add: c1_def put_slot_def same_core_def c0_def)
        have "touch_in E sid name ttl promote now c = Some (Some (e_value e, map_option (\<lambda>x. x - now) (expiry_of now ttl)),
            c1\<lparr>c_hits := (if promote then c_hits c1 + 1 else c_hits c1)\<rparr>)"
          unfolding unfold by (simp add: \<open>sid = Some s\<close> slot wr(1) False c1_def put_slot_def)
        moreover have "looked_up E now k f c c1"
          using looked_up_live [where f = f, OF _ False] s1 f(6) peek Some by simp
        ultimately show ?thesis
          using s1 peek Some False f by (simp add: live_entry_def)
      qed
    qed
  qed
qed

lemma touch_at_spec:
  fixes promote :: bool
  assumes inv: "cache_inv E lru_wf c"
  defines "t \<equiv> if promote then c_clock c + 1 else c_clock c"
  shows "\<exists>c'. touch_at E k ttl promote now c
        = Some (map_option (\<lambda>e. (e_value e, map_option (\<lambda>x. x - now) (expiry_of now ttl))) (live_entry E now c k), c')
    \<and> cache_inv E lru_wf c' \<and> c_clock c' = t
    \<and> looked_up E now k
        (\<lambda>e. e\<lparr>e_expires_at := expiry_of now ttl, e_last_used := if promote then t else e_last_used e\<rparr>) c c'"
  using touch_in_spec [OF inv resolves_find, of k "key_namespace k" "key_name k" ttl promote now]
  by (auto simp: touch_at_def t_def)

end

end
