(* ===== verification/Cache_Cond.thy ===== *)
theory Cache_Cond
  imports Cache_Read
begin

text \<open>
  Deletes, counters and the conditional operations (\<open>incr\<close>, \<open>cas_set\<close>, \<open>cas_delete\<close>) on every branch,
  and the kept content digests: a digest that was kept is the digest of the value stored now.
\<close>

section \<open>Deleting\<close>

definition deleted :: "'l env \<Rightarrow> key \<Rightarrow> 'l cache \<Rightarrow> 'l cache \<Rightarrow> bool" where
  "deleted E k c c' \<longleftrightarrow>
     peek E c' = (peek E c)(k := None) \<and> is_marked c' = (is_marked c)(k := False)
     \<and> same_core c c' \<and> ids_kept c c' \<and> c_clock c' = c_clock c"

text \<open>Whether a condition holds of a key is a statement about its live entry.\<close>

definition holds :: "'l env \<Rightarrow> cas_condition \<Rightarrow> entry option \<Rightarrow> bool" where
  "holds E condition live = (case condition of
     CondAbsent \<Rightarrow> live = None
   | CondPresent \<Rightarrow> live \<noteq> None
   | CondDigest d \<Rightarrow> (case live of None \<Rightarrow> False | Some e \<Rightarrow> content_digest E (e_value e) = d))"

context lru_cache
begin

lemma remove_entry_deleted:
  assumes inv: "cache_inv E lru_wf c"
  shows "\<exists>c'. remove_entry E k c = Some (peek E c k, c') \<and> cache_inv E lru_wf c' \<and> deleted E k c c'
    \<and> c_evictions c' = c_evictions c
    \<and> c_entry_count c' = c_entry_count c - (if peek E c k = None then 0 else 1)"
proof -
  obtain c' where c': "remove_entry E k c = Some (peek E c k, c')" "cache_inv E lru_wf c'"
      "c_evictions c' = c_evictions c" "if peek E c k = None then c' = c else entry_gone E k c c'"
    using remove_entry_spec [OF inv] by blast
  have "deleted E k c c'"
  proof (cases "peek E c k")
    case None
    then have "\<not> is_marked c k" using marked_present [OF inv [unfolded cache_inv_def], of k] by auto
    then show ?thesis using c'(4) None by (auto simp: deleted_def fun_eq_iff)
  qed (use c'(3, 4) same_frame_core in \<open>auto simp: deleted_def entry_gone_def\<close>)
  then show ?thesis using c' by (auto simp: entry_gone_def split: if_splits)
qed

lemma delete_at_spec:
  assumes inv: "cache_inv E lru_wf c"
  shows "\<exists>c'. delete_at E k now c = Some (live_entry E now c k \<noteq> None, c') \<and> cache_inv E lru_wf c' \<and> deleted E k c c'"
proof -
  obtain c' where "remove_entry E k c = Some (peek E c k, c')" "cache_inv E lru_wf c'" "deleted E k c c'"
    using remove_entry_deleted [OF inv] by blast
  then show ?thesis by (auto simp: delete_at_def live_entry_def split: option.splits)
qed

lemma deleted_live:
  assumes "deleted E k c c'" and "live_entry E now c k = None"
  shows "looked_up E now k f c c'"
  using assms by (simp add: deleted_def looked_up_def)

section \<open>Counters\<close>

lemma incr_at_absent:
  assumes inv: "cache_inv E lru_wf c" and none: "live_entry E now c k = None"
  shows "\<exists>c'. incr_at E k delta now c = Some (IncrNotFound, c') \<and> cache_inv E lru_wf c' \<and> deleted E k c c'"
proof (cases "peek E c k")
  case None
  then have "\<not> is_marked c k" using marked_present [OF inv [unfolded cache_inv_def], of k] by auto
  then show ?thesis using inv None by (auto simp: incr_at_def deleted_def fun_eq_iff)
next
  case (Some e)
  then have "is_expired_at e now" using none by (auto simp: live_entry_def split: if_splits)
  moreover obtain c' where "remove_entry E k c = Some (peek E c k, c')" "cache_inv E lru_wf c'" "deleted E k c c'"
    using remove_entry_deleted [OF inv] by blast
  ultimately show ?thesis
    using Some by (auto simp: incr_at_def deleted_def same_core_def ids_kept_def)
qed

lemma incr_at_live:
  assumes inv: "cache_inv E lru_wf c" and live: "live_entry E now c k = Some e"
  shows "case Option.bind (parse_decimal_i64 (e_value e)) (\<lambda>v. i64_checked_add v delta) of
      None \<Rightarrow> incr_at E k delta now c = Some (IncrNotNumeric, c)
    | Some new \<Rightarrow> \<exists>c'. incr_at E k delta now c
          = Some (IncrValue new (map_option (\<lambda>t. t - now) (e_expires_at e)), c')
        \<and> cache_inv E lru_wf c'
        \<and> written E (name_charge (key_namespace k)) k
            \<lparr>e_value = int_to_dec new, e_expires_at = e_expires_at e, e_last_used = c_clock c + 1\<rparr>
            (c\<lparr>c_incrs := c_incrs c + 1\<rparr>) c'"
proof -
  have peek: "peek E c k = Some e" "\<not> is_expired_at e now"
    using live by (auto simp: live_entry_def split: option.splits if_splits)
  have ins: "\<exists>c'. cache_insert E k v (e_expires_at e) (c\<lparr>c_incrs := c_incrs c + 1\<rparr>) = Some c' \<and> cache_inv E lru_wf c'
        \<and> written E (name_charge (key_namespace k)) k
            \<lparr>e_value = v, e_expires_at = e_expires_at e, e_last_used = c_clock c + 1\<rparr> (c\<lparr>c_incrs := c_incrs c + 1\<rparr>) c'" for v
    using cache_insert_spec [of "c\<lparr>c_incrs := c_incrs c + 1\<rparr>" _ v "e_expires_at e" k] inv by simp
  show ?thesis
  proof (cases "Option.bind (parse_decimal_i64 (e_value e)) (\<lambda>v. i64_checked_add v delta)")
    case None
    then show ?thesis using peek by (auto simp: incr_at_def split: option.splits)
  next
    case (Some new)
    then obtain v where v: "parse_decimal_i64 (e_value e) = Some v" "i64_checked_add v delta = Some new"
      by (auto simp: Option.bind_eq_Some_conv)
    obtain c' where "cache_insert E k (int_to_dec new) (e_expires_at e) (c\<lparr>c_incrs := c_incrs c + 1\<rparr>) = Some c'"
        "cache_inv E lru_wf c'" "written E (name_charge (key_namespace k)) k
          \<lparr>e_value = int_to_dec new, e_expires_at = e_expires_at e, e_last_used = c_clock c + 1\<rparr>
            (c\<lparr>c_incrs := c_incrs c + 1\<rparr>) c'"
      using ins by blast
    then show ?thesis using peek v by (auto simp: incr_at_def Some)
  qed
qed

section \<open>Digests and conditions\<close>

lemma digest_keep:
  assumes inv: "cache_inv E lru_wf c" and slot: "map_of (c_slots c) sid = Some ns"
    and e: "map_of (ns_items E ns) n = Some e" "DIGEST_CACHE_MIN_VALUE_BYTES \<le> length (e_value e)"
    and new: "map_of (ns_digests ns) n = None"
    and ns': "ns' = ns\<lparr>ns_digests := AList.update n (content_digest E (e_value e)) (ns_digests ns),
        ns_used_bytes := ns_used_bytes ns + digest_charge n\<rparr>"
    and c': "c' = put_slot sid ns' (c\<lparr>c_used_bytes := c_used_bytes c + digest_charge n\<rparr>)"
  shows "cache_inv E lru_wf c'" and "peek E c' = peek E c" and "is_marked c' = is_marked c" and "ids_kept c c'"
proof -
  note inv' = inv [unfolded cache_inv_def]
  have nsi: "ns_inv E lru_wf (c_clock c) ns" by (rule inv_ns [OF inv' slot])
  have items: "ns_items E ns' = ns_items E ns" by (simp add: ns' ns_items_def)
  have "ns_true_bytes E ns' = ns_true_bytes E ns + digest_charge n"
    using new by (simp add: ns_true_bytes_def items) (simp add: ns' sum_update_new)
  moreover have "digests_ok E ns'"
    using nsi e by (auto simp: digests_ok_def items ns_inv_def) (auto simp: ns' digests_ok_def split: if_splits)
  ultimately have "ns_inv E lru_wf (c_clock c') ns'"
    using nsi by (simp add: ns_inv_def items ns_stamps_def) (simp add: ns' c' put_slot_def)
  moreover have step: "slot_step E sid ns ns' c c'"
    by (simp add: slot_step_def slot c' put_slot_def items ns_stamps_def) (simp add: ns')
  moreover have "ns_items E ns' \<noteq> []" using e(1) by (auto simp: items)
  ultimately show *: "cache_inv E lru_wf c'"
    unfolding cache_inv_def by (intro put_slot_inv [OF inv' step]) auto
  show "peek E c' = peek E c"
    using peek_step [OF inv' step * [unfolded cache_inv_def]] peek_in [OF inv' slot] items
    by (auto simp: fun_eq_iff) (metis new_key_collapse)
  have "slot_of c (ns_name ns) = Some ns"
    using slot_of_Some [OF inv_index [OF inv'], of "ns_name ns" ns] slot by auto
  then show "is_marked c' = is_marked c"
    by (auto simp: fun_eq_iff is_marked_slot slot_of_step [OF inv_index [OF inv'] step] ns')
  show "ids_kept c c'" by (rule ids_kept_step [OF step])
qed

lemma digest_of_spec:
  assumes inv: "cache_inv E lru_wf c" and d: "digest_of E k c = (d, c')"
  shows "d = map_option (\<lambda>e. content_digest E (e_value e)) (peek E c k)"
    and "cache_inv E lru_wf c'" and "peek E c' = peek E c" and "is_marked c' = is_marked c"
    and "ids_kept c c'" and "same_core c c'" and "c_clock c' = c_clock c"
proof -
  note inv' = inv [unfolded cache_inv_def]
  have "d = map_option (\<lambda>e. content_digest E (e_value e)) (peek E c k) \<and> cache_inv E lru_wf c'
    \<and> peek E c' = peek E c \<and> is_marked c' = is_marked c \<and> ids_kept c c' \<and> same_core c c' \<and> c_clock c' = c_clock c"
  proof (cases rule: resolves_slot [OF inv' resolves_find, of "key_namespace k"])
    case 1
    then show ?thesis
      using d inv 1(2) [of "key_name k"] by (auto simp: digest_of_def split: Option.bind_splits)
  next
    case (2 sid ns)
    note slot = 2(2)
    have peek: "peek E c k = map_of (ns_items E ns) (key_name k)" using 2(4) [of "key_name k"] by simp
    have lookup: "lru_peek E (ns_entries ns) (key_name k) = map_of (ns_items E ns) (key_name k)"
      using ns_inv_wf [OF inv_ns [OF inv' slot]] by (simp add: ns_items_def)
    show ?thesis
    proof (cases "map_of (ns_items E ns) (key_name k)")
      case None
      then show ?thesis using d inv 2(1) slot lookup peek by (auto simp: digest_of_def)
    next
      case (Some e)
      have small: ?thesis if "length (e_value e) < DIGEST_CACHE_MIN_VALUE_BYTES"
        using that d inv 2(1) slot lookup peek Some by (auto simp: digest_of_def)
      show ?thesis
      proof (cases "length (e_value e) < DIGEST_CACHE_MIN_VALUE_BYTES")
        case True
        then show ?thesis by (rule small)
      next
        case False
        show ?thesis
        proof (cases "map_of (ns_digests ns) (key_name k)")
          case kept: (Some x)
          moreover have "digests_ok E ns" using inv_ns [OF inv' slot] by (simp add: ns_inv_def)
          ultimately have "x = content_digest E (e_value e)"
            using Some unfolding digests_ok_def by (metis option.inject)
          then show ?thesis using d inv 2(1) slot lookup peek Some False kept by (auto simp: digest_of_def)
        next
          case None
          then have "c' = put_slot sid (ns\<lparr>ns_digests := AList.update (key_name k) (content_digest E (e_value e)) (ns_digests ns),
              ns_used_bytes := ns_used_bytes ns + digest_charge (key_name k)\<rparr>)
              (c\<lparr>c_used_bytes := c_used_bytes c + digest_charge (key_name k)\<rparr>)"
            and "d = Some (content_digest E (e_value e))"
            using d 2(1) slot lookup Some False by (auto simp: digest_of_def Let_def)
          then show ?thesis
            using digest_keep [OF inv slot Some _ None refl] False peek Some
            by (auto simp: put_slot_def same_core_def)
        qed
      qed
    qed
  qed
  then show "d = map_option (\<lambda>e. content_digest E (e_value e)) (peek E c k)"
    "cache_inv E lru_wf c'" "peek E c' = peek E c" "is_marked c' = is_marked c"
    "ids_kept c c'" "same_core c c'" "c_clock c' = c_clock c"
    by blast+
qed


lemma condition_holds_at_spec:
  assumes inv: "cache_inv E lru_wf c"
  shows "\<exists>c'. condition_holds_at E k condition now c = Some (holds E condition (live_entry E now c k), c')
    \<and> cache_inv E lru_wf c' \<and> looked_up E now k (\<lambda>e. e) c c' \<and> c_clock c' = c_clock c
    \<and> peek E c' k = live_entry E now c k"
proof -
  define expired where "expired = (case peek E c k of None \<Rightarrow> False | Some e \<Rightarrow> is_expired_at e now)"
  have "\<exists>c1. (if expired then Option.bind (remove_entry E k c) (\<lambda>(_, c). Some (c\<lparr>c_expirations := c_expirations c + 1\<rparr>))
       else Some c) = Some c1 \<and> cache_inv E lru_wf c1 \<and> looked_up E now k (\<lambda>e. e) c c1 \<and> c_clock c1 = c_clock c
       \<and> peek E c1 k = live_entry E now c k"
  proof (cases expired)
    case True
    then have none: "live_entry E now c k = None"
      by (auto simp: expired_def live_entry_def split: option.splits)
    obtain c1 where "remove_entry E k c = Some (peek E c k, c1)" "cache_inv E lru_wf c1" "deleted E k c c1"
      using remove_entry_deleted [OF inv] by blast
    then show ?thesis
      using True none deleted_live [OF _ none, of c1 "\<lambda>e. e"] by (auto simp: deleted_def)
  next
    case False
    then have "live_entry E now c k = peek E c k"
      by (auto simp: expired_def live_entry_def split: option.splits)
    moreover have "\<not> is_marked c k" if "peek E c k = None"
      using that marked_present [OF inv [unfolded cache_inv_def], of k] by auto
    ultimately show ?thesis
      using False inv by (auto simp: looked_up_def fun_eq_iff option.map_ident)
  qed
  then obtain c1 where c1: "(if expired then Option.bind (remove_entry E k c) (\<lambda>(_, c). Some (c\<lparr>c_expirations := c_expirations c + 1\<rparr>))
       else Some c) = Some c1" "cache_inv E lru_wf c1" "looked_up E now k (\<lambda>e. e) c c1" "c_clock c1 = c_clock c"
       "peek E c1 k = live_entry E now c k"
    by blast
  show ?thesis
  proof (cases condition)
    case (CondDigest d)
    obtain x c2 where x: "digest_of E k c1 = (x, c2)" by fastforce
    note spec = digest_of_spec [OF c1(2) x]
    have "looked_up E now k (\<lambda>e. e) c c2"
      using c1(3) spec(3-6) ids_kept_trans [of c c1 c2] same_core_trans [of c c1 c2] by (auto simp: looked_up_def)
    then show ?thesis
      using c1 x spec CondDigest
      by (auto simp: condition_holds_at_def expired_def [symmetric] holds_def split: option.splits)
  qed (use c1 in \<open>auto simp: condition_holds_at_def expired_def [symmetric] holds_def\<close>)
qed

lemma cas_set_at_spec:
  assumes inv: "cache_inv E lru_wf c"
  shows "\<exists>c1. cache_inv E lru_wf c1 \<and> looked_up E now k (\<lambda>e. e) c c1 \<and> c_clock c1 = c_clock c \<and>
    (if holds E condition (live_entry E now c k)
     then \<exists>c'. cas_set_at E k condition v ttl now c = Some (Stored, c') \<and> cache_inv E lru_wf c'
        \<and> written E (name_charge (key_namespace k)) k
            \<lparr>e_value = v, e_expires_at = expiry_of now ttl, e_last_used = c_clock c + 1\<rparr>
            (c1\<lparr>c_cas_sets := c_cas_sets c1 + 1\<rparr>) c'
     else cas_set_at E k condition v ttl now c = Some (Mismatch, c1))"
proof -
  obtain c1 where c1: "condition_holds_at E k condition now c = Some (holds E condition (live_entry E now c k), c1)"
      "cache_inv E lru_wf c1" "looked_up E now k (\<lambda>e. e) c c1" "c_clock c1 = c_clock c"
    using condition_holds_at_spec [OF inv] by blast
  obtain c' where c': "cache_insert E k v (expiry_of now ttl) (c1\<lparr>c_cas_sets := c_cas_sets c1 + 1\<rparr>) = Some c'"
      "cache_inv E lru_wf c'" "written E (name_charge (key_namespace k)) k
            \<lparr>e_value = v, e_expires_at = expiry_of now ttl, e_last_used = c_clock c + 1\<rparr>
            (c1\<lparr>c_cas_sets := c_cas_sets c1 + 1\<rparr>) c'"
    using cache_insert_spec [of "c1\<lparr>c_cas_sets := c_cas_sets c1 + 1\<rparr>" _ v "expiry_of now ttl" k] c1(2, 4) by auto
  show ?thesis
    by (intro exI [of _ c1] conjI) (use c1 c' in \<open>simp_all add: cas_set_at_def\<close>)
qed

lemma cas_delete_at_spec:
  assumes inv: "cache_inv E lru_wf c"
  shows "\<exists>c'. cas_delete_at E k expected now c = Some (holds E (CondDigest expected) (live_entry E now c k), c')
    \<and> cache_inv E lru_wf c'
    \<and> (if holds E (CondDigest expected) (live_entry E now c k) then deleted E k c c'
       else looked_up E now k (\<lambda>e. e) c c' \<and> c_clock c' = c_clock c)"
proof -
  obtain c1 where c1: "condition_holds_at E k (CondDigest expected) now c
        = Some (holds E (CondDigest expected) (live_entry E now c k), c1)"
      "cache_inv E lru_wf c1" "looked_up E now k (\<lambda>e. e) c c1" "c_clock c1 = c_clock c"
    using condition_holds_at_spec [OF inv] by blast
  have "cache_inv E lru_wf (c1\<lparr>c_cas_deletes := c_cas_deletes c1 + 1\<rparr>)" using c1(2) by simp
  from remove_entry_deleted [OF this, of k] obtain r c2 where
    c2: "remove_entry E k (c1\<lparr>c_cas_deletes := c_cas_deletes c1 + 1\<rparr>) = Some (r, c2)" "cache_inv E lru_wf c2"
      "deleted E k (c1\<lparr>c_cas_deletes := c_cas_deletes c1 + 1\<rparr>) c2"
    by blast
  have "deleted E k c c2"
    using c2(3) c1(3, 4) unfolding deleted_def looked_up_def same_core_def ids_kept_def
    by (auto simp: fun_eq_iff) (metis (no_types, lifting))
  then show ?thesis using c1 c2 by (auto simp: cas_delete_at_def)
qed

end

end
