(* ===== verification/Cache_Handoff.thy ===== *)
theory Cache_Handoff
  imports Cache_Cond
begin

text \<open>
  What other nodes send: handoff writes and deletes, the tombstones that keep a relayed delete from
  being undone, the migration marks, and the reclaiming of copies a node does not own.
\<close>

section \<open>Tombstones\<close>

text \<open>A change of the tombstones alone, paid for in \<open>used_bytes\<close>.\<close>

definition tomb_step :: "'l cache \<Rightarrow> 'l cache \<Rightarrow> bool" where
  "tomb_step c c' \<longleftrightarrow>
     c' = c\<lparr>c_handoff_tombstones := c_handoff_tombstones c', c_tombstone_order := c_tombstone_order c',
            c_used_bytes := c_used_bytes c
              + (tombstones_bytes (c_handoff_tombstones c') - tombstones_bytes (c_handoff_tombstones c))\<rparr>"

lemma tomb_step_refl [simp]: "tomb_step c c"
  by (simp add: tomb_step_def)

lemma tomb_step_trans: "tomb_step a b \<Longrightarrow> tomb_step b c \<Longrightarrow> tomb_step a c"
  by (cases a; cases b; cases c) (simp add: tomb_step_def)

lemma tomb_step_slots:
  assumes "tomb_step c c'"
  shows "c_slots c' = c_slots c" "c_namespaces c' = c_namespaces c" "c_clock c' = c_clock c"
    "c_pending_removal c' = c_pending_removal c" "c_entry_count c' = c_entry_count c"
    "c_marked c' = c_marked c" "c_handoff_writes c' = c_handoff_writes c"
  using assms by (cases c; cases c'; simp add: tomb_step_def)+

lemma tomb_step_forget_stamped:
  assumes "distinct (map fst (c_handoff_tombstones c))"
  shows "tomb_step c (snd (forget_tombstone_if_stamped k t c))"
  using assms
  by (cases c) (auto simp: tomb_step_def forget_tombstone_if_stamped_def tombstones_bytes_def sum_delete)

lemma tombstones_forget_stamped:
  "c_handoff_tombstones (snd (forget_tombstone_if_stamped k t c)) =
     (if map_of (c_handoff_tombstones c) k = Some t then AList.delete k (c_handoff_tombstones c)
      else c_handoff_tombstones c)"
  by (simp add: forget_tombstone_if_stamped_def)

text \<open>
  Pruning drops expired tombstones only, and what it keeps is still queued. The queue \<open>os\<close> is the
  part of \<open>tombstone_order\<close> not yet seen.
\<close>

lemma prune_loop_spec:
  assumes "distinct (map fst (c_handoff_tombstones c))"
    and "\<And>k t. map_of (c_handoff_tombstones c) k = Some t \<Longrightarrow> (t, k) \<in> set os"
  shows "tomb_step c (prune_loop now os c) \<and> tombstones_inv (prune_loop now os c)
    \<and> (\<forall>k t. map_of (c_handoff_tombstones c) k = Some t \<longrightarrow> now - t < HANDOFF_TOMBSTONE_TTL \<longrightarrow>
         map_of (c_handoff_tombstones (prune_loop now os c)) k = Some t)
    \<and> map_of (c_handoff_tombstones (prune_loop now os c)) \<subseteq>\<^sub>m map_of (c_handoff_tombstones c)"
  using assms
proof (induction now os c rule: prune_loop.induct)
  case (1 now c)
  then have "map_of (c_handoff_tombstones c) k = None" for k
    by (cases "map_of (c_handoff_tombstones c) k") auto
  then show ?case using 1(1) by (cases c) (simp add: tomb_step_def tombstones_inv_def)
next
  case (2 now stamped key rest c)
  show ?case
  proof (cases "now - stamped < HANDOFF_TOMBSTONE_TTL")
    case True
    then show ?thesis
      using "2.prems" by (cases c) (auto simp: tomb_step_def tombstones_inv_def)
  next
    case False
    let ?c = "snd (forget_tombstone_if_stamped key stamped c)"
    have d: "distinct (map fst (c_handoff_tombstones ?c))"
      using "2.prems"(1) by (simp add: tombstones_forget_stamped)
    have q: "(t, k) \<in> set rest" if "map_of (c_handoff_tombstones ?c) k = Some t" for k t
      using that "2.prems"(2) [of k t] by (auto simp: tombstones_forget_stamped split: if_splits)
    note IH = "2.IH" [OF False d q]
    have step: "tomb_step c ?c" by (rule tomb_step_forget_stamped [OF "2.prems"(1)])
    have "map_of (c_handoff_tombstones ?c) k = Some t"
      if "map_of (c_handoff_tombstones c) k = Some t" "now - t < HANDOFF_TOMBSTONE_TTL" for k t
      using that False by (auto simp: tombstones_forget_stamped)
    moreover have "map_of (c_handoff_tombstones ?c) \<subseteq>\<^sub>m map_of (c_handoff_tombstones c)"
      by (auto simp: tombstones_forget_stamped map_le_def)
    ultimately show ?thesis
      using IH tomb_step_trans [OF step] False map_le_trans by auto
  qed
qed

lemma map_le_length:
  assumes "distinct (map fst al)" and "distinct (map fst bl)" and "map_of al \<subseteq>\<^sub>m map_of bl"
  shows "length al \<le> length bl"
proof -
  have "fst ` set al \<subseteq> fst ` set bl"
    using map_le_implies_dom_le [OF assms(3)] by (simp add: dom_map_of_conv_image_fst)
  then have "card (set (map fst al)) \<le> card (set (map fst bl))" by (simp add: card_mono)
  then show ?thesis using assms(1, 2) by (metis distinct_card length_map)
qed

lemma length_update_le: "length (AList.update k v al) \<le> Suc (length al)"
  by (induction al) auto

lemma forget_oldest_spec:
  assumes "distinct (map fst (c_handoff_tombstones c))"
    and "\<And>k t. map_of (c_handoff_tombstones c) k = Some t \<Longrightarrow> (t, k) \<in> set os"
  shows "tomb_step c (forget_oldest_loop os c) \<and> tombstones_inv (forget_oldest_loop os c)
    \<and> (c_handoff_tombstones c \<noteq> [] \<longrightarrow>
         length (c_handoff_tombstones (forget_oldest_loop os c)) < length (c_handoff_tombstones c))"
  using assms
proof (induction os c rule: forget_oldest_loop.induct)
  case (1 c)
  then have "map_of (c_handoff_tombstones c) k = None" for k
    by (cases "map_of (c_handoff_tombstones c) k") auto
  then have "c_handoff_tombstones c = []"
    by (cases "c_handoff_tombstones c") (auto, metis option.distinct(1))
  then show ?case by (cases c) (simp add: tomb_step_def tombstones_inv_def)
next
  case (2 stamped key rest c)
  show ?case
  proof (cases "map_of (c_handoff_tombstones c) key = Some stamped")
    case False
    then have f: "forget_tombstone_if_stamped key stamped c = (False, c)"
      by (simp add: forget_tombstone_if_stamped_def)
    have q: "(t, k) \<in> set rest" if "map_of (c_handoff_tombstones c) k = Some t" for k t
      using that "2.prems"(2) [OF that] False by auto
    show ?thesis
      using "2.IH" [OF f [symmetric] _ "2.prems"(1) q] by (simp add: f)
  next
    case True
    have "length (AList.delete key (c_handoff_tombstones c)) < length (c_handoff_tombstones c)"
      using length_delete_distinct [OF "2.prems"(1), of key] True by simp
    moreover have "(t, k) \<in> set rest" if "map_of (c_handoff_tombstones c) k = Some t" "k \<noteq> key" for k t
      using that "2.prems"(2) [OF that(1)] by auto
    ultimately show ?thesis
      using True "2.prems"(1)
      by (cases c) (auto simp: forget_tombstone_if_stamped_def tomb_step_def tombstones_inv_def
          tombstones_bytes_def sum_delete split: if_splits)
  qed
qed

context lru_cache
begin

lemma inv_tombstones: "cache_inv E lru_wf c \<Longrightarrow> tombstones_inv c"
  by (simp add: cache_inv_def cache_inv_but_def)

lemma tomb_step_inv:
  assumes inv: "cache_inv E lru_wf c" and step: "tomb_step c c'" and "tombstones_inv c'"
  shows "cache_inv E lru_wf c'" and "peek E c' = peek E c" and "is_marked c' = is_marked c" and "ids_kept c c'"
proof -
  let ?c = "c\<lparr>c_handoff_tombstones := c_handoff_tombstones c', c_tombstone_order := c_tombstone_order c',
            c_used_bytes := c_used_bytes c
              + (tombstones_bytes (c_handoff_tombstones c') - tombstones_bytes (c_handoff_tombstones c))\<rparr>"
  have eq: "c' = ?c" using step by (simp only: tomb_step_def [symmetric])
  have "tombstones_inv ?c" using assms(3) eq by simp
  then have "cache_inv E lru_wf ?c"
    using inv unfolding cache_inv_def cache_inv_but_def slot_inv_def index_inv_def stamps_unique_def totals_inv_def
    by simp
  then show "cache_inv E lru_wf c'" using eq by simp
  have "peek E ?c = peek E c" "is_marked ?c = is_marked c" by simp_all
  then show "peek E c' = peek E c" "is_marked c' = is_marked c" using eq by simp_all
  show "ids_kept c c'" using tomb_step_slots [OF step] by (simp add: ids_kept_def)
qed

lemma prune_tombstones_spec:
  fixes now :: instant
  assumes inv: "cache_inv E lru_wf c"
  defines "c' \<equiv> prune_tombstones now c"
  shows "tomb_step c c' \<and> tombstones_inv c'
    \<and> (\<forall>k t. map_of (c_handoff_tombstones c) k = Some t \<longrightarrow> now - t < HANDOFF_TOMBSTONE_TTL \<longrightarrow>
         map_of (c_handoff_tombstones c') k = Some t)
    \<and> map_of (c_handoff_tombstones c') \<subseteq>\<^sub>m map_of (c_handoff_tombstones c)"
  using inv_tombstones [OF inv] prune_loop_spec [of c "c_tombstone_order c" now]
  by (simp add: c'_def prune_tombstones_def tombstones_inv_def)

lemma forget_tombstone_spec:
  assumes inv: "cache_inv E lru_wf c"
  shows "tomb_step c (forget_tombstone k c)" and "tombstones_inv (forget_tombstone k c)"
  using inv_tombstones [OF inv]
  by (cases c; auto simp: forget_tombstone_def tomb_step_def tombstones_inv_def tombstones_bytes_def sum_delete)+


text \<open>\<open>tombstone\<close>: whatever the cap and the compaction drop, the key just deleted is covered.\<close>

lemma tombstone_spec:
  fixes now :: instant and k :: key
  assumes inv: "cache_inv E lru_wf c"
  defines "c' \<equiv> tombstone k now c"
  shows "tomb_step c c'" and "tombstones_inv c'" and "map_of (c_handoff_tombstones c') k = Some now"
    and "length (c_handoff_tombstones c) \<le> MAX_HANDOFF_TOMBSTONES \<Longrightarrow>
      length (c_handoff_tombstones c') \<le> MAX_HANDOFF_TOMBSTONES"
proof -
  define c1 where "c1 = prune_tombstones now c"
  define c2 where "c2 = (if length (c_handoff_tombstones c1) \<ge> MAX_HANDOFF_TOMBSTONES
      then forget_oldest_tombstone c1 else c1)"
  define c3 where "c3 = c2\<lparr>c_handoff_tombstones := AList.update k now (c_handoff_tombstones c2),
      c_used_bytes := (if map_of (c_handoff_tombstones c2) k = None
        then c_used_bytes c2 + tombstone_bytes k else c_used_bytes c2),
      c_tombstone_order := c_tombstone_order c2 @ [(now, k)]\<rparr>"
  have c': "c' = (if length (c_tombstone_order c3) > 2 * MAX_HANDOFF_TOMBSTONES
      then c3\<lparr>c_tombstone_order := filter (\<lambda>(stamped, k).
          map_of (c_handoff_tombstones c3) k = Some stamped) (c_tombstone_order c3)\<rparr> else c3)"
    by (simp add: c'_def tombstone_def c1_def [symmetric] c2_def [symmetric] c3_def Let_def)
  have s1: "tomb_step c c1" "tombstones_inv c1"
    and sub: "map_of (c_handoff_tombstones c1) \<subseteq>\<^sub>m map_of (c_handoff_tombstones c)"
    using prune_tombstones_spec [OF inv] by (auto simp: c1_def)
  have oldest: "tomb_step c1 (forget_oldest_tombstone c1) \<and> tombstones_inv (forget_oldest_tombstone c1)
      \<and> (c_handoff_tombstones c1 \<noteq> [] \<longrightarrow>
          length (c_handoff_tombstones (forget_oldest_tombstone c1)) < length (c_handoff_tombstones c1))"
    using forget_oldest_spec [of c1 "c_tombstone_order c1"] s1(2)
    by (simp add: forget_oldest_tombstone_def tombstones_inv_def)
  have s2: "tomb_step c1 c2" "tombstones_inv c2"
    using oldest s1(2) by (auto simp: c2_def)
  have s3: "tomb_step c2 c3" "tombstones_inv c3"
  proof -
    have "tombstones_bytes (AList.update k now (c_handoff_tombstones c2)) = tombstones_bytes (c_handoff_tombstones c2)
        + (if map_of (c_handoff_tombstones c2) k = None then tombstone_bytes k else 0)"
      by (auto simp: tombstones_bytes_def sum_update sum_update_new split: option.splits)
    then show "tomb_step c2 c3" by (cases c2) (simp add: tomb_step_def c3_def)
    show "tombstones_inv c3"
      using s2(2) by (auto simp: c3_def tombstones_inv_def)
  qed
  have s4: "tomb_step c3 c'" by (cases c3) (simp add: tomb_step_def c')
  show "tomb_step c c'" using tomb_step_trans s1(1) s2(1) s3(1) s4 by blast
  show "tombstones_inv c'" using s3(2) by (auto simp: c' tombstones_inv_def)
  show "map_of (c_handoff_tombstones c') k = Some now" by (simp add: c' c3_def)
  assume le: "length (c_handoff_tombstones c) \<le> MAX_HANDOFF_TOMBSTONES"
  have "length (c_handoff_tombstones c1) \<le> length (c_handoff_tombstones c)"
    by (rule map_le_length) (use s1(2) inv_tombstones [OF inv] sub in \<open>auto simp: tombstones_inv_def\<close>)
  then have "length (c_handoff_tombstones c2) < MAX_HANDOFF_TOMBSTONES"
    using oldest le by (cases "c_handoff_tombstones c1") (auto simp: c2_def MAX_HANDOFF_TOMBSTONES_def)
  moreover have "length (c_handoff_tombstones c') \<le> length (c_handoff_tombstones c2) + 1"
    by (simp add: c' c3_def length_update_le)
  ultimately show "length (c_handoff_tombstones c') \<le> MAX_HANDOFF_TOMBSTONES" by simp
qed


section \<open>Handoff writes\<close>

lemma note_handoff_same [simp]:
  "cache_inv E lru_wf (note_handoff now ahead c) = cache_inv E lru_wf c"
  "peek E (note_handoff now ahead c) = peek E c"
  "is_marked (note_handoff now ahead c) = is_marked c"
  "live_entry E t (note_handoff now ahead c) = live_entry E t c"
  "tombstoned_at k t (note_handoff now ahead c) = tombstoned_at k t c"
  "c_clock (note_handoff now ahead c) = c_clock c"
  "c_pending_removal (note_handoff now ahead c) = c_pending_removal c"
  by (auto simp: note_handoff_def live_entry_def tombstoned_at_def fun_eq_iff)

text \<open>A relayed delete removes the key and covers it with a tombstone.\<close>

lemma handoff_delete_at_spec:
  assumes inv: "cache_inv E lru_wf c"
  shows "\<exists>c'. handoff_delete_at E k now c = Some (live_entry E now c k \<noteq> None, c') \<and> cache_inv E lru_wf c'
    \<and> peek E c' = (peek E c)(k := None) \<and> is_marked c' = (is_marked c)(k := False)
    \<and> map_of (c_handoff_tombstones c') k = Some now \<and> c_clock c' = c_clock c
    \<and> c_pending_removal c' = c_pending_removal c"
proof -
  obtain c1 where c1: "delete_at E k now c = Some (live_entry E now c k \<noteq> None, c1)" "cache_inv E lru_wf c1"
      "deleted E k c c1"
    using delete_at_spec [OF inv] by blast
  note t = tombstone_spec [OF c1(2), where now = now and k = k]
  note s = tomb_step_inv [OF c1(2) t(1, 2)]
  show ?thesis
    using c1 s t(3) tomb_step_slots(3, 4) [OF t(1)] by (simp add: handoff_delete_at_def deleted_def same_core_def)
qed

lemma handoff_set_spec:
  assumes inv: "cache_inv E lru_wf c"
  shows "\<exists>c'. handoff_set E k v ttl ahead now c =
      Some (ttl = Some 0 \<or> \<not> (\<exists>e. live_entry E now c k = Some e \<and> e_value e = v
              \<and> (e_expires_at e = None) = (expiry_of now ttl = None)), c')
    \<and> cache_inv E lru_wf c' \<and> c_pending_removal c' = c_pending_removal c
    \<and> (if ttl = Some 0
       then peek E c' = (peek E c)(k := None) \<and> map_of (c_handoff_tombstones c') k = Some now
       else written E (name_charge (key_namespace k)) k
            \<lparr>e_value = v, e_expires_at = expiry_of now ttl, e_last_used = c_clock c + 1\<rparr>
            (note_handoff now ahead c) c')"
proof (cases "ttl = Some 0")
  case True
  have "cache_inv E lru_wf (note_handoff now ahead c)" using inv by simp
  from handoff_delete_at_spec [OF this, of k now] show ?thesis
    using True by (auto simp: handoff_set_def)
next
  case False
  have "cache_inv E lru_wf (note_handoff now ahead c)" using inv by simp
  from cache_insert_spec [OF this refl, of k v "expiry_of now ttl"]
  obtain c' where c': "cache_insert E k v (expiry_of now ttl) (note_handoff now ahead c) = Some c'"
      "cache_inv E lru_wf c'" "written E (name_charge (key_namespace k)) k
            \<lparr>e_value = v, e_expires_at = expiry_of now ttl, e_last_used = c_clock c + 1\<rparr>
            (note_handoff now ahead c) c'" "c_pending_removal c' = c_pending_removal c"
    using written_pending [of E _ k _ "note_handoff now ahead c"] by fastforce
  have "(case peek E c k of None \<Rightarrow> False | Some e \<Rightarrow> \<not> is_expired_at e now \<and> e_value e = v
             \<and> (e_expires_at e \<noteq> None) = (expiry_of now ttl \<noteq> None))
      = (\<exists>e. live_entry E now c k = Some e \<and> e_value e = v
              \<and> (e_expires_at e = None) = (expiry_of now ttl = None))"
    by (auto simp: live_entry_def split: option.splits)
  then show ?thesis
    using False c' by (simp add: handoff_set_def Let_def)
qed

text \<open>
  A put-if-absent copy is refused under a live tombstone and by a live entry, unless that entry is
  a marked, dead copy.
\<close>

lemma handoff_set_if_absent_at_spec:
  fixes now :: instant and k :: key
  assumes inv: "cache_inv E lru_wf c"
  defines "refused \<equiv> tombstoned_at k now c \<or> live_entry E now c k \<noteq> None \<and> \<not> is_marked c k"
  shows "\<exists>c1. cache_inv E lru_wf c1 \<and> c_clock c1 = c_clock c \<and> c_pending_removal c1 = c_pending_removal c
    \<and> live_entry E now c1 k = live_entry E now c k
    \<and> (\<forall>k'. k' \<noteq> k \<longrightarrow> peek E c1 k' = peek E c k' \<and> is_marked c1 k' = is_marked c k')
    \<and> (if refused then handoff_set_if_absent_at E k v ttl ahead now c = Some (Mismatch, c1)
       else \<exists>c'. handoff_set_if_absent_at E k v ttl ahead now c = Some (Stored, c') \<and> cache_inv E lru_wf c'
        \<and> written E (name_charge (key_namespace k)) k
            \<lparr>e_value = v, e_expires_at = expiry_of now ttl, e_last_used = c_clock c + 1\<rparr> c1 c')"
proof -
  let ?c = "note_handoff now ahead c"
  have inv0: "cache_inv E lru_wf ?c" using inv by simp
  show ?thesis
  proof (cases "tombstoned_at k now c")
    case True
    then show ?thesis
      using inv0 by (intro exI [of _ ?c]) (simp add: refused_def handoff_set_if_absent_at_def)
  next
    case False
    obtain c1 where c1: "condition_holds_at E k CondAbsent now ?c = Some (live_entry E now c k = None, c1)"
        "cache_inv E lru_wf c1" "looked_up E now k (\<lambda>e. e) ?c c1" "c_clock c1 = c_clock c"
        "peek E c1 k = live_entry E now c k" "c_pending_removal c1 = c_pending_removal c"
      using condition_holds_at_spec [OF inv0, of k CondAbsent now] by (auto simp: holds_def looked_up_def same_core_def)
    have live: "live_entry E now c1 k = live_entry E now c k"
      using c1(5) by (auto simp: live_entry_def split: option.splits if_splits)
    have marked: "is_marked c1 k \<longleftrightarrow> is_marked c k" if "live_entry E now c k \<noteq> None"
      using c1(3) that by (simp add: looked_up_def)
    have others: "\<forall>k'. k' \<noteq> k \<longrightarrow> peek E c1 k' = peek E c k' \<and> is_marked c1 k' = is_marked c k'"
      using c1(3) by (simp add: looked_up_def)
    show ?thesis
    proof (cases refused)
      case True
      then show ?thesis
        using False c1 live others marked
        by (intro exI [of _ c1]) (auto simp: refused_def handoff_set_if_absent_at_def)
    next
      case nr: False
      obtain c' where "cache_insert E k v (expiry_of now ttl) c1 = Some c'" "cache_inv E lru_wf c'"
          "written E (name_charge (key_namespace k)) k
            \<lparr>e_value = v, e_expires_at = expiry_of now ttl, e_last_used = c_clock c + 1\<rparr> c1 c'"
        using cache_insert_spec [OF c1(2) refl, of k v "expiry_of now ttl"] c1(4) by auto
      then show ?thesis
        using nr False c1 live others marked
        by (intro exI [of _ c1]) (auto simp: refused_def handoff_set_if_absent_at_def)
    qed
  qed
qed

end

end
