(* ===== verification/Cache_Sweep.thy ===== *)
theory Cache_Sweep
  imports Cache_Handoff
begin

text \<open>
  Migration marks, the sweep that reclaims marked and expired entries, the reclaiming of unowned
  copies, and the two clears.
\<close>

section \<open>Marks\<close>

text \<open>Only the marks of key \<open>k\<close> change.\<close>

definition remarked :: "'l env \<Rightarrow> key \<Rightarrow> bool \<Rightarrow> 'l cache \<Rightarrow> 'l cache \<Rightarrow> bool" where
  "remarked E k b c c' \<longleftrightarrow>
     peek E c' = peek E c \<and> is_marked c' = (is_marked c)(k := b) \<and> same_core c c' \<and> ids_kept c c'
     \<and> c_clock c' = c_clock c
     \<and> c_marked c' = c_marked c + (of_bool b - of_bool (is_marked c k))"

text \<open>What the sweep makes of an entry of key \<open>k\<close> whose turn has come.\<close>

definition sweep_fate ::
    "instant \<Rightarrow> bool \<Rightarrow> (key \<Rightarrow> bool option) option \<Rightarrow> bool \<Rightarrow> key \<Rightarrow> entry option \<Rightarrow> entry option" where
  "sweep_fate now include_marked owned marked k e =
     (case e of
        None \<Rightarrow> None
      | Some x \<Rightarrow>
          if is_expired_at x now then None
          else if include_marked \<and> marked \<and> (case owned of None \<Rightarrow> True | Some f \<Rightarrow> f k = Some False) then None
          else Some x)"

declare sweep_loop.simps(2) [simp del]

context lru_cache
begin

text \<open>Replacing the set of marks of one namespace.\<close>

lemma remark_step:
  assumes inv: "cache_inv E lru_wf c" and slot: "map_of (c_slots c) sid = Some ns"
    and ns': "ns' = ns\<lparr>ns_migrated := ms, ns_used_bytes := ns_used_bytes ns + d\<rparr>"
    and ms: "distinct ms" "set ms \<subseteq> dom (map_of (ns_items E ns))"
    and d: "sum_list (map mark_charge ms) = sum_list (map mark_charge (ns_migrated ns)) + d"
    and c': "c' = put_slot sid ns' (c\<lparr>c_used_bytes := c_used_bytes c + d, c_marked := c_marked c + m\<rparr>)"
    and m: "int (length ms) = int (length (ns_migrated ns)) + m"
  shows "cache_inv E lru_wf c'" and "peek E c' = peek E c" and "ids_kept c c'" and "same_core c c'"
    and "is_marked c' x = (if key_namespace x = ns_name ns then key_name x \<in> set ms else is_marked c x)"
proof -
  note inv' = inv [unfolded cache_inv_def]
  have nsi: "ns_inv E lru_wf (c_clock c) ns" by (rule inv_ns [OF inv' slot])
  have items: "ns_items E ns' = ns_items E ns" by (simp add: ns' ns_items_def)
  have digests: "digests_ok E ns' = digests_ok E ns" by (simp add: digests_ok_def items) (simp add: ns')
  have "ns_true_bytes E ns' = ns_true_bytes E ns + d"
    by (simp add: ns_true_bytes_def items) (simp add: ns' d)
  then have nsi': "ns_inv E lru_wf (c_clock c') ns'"
    using nsi ms by (simp add: ns_inv_def items ns_stamps_def digests) (simp add: ns' c' put_slot_def)
  have step: "slot_step E sid ns ns' c c'"
    by (simp add: slot_step_def slot c' put_slot_def items ns_stamps_def) (simp add: ns' m)
  have ne: "ns_items E ns' \<noteq> []"
    using inv_slot [OF inv' slot] by (simp add: slot_inv_def items)
  show *: "cache_inv E lru_wf c'"
    unfolding cache_inv_def by (rule put_slot_inv [OF inv' step nsi']) (use ne in auto)
  show "peek E c' = peek E c"
    using peek_step [OF inv' step * [unfolded cache_inv_def]] peek_in [OF inv' slot] items
    by (auto simp: fun_eq_iff) (metis new_key_collapse)
  show "ids_kept c c'" by (rule ids_kept_step [OF step])
  show "same_core c c'" by (simp add: same_core_def c' put_slot_def)
  show "is_marked c' x = (if key_namespace x = ns_name ns then key_name x \<in> set ms else is_marked c x)"
    by (simp add: is_marked_slot slot_of_step [OF inv_index [OF inv'] step] ns')
qed

lemma marked_slot:
  assumes "cache_inv_but E lru_wf X c" and "map_of (c_slots c) sid = Some ns"
  shows "is_marked c (new_key (ns_name ns) n) \<longleftrightarrow> n \<in> set (ns_migrated ns)"
  using slot_of_Some [OF inv_index [OF assms(1)], of "ns_name ns" ns] assms(2) by (auto simp: is_marked_slot)

lemma mark_migrated_spec:
  assumes inv: "cache_inv E lru_wf c"
  shows "cache_inv E lru_wf (mark_migrated E k c)" and "remarked E k (peek E c k \<noteq> None) c (mark_migrated E k c)"
proof -
  note inv' = inv [unfolded cache_inv_def]
  have "cache_inv E lru_wf (mark_migrated E k c) \<and> remarked E k (peek E c k \<noteq> None) c (mark_migrated E k c)"
  proof (cases rule: resolves_slot [OF inv' resolves_find, of "key_namespace k"])
    case 1
    then have none: "peek E c k = None" by (metis new_key_collapse)
    then have "\<not> is_marked c k" using marked_present [OF inv', of k] by auto
    moreover have "mark_migrated E k c = c"
      using 1(1) by (auto simp: mark_migrated_def split: Option.bind_splits option.splits)
    ultimately show ?thesis using inv none by (auto simp: remarked_def fun_eq_iff)
  next
    case (2 sid ns)
    have peek: "peek E c k = map_of (ns_items E ns) (key_name k)" using 2(4) [of "key_name k"] by simp
    have m: "is_marked c k \<longleftrightarrow> key_name k \<in> set (ns_migrated ns)"
      using marked_slot [OF inv' 2(2), of "key_name k"] 2(3) by simp
    have nsi: "ns_inv E lru_wf (c_clock c) ns" by (rule inv_ns [OF inv' 2(2)])
    have con: "lru_contains E (ns_entries ns) (key_name k) \<longleftrightarrow> peek E c k \<noteq> None"
      using ns_inv_wf [OF nsi] by (simp add: peek ns_items_def map_of_eq_None_iff)
    have find: "find_namespace c (key_namespace k) = Some sid" using 2(1) by simp
    show ?thesis
    proof (cases "peek E c k \<noteq> None \<and> \<not> is_marked c k")
      case False
      then have "mark_migrated E k c = c" using find 2(2) con m by (auto simp: mark_migrated_def)
      moreover have "is_marked c k = (peek E c k \<noteq> None)" using False marked_present [OF inv', of k] by auto
      ultimately show ?thesis using inv by (auto simp: remarked_def fun_eq_iff)
    next
      case True
      have eq: "mark_migrated E k c = put_slot sid (ns\<lparr>ns_migrated := key_name k # ns_migrated ns,
            ns_used_bytes := ns_used_bytes ns + mark_charge (key_name k)\<rparr>)
          (c\<lparr>c_used_bytes := c_used_bytes c + mark_charge (key_name k), c_marked := c_marked c + 1\<rparr>)"
        using find 2(2) con m True by (simp add: mark_migrated_def Let_def)
      note r = remark_step [OF inv 2(2) refl _ _ _ eq]
      have pre: "distinct (key_name k # ns_migrated ns)" "set (key_name k # ns_migrated ns) \<subseteq> dom (map_of (ns_items E ns))"
        using nsi True m peek by (auto simp: ns_inv_def)
      have "is_marked (mark_migrated E k c) = (is_marked c)(k := True)"
        using r(5) [OF pre] 2(3) marked_slot [OF inv' 2(2)]
        by (auto simp: fun_eq_iff) (metis new_key_collapse)+
      then show ?thesis
        using r(1-4) [OF pre] True by (auto simp: remarked_def eq put_slot_def)
    qed
  qed
  then show "cache_inv E lru_wf (mark_migrated E k c)" "remarked E k (peek E c k \<noteq> None) c (mark_migrated E k c)"
    by blast+
qed

lemma clear_migrated_mark_spec:
  assumes inv: "cache_inv E lru_wf c"
  shows "cache_inv E lru_wf (clear_migrated_mark k c)" and "remarked E k False c (clear_migrated_mark k c)"
proof -
  note inv' = inv [unfolded cache_inv_def]
  have "cache_inv E lru_wf (clear_migrated_mark k c) \<and> remarked E k False c (clear_migrated_mark k c)"
  proof (cases rule: resolves_slot [OF inv' resolves_find, of "key_namespace k"])
    case 1
    then have none: "peek E c k = None" by (metis new_key_collapse)
    then have "\<not> is_marked c k" using marked_present [OF inv', of k] by auto
    moreover have "clear_migrated_mark k c = c"
      using 1(1) by (auto simp: clear_migrated_mark_def split: Option.bind_splits option.splits)
    ultimately show ?thesis using inv by (auto simp: remarked_def fun_eq_iff)
  next
    case (2 sid ns)
    have m: "is_marked c k \<longleftrightarrow> key_name k \<in> set (ns_migrated ns)"
      using marked_slot [OF inv' 2(2), of "key_name k"] 2(3) by simp
    have nsi: "ns_inv E lru_wf (c_clock c) ns" by (rule inv_ns [OF inv' 2(2)])
    have dm: "distinct (ns_migrated ns)" "set (ns_migrated ns) \<subseteq> dom (map_of (ns_items E ns))"
      using nsi by (auto simp: ns_inv_def)
    have find: "find_namespace c (key_namespace k) = Some sid" using 2(1) by simp
    define d where "d = - (if key_name k \<in> set (ns_migrated ns) then mark_charge (key_name k) else 0)"
    have ns': "strip_mark (key_name k) ns
        = ns\<lparr>ns_migrated := removeAll (key_name k) (ns_migrated ns), ns_used_bytes := ns_used_bytes ns + d\<rparr>"
      by (cases ns) (auto simp: strip_mark_def release_mark_def d_def)
    have eq: "clear_migrated_mark k c = put_slot sid
        (ns\<lparr>ns_migrated := removeAll (key_name k) (ns_migrated ns), ns_used_bytes := ns_used_bytes ns + d\<rparr>)
        (c\<lparr>c_used_bytes := c_used_bytes c + d,
           c_marked := c_marked c + (- (if key_name k \<in> set (ns_migrated ns) then 1 else 0))\<rparr>)"
      using find 2(2) by (simp add: clear_migrated_mark_def release_mark_strip ns' d_def)
    note r = remark_step [OF inv 2(2) refl _ _ _ eq]
    have pre: "distinct (removeAll (key_name k) (ns_migrated ns))"
      "set (removeAll (key_name k) (ns_migrated ns)) \<subseteq> dom (map_of (ns_items E ns))"
      "sum_list (map mark_charge (removeAll (key_name k) (ns_migrated ns)))
        = sum_list (map mark_charge (ns_migrated ns)) + d"
      "int (length (removeAll (key_name k) (ns_migrated ns))) = int (length (ns_migrated ns))
        + (- (if key_name k \<in> set (ns_migrated ns) then 1 else 0))"
      using dm by (auto simp: distinct_removeAll sum_removeAll_distinct length_removeAll_distinct d_def)
    have "is_marked (clear_migrated_mark k c) = (is_marked c)(k := False)"
      using r(5) [OF pre] 2(3) marked_slot [OF inv' 2(2)]
      by (auto simp: fun_eq_iff) (metis new_key_collapse)+
    then show ?thesis
      using r(1-4) [OF pre] m by (auto simp: remarked_def eq put_slot_def)
  qed
  then show "cache_inv E lru_wf (clear_migrated_mark k c)" "remarked E k False c (clear_migrated_mark k c)"
    by blast+
qed

lemma clear_marks_spec:
  "cache_inv E lru_wf c \<Longrightarrow> cache_inv E lru_wf (fold clear_migrated_mark keys c)
     \<and> peek E (fold clear_migrated_mark keys c) = peek E c
     \<and> is_marked (fold clear_migrated_mark keys c) = (\<lambda>k. is_marked c k \<and> k \<notin> set keys)
     \<and> c_marked (fold clear_migrated_mark keys c) = c_marked c - int (card {k \<in> set keys. is_marked c k})
     \<and> c_pending_removal (fold clear_migrated_mark keys c) = c_pending_removal c"
proof (induction keys arbitrary: c)
  case (Cons k keys)
  let ?c = "clear_migrated_mark k c"
  note s = clear_migrated_mark_spec [OF Cons.prems, of k]
  have "{x \<in> set (k # keys). is_marked c x} = (if is_marked c k then insert k {x \<in> set keys. is_marked ?c x}
      else {x \<in> set keys. is_marked ?c x})"
    using s(2) by (auto simp: remarked_def split: if_splits)
  moreover have "k \<notin> {x \<in> set keys. is_marked ?c x}" using s(2) by (simp add: remarked_def)
  ultimately have "int (card {x \<in> set (k # keys). is_marked c x})
      = of_bool (is_marked c k) + int (card {x \<in> set keys. is_marked ?c x})"
    by simp
  then show ?case
    using Cons.IH [OF s(1)] s(2) by (auto simp: remarked_def same_core_def fun_eq_iff)
qed simp


section \<open>Clearing\<close>

lemma clear_spec:
  assumes inv: "cache_inv E lru_wf c"
  shows "\<exists>n c'. clear E namespace c = Some (n, c') \<and> cache_inv E lru_wf c'
    \<and> peek E c' = (\<lambda>k. if key_namespace k = namespace then None else peek E c k)
    \<and> is_marked c' = (\<lambda>k. key_namespace k \<noteq> namespace \<and> is_marked c k)
    \<and> c_entry_count c' = c_entry_count c - int n \<and> c_pending_removal c' = c_pending_removal c
    \<and> slot_of c' namespace = None \<and> (slot_of c namespace = None \<longrightarrow> n = 0 \<and> c' = c)
    \<and> (\<forall>ns. slot_of c namespace = Some ns \<longrightarrow> n = length (ns_items E ns))"
proof -
  note inv' = inv [unfolded cache_inv_def]
  show ?thesis
  proof (cases "map_of (c_namespaces c) namespace")
    case None
    then have "slot_of c namespace = None" by (simp add: slot_of_def)
    then show ?thesis
      using None inv by (auto simp: clear_def fun_eq_iff peek_slot [OF inv'] is_marked_slot)
  next
    case (Some sid)
    then obtain ns where slot: "map_of (c_slots c) sid = Some ns" "ns_name ns = namespace"
      using index_find [OF inv_index [OF inv']] by blast
    have so: "slot_of c namespace = Some ns" using Some slot by (simp add: slot_of_def)
    define n where "n = lru_len E (ns_entries ns)"
    define c' where "c' = c\<lparr>c_namespaces := AList.delete namespace (c_namespaces c),
        c_slots := AList.delete sid (c_slots c), c_entry_count := c_entry_count c - int n,
        c_used_bytes := c_used_bytes c - (ns_used_bytes ns + name_charge (ns_name ns)),
        c_marked := c_marked c - int (length (ns_migrated ns))\<rparr>"
    have n: "n = length (ns_items E ns)"
      using ns_inv_wf [OF inv_ns [OF inv' slot(1)]] by (simp add: n_def ns_items_def)
    have eq: "clear E namespace c = Some (n, c')"
      using Some slot(1) by (simp add: clear_def c'_def n_def Let_def)
    have drop: "slot_drop E sid ns c c'"
      using slot by (simp add: slot_drop_def c'_def n)
    have inv2: "cache_inv E lru_wf c'"
      using drop_slot_inv [OF inv' drop] by (simp add: cache_inv_def)
    have "peek E c' = (\<lambda>k. if key_namespace k = namespace then None else peek E c k)"
      using peek_drop [OF inv' drop] slot(2) by (simp add: fun_eq_iff)
    moreover have "is_marked c' = (\<lambda>k. key_namespace k \<noteq> namespace \<and> is_marked c k)"
      using slot_of_drop [OF inv_index [OF inv'] drop] slot(2) by (auto simp: fun_eq_iff is_marked_slot)
    moreover have "slot_of c' namespace = None"
      using slot_of_drop [OF inv_index [OF inv'] drop] slot(2) by simp
    ultimately show ?thesis
      using eq inv2 so n by (auto simp: c'_def)
  qed
qed

lemma clear_all_spec:
  shows "cache_inv E lru_wf (snd (clear_all c))" and "peek E (snd (clear_all c)) = (\<lambda>_. None)"
    and "c_used_bytes (snd (clear_all c)) = 0"
  by (simp_all add: clear_all_def cache_inv_def cache_inv_but_def index_inv_def stamps_unique_def totals_inv_def
      tombstones_inv_def slots_bytes_def slots_entries_def slots_marked_def tombstones_bytes_def
      peek_def [abs_def] find_namespace_def fun_eq_iff)

section \<open>Reclaiming unowned copies\<close>

lemma reclaim_loop_spec:
  assumes "cache_inv E lru_wf c" and "\<And>k. k \<in> set keys \<Longrightarrow> owned k \<noteq> None"
  shows "\<exists>c' n. reclaim_loop E owned keys n0 c = Some (n0 + n, c') \<and> cache_inv E lru_wf c'
    \<and> peek E c' = (\<lambda>k. if k \<in> set keys \<and> owned k = Some False then None else peek E c k)
    \<and> int n = c_entry_count c - c_entry_count c' \<and> c_pending_removal c' = c_pending_removal c"
  using assms
proof (induction keys arbitrary: c n0)
  case (Cons k keys)
  have IH: "\<exists>c' n. reclaim_loop E owned keys m d = Some (m + n, c') \<and> cache_inv E lru_wf c'
      \<and> peek E c' = (\<lambda>k. if k \<in> set keys \<and> owned k = Some False then None else peek E d k)
      \<and> int n = c_entry_count d - c_entry_count c' \<and> c_pending_removal c' = c_pending_removal d" if "cache_inv E lru_wf d" for d m
    using Cons.IH [OF that] Cons.prems(2) by auto
  obtain b where b: "owned k = Some b" using Cons.prems(2) [of k] by auto
  show ?case
  proof (cases "peek E c k = None \<or> b")
    case True
    then have "reclaim_loop E owned (k # keys) n0 c = reclaim_loop E owned keys n0 c" using b by auto
    with True show ?thesis using IH [OF Cons.prems(1), of n0] b by (auto simp: fun_eq_iff)
  next
    case False
    then obtain e where e: "peek E c k = Some e" by auto
    obtain c1 where c1: "remove_entry E k c = Some (Some e, c1)" "cache_inv E lru_wf c1" "deleted E k c c1"
        "c_entry_count c1 = c_entry_count c - 1"
      using remove_entry_deleted [OF Cons.prems(1), of k] e by auto
    let ?c = "forget_tombstone k c1"
    note f = forget_tombstone_spec [OF c1(2), of k]
    note f' = tomb_step_inv [OF c1(2) f] tomb_step_slots [OF f(1)]
    obtain c' n where c': "reclaim_loop E owned keys (n0 + 1) ?c = Some (n0 + 1 + n, c')" "cache_inv E lru_wf c'"
        "peek E c' = (\<lambda>k. if k \<in> set keys \<and> owned k = Some False then None else peek E ?c k)"
        "int n = c_entry_count ?c - c_entry_count c'" "c_pending_removal c' = c_pending_removal ?c"
      using IH [OF f'(1)] by blast
    have "reclaim_loop E owned (k # keys) n0 c = Some (n0 + (1 + n), c')"
      using False b e c1(1) c'(1) by simp
    moreover have "peek E c' = (\<lambda>x. if x \<in> set (k # keys) \<and> owned x = Some False then None else peek E c x)"
      using c'(3) f'(2) c1(3) b False by (auto simp: deleted_def fun_eq_iff)
    moreover have "int (1 + n) = c_entry_count c - c_entry_count c'" "c_pending_removal c' = c_pending_removal c"
      using c'(4, 5) f' c1(3, 4) by (simp_all add: deleted_def same_core_def)
    ultimately show ?thesis using c'(2) by blast
  qed
qed auto

section \<open>The sweep\<close>

lemma sweep_fate_idem:
  "sweep_fate now im owned (m \<and> \<not> im \<and> sweep_fate now im owned m k e \<noteq> None) k (sweep_fate now im owned m k e)
     = sweep_fate now im owned m k e"
  by (auto simp: sweep_fate_def split: option.splits)

text \<open>One turn of the sweep.\<close>

lemma sweep_turn:
  fixes im :: bool and now :: instant
  assumes inv: "cache_inv E lru_wf c" and q: "c_pending_removal c = k # rest"
    and total: "case owned of None \<Rightarrow> True | Some f \<Rightarrow> f k \<noteq> None"
  defines "fate \<equiv> sweep_fate now im owned (is_marked c k) k (peek E c k)"
  shows "\<exists>c1 d. sweep_loop E now im owned (Suc n) r c = sweep_loop E now im owned n (r + d) c1
    \<and> cache_inv E lru_wf c1 \<and> c_pending_removal c1 = rest \<and> d \<le> 1
    \<and> peek E c1 = (peek E c)(k := fate)
    \<and> is_marked c1 = (is_marked c)(k := is_marked c k \<and> \<not> im \<and> fate \<noteq> None)
    \<and> (d = 0 \<or> fate = None \<and> peek E c k \<noteq> None)"
proof -
  define c0 where "c0 = c\<lparr>c_pending_removal := rest\<rparr>"
  have inv0: "cache_inv E lru_wf c0" using inv by (simp add: c0_def)
  have same: "peek E c0 = peek E c" "is_marked c0 = is_marked c" "c_pending_removal c0 = rest" by (simp_all add: c0_def)
  define marked where "marked = (im \<and> is_marked c k)"
  define expired where "expired = (case peek E c k of None \<Rightarrow> False | Some e \<Rightarrow> is_expired_at e now)"
  define keep where "keep = (if marked \<and> \<not> expired then (case owned of None \<Rightarrow> Some False | Some f \<Rightarrow> f k) else Some False)"
  have unfold: "sweep_loop E now im owned (Suc n) r c = Option.bind keep (\<lambda>keep.
      if keep then sweep_loop E now im owned n r (clear_migrated_mark k c0)
      else if marked \<or> expired then Option.bind (remove_entry E k c0) (\<lambda>(entry, c).
        if entry = None then sweep_loop E now im owned n r c
        else let c = (if marked then forget_tombstone k c else c);
                 c = (if expired then c\<lparr>c_expirations := c_expirations c + 1\<rparr> else c)
             in sweep_loop E now im owned n (r + 1) c)
      else sweep_loop E now im owned n r c0)"
    by (simp only: sweep_loop.simps(2) q list.case Let_def c0_def marked_def expired_def keep_def
        peek_counters is_marked_counters)
  have present: "peek E c k \<noteq> None" if "is_marked c k"
    by (rule marked_present [OF inv [unfolded cache_inv_def] that])
  obtain b where b: "keep = Some b"
    using total by (cases "\<exists>b. keep = Some b") (auto simp: keep_def split: option.splits if_splits)
  consider (keep) "b" | (drop) "\<not> b" "marked \<or> expired" | (stay) "\<not> b" "\<not> marked" "\<not> expired" by blast
  then show ?thesis
  proof cases
    case keep
    then have m: "marked" "\<not> expired" "\<exists>f. owned = Some f \<and> f k = Some True"
      using b by (auto simp: keep_def split: if_splits option.splits)
    then have "fate = peek E c k"
      by (auto simp: fate_def sweep_fate_def marked_def expired_def split: option.splits)
    moreover have "sweep_loop E now im owned (Suc n) r c = sweep_loop E now im owned n (r + 0) (clear_migrated_mark k c0)"
      unfolding unfold using keep b by simp
    ultimately show ?thesis
      using clear_migrated_mark_spec [OF inv0, of k] m(1) same
      by (intro exI [of _ "clear_migrated_mark k c0"] exI [of _ 0])
         (simp add: remarked_def marked_def same_core_def fun_eq_iff)
  next
    case stay
    then have "fate = peek E c k" "\<not> (is_marked c k \<and> im)"
      by (auto simp: fate_def sweep_fate_def marked_def expired_def split: option.splits)
    moreover have "sweep_loop E now im owned (Suc n) r c = sweep_loop E now im owned n (r + 0) c0"
      unfolding unfold using stay b by simp
    ultimately show ?thesis
      using inv0 same present by (intro exI [of _ c0] exI [of _ 0]) (auto simp: fun_eq_iff)
  next
    case drop
    then obtain e where e: "peek E c k = Some e"
      using present by (auto simp: marked_def expired_def split: option.splits)
    have fate: "fate = None"
      using drop b e total by (auto simp: fate_def sweep_fate_def marked_def expired_def keep_def split: option.splits if_splits)
    obtain c1 where c1: "remove_entry E k c0 = Some (Some e, c1)" "cache_inv E lru_wf c1" "deleted E k c0 c1"
      using remove_entry_deleted [OF inv0, of k] e same by auto
    define c2 where "c2 = (if marked then forget_tombstone k c1 else c1)"
    have c2: "cache_inv E lru_wf c2" "peek E c2 = peek E c1" "is_marked c2 = is_marked c1" "c_pending_removal c2 = c_pending_removal c1"
      using forget_tombstone_spec [OF c1(2), of k] tomb_step_inv [OF c1(2), of c2] tomb_step_slots(4) [of c1 c2] c1(2)
      by (auto simp: c2_def)
    let ?c3 = "if expired then c2\<lparr>c_expirations := c_expirations c2 + 1\<rparr> else c2"
    have "sweep_loop E now im owned (Suc n) r c = sweep_loop E now im owned n (r + 1) ?c3"
      unfolding unfold using b drop c1(1) by (simp add: c2_def Let_def)
    moreover have "cache_inv E lru_wf ?c3" "peek E ?c3 = (peek E c)(k := fate)"
      "is_marked ?c3 = (is_marked c)(k := is_marked c k \<and> \<not> im \<and> fate \<noteq> None)" "c_pending_removal ?c3 = rest"
      using c2 c1(3) same fate by (auto simp: deleted_def same_core_def fun_eq_iff)
    ultimately show ?thesis using fate e by blast
  qed
qed

lemma sweep_loop_spec:
  assumes "cache_inv E lru_wf c"
    and "\<And>k. k \<in> set (c_pending_removal c) \<Longrightarrow> (case owned of None \<Rightarrow> True | Some f \<Rightarrow> f k \<noteq> None)"
  shows "\<exists>m c'. sweep_loop E now im owned n r c = Some (r + m, c') \<and> cache_inv E lru_wf c' \<and> m \<le> n
    \<and> ((\<forall>k \<in> set (c_pending_removal c). peek E c k = None) \<longrightarrow> m = 0)
    \<and> c_pending_removal c' = drop n (c_pending_removal c)
    \<and> peek E c' = (\<lambda>k. if k \<in> set (take n (c_pending_removal c))
         then sweep_fate now im owned (is_marked c k) k (peek E c k) else peek E c k)"
  using assms
proof (induction n arbitrary: r c)
  case (Suc n)
  show ?case
  proof (cases "c_pending_removal c")
    case Nil
    then show ?thesis using Suc.prems by (auto simp: sweep_loop.simps(2))
  next
    case (Cons k rest)
    then have total: "case owned of None \<Rightarrow> True | Some f \<Rightarrow> f k \<noteq> None" using Suc.prems(2) by simp
    let ?fate = "sweep_fate now im owned (is_marked c k) k (peek E c k)"
    from sweep_turn [OF Suc.prems(1) Cons total, of now im n r] obtain c1 d where
      t: "sweep_loop E now im owned (Suc n) r c = sweep_loop E now im owned n (r + d) c1"
      "cache_inv E lru_wf c1" "c_pending_removal c1 = rest" "d \<le> 1"
      "peek E c1 = (peek E c)(k := ?fate)"
      "is_marked c1 = (is_marked c)(k := is_marked c k \<and> \<not> im \<and> ?fate \<noteq> None)" "d = 0 \<or> peek E c k \<noteq> None"
      by blast
    have "\<And>x. x \<in> set (c_pending_removal c1) \<Longrightarrow> (case owned of None \<Rightarrow> True | Some f \<Rightarrow> f x \<noteq> None)"
      using Suc.prems(2) Cons t(3) by simp
    from Suc.IH [OF t(2) this, of "r + d"] obtain m c' where
      c': "sweep_loop E now im owned n (r + d) c1 = Some (r + d + m, c')" "cache_inv E lru_wf c'" "m \<le> n"
      "c_pending_removal c' = drop n rest"
      "peek E c' = (\<lambda>k. if k \<in> set (take n rest)
         then sweep_fate now im owned (is_marked c1 k) k (peek E c1 k) else peek E c1 k)"
      "(\<forall>k \<in> set rest. peek E c1 k = None) \<longrightarrow> m = 0"
      using t(3) by auto
    have "sweep_fate now im owned (is_marked c1 k) k (peek E c1 k) = ?fate"
      using sweep_fate_idem [of now im owned "is_marked c k" k "peek E c k"] t(5, 6) by simp
    then have "peek E c' = (\<lambda>x. if x \<in> set (take (Suc n) (c_pending_removal c))
         then sweep_fate now im owned (is_marked c x) x (peek E c x) else peek E c x)"
      using c'(5) t(5, 6) Cons by (auto simp: fun_eq_iff)
    moreover have "d + m = 0" if "\<forall>x \<in> set (c_pending_removal c). peek E c x = None"
      using that Cons t(5, 7) c'(6) by (auto simp: sweep_fate_def)
    ultimately show ?thesis
      using t(1, 4) c'(1-4) Cons by (intro exI [of _ "d + m"] exI [of _ c']) (simp add: add.assoc)
  qed
qed auto

end

end
