(* ===== verification/Cache_View.thy ===== *)
theory Cache_View
  imports Cache_Sweep
begin

text \<open>
  What a client can observe of the store at an instant: a map from keys to a value and its expiry,
  without the entries that have expired. This is the abstraction under which every operation is
  stated as an update of a map; recency, charges, marks and counters are not visible in it.
\<close>

section \<open>The view\<close>

type_synonym stored = "bytes \<times> instant option"
type_synonym view = "key \<Rightarrow> stored option"

definition unexpired :: "instant \<Rightarrow> stored \<Rightarrow> stored option" where
  "unexpired now s = (case snd s of None \<Rightarrow> Some s | Some t \<Rightarrow> if t \<le> now then None else Some s)"

definition view :: "'l env \<Rightarrow> instant \<Rightarrow> 'l cache \<Rightarrow> view" where
  "view E now c = (\<lambda>k. Option.bind (peek E c k) (\<lambda>e. unexpired now (e_value e, e_expires_at e)))"

text \<open>The passage of time, a write, and a change of expiry of the keys in a set.\<close>

definition expire :: "instant \<Rightarrow> view \<Rightarrow> view" where
  "expire now m = (\<lambda>k. Option.bind (m k) (unexpired now))"

definition put_view :: "instant \<Rightarrow> key \<Rightarrow> stored \<Rightarrow> view \<Rightarrow> view" where
  "put_view now k s m = m(k := unexpired now s)"

definition retime :: "instant \<Rightarrow> instant option \<Rightarrow> key set \<Rightarrow> view \<Rightarrow> view" where
  "retime now x K m = (\<lambda>k. if k \<in> K then Option.bind (m k) (\<lambda>s. unexpired now (fst s, x)) else m k)"

text \<open>
  The store follows a map, except that entries may have been evicted: what it shows is what the map
  has, and all of it if nothing was evicted.
\<close>

definition shows_but_evicted :: "'l env \<Rightarrow> instant \<Rightarrow> view \<Rightarrow> 'l cache \<Rightarrow> 'l cache \<Rightarrow> bool" where
  "shows_but_evicted E now m c c' \<longleftrightarrow>
     view E now c' \<subseteq>\<^sub>m m \<and> (c_evictions c' = c_evictions c \<longrightarrow> view E now c' = m)"

text \<open>The values a batch answers under a bound on their total size.\<close>

definition fits :: "nat option \<Rightarrow> nat \<Rightarrow> bytes \<Rightarrow> bool" where
  "fits bound used v = (case bound of None \<Rightarrow> True | Some b \<Rightarrow> used < b \<and> used + length v \<le> b)"

fun within_bound :: "nat option \<Rightarrow> nat \<Rightarrow> bytes option list \<Rightarrow> bytes option list" where
  "within_bound bound used [] = []"
| "within_bound bound used (None # vs) = None # within_bound bound used vs"
| "within_bound bound used (Some v # vs) =
     (if fits bound used v then Some v # within_bound bound (used + length v) vs
      else None # within_bound bound used vs)"

section \<open>Facts\<close>

lemma live_entry_view:
  "view E now c k = map_option (\<lambda>e. (e_value e, e_expires_at e)) (live_entry E now c k)"
  by (auto simp: view_def live_entry_def unexpired_def is_expired_at_def split: option.splits)

lemma view_eq_None: "view E now c k = None \<longleftrightarrow> live_entry E now c k = None"
  by (simp add: live_entry_view)

lemma live_value_view: "map_option fst (view E now c k) = map_option e_value (live_entry E now c k)"
  by (simp add: live_entry_view option.map_comp comp_def)

lemma unexpired_idem:
  "unexpired now s = Some s' \<Longrightarrow> s' = s" "unexpired now s = Some s' \<Longrightarrow> unexpired now s' = Some s'"
  by (auto simp: unexpired_def split: option.splits if_splits)

lemma unexpired_later: "now \<le> now' \<Longrightarrow> Option.bind (unexpired now s) (unexpired now') = unexpired now' s"
  by (auto simp: unexpired_def split: option.splits)

lemma view_later: "now \<le> now' \<Longrightarrow> view E now' c = expire now' (view E now c)"
  by (auto simp: view_def expire_def unexpired_later fun_eq_iff split: Option.bind_splits)

lemma expire_view [simp]: "expire now (view E now c) = view E now c"
  using view_later [of now now E c] by simp

lemma view_unexpired: "view E now c k = Some s \<Longrightarrow> unexpired now s = Some s"
  by (auto simp: view_def unexpired_idem split: Option.bind_splits)

lemma view_written:
  assumes "written E x k e c c'"
  shows "shows_but_evicted E now (put_view now k (e_value e, e_expires_at e) (view E now c)) c c'"
proof -
  have "peek E c' k = Some e" and others: "\<And>k'. k' \<noteq> k \<Longrightarrow> peek E c' k' = None \<or> peek E c' k' = peek E c k'"
    and all: "c_evictions c' = c_evictions c \<longrightarrow> peek E c' = (peek E c)(k \<mapsto> e)"
    using assms by (auto simp: written_def)
  then have "view E now c' k' = put_view now k (e_value e, e_expires_at e) (view E now c) k'
      \<or> k' \<notin> dom (view E now c')" for k'
    using others [of k'] by (cases "k' = k"; cases "peek E c' k'") (auto simp: view_def put_view_def dom_def)
  then have "view E now c' \<subseteq>\<^sub>m put_view now k (e_value e, e_expires_at e) (view E now c)"
    unfolding map_le_def by blast
  then show ?thesis
    using all by (auto simp: shows_but_evicted_def view_def put_view_def fun_eq_iff)
qed

lemma view_looked_up:
  assumes "looked_up E now k f c c'" and "\<And>e. e_value (f e) = e_value e" and "\<And>e. e_expires_at (f e) = e_expires_at e"
  shows "view E now c' = view E now c"
  using assms by (auto simp: looked_up_def view_def live_entry_def fun_eq_iff unexpired_def is_expired_at_def
      split: option.splits)

lemma view_retimed:
  assumes "looked_up E now k f c c'" and "\<And>e. e_value (f e) = e_value e" and "\<And>e. e_expires_at (f e) = x"
  shows "view E now c' = retime now x {k} (view E now c)"
  using assms by (auto simp: looked_up_def view_def live_entry_def retime_def fun_eq_iff unexpired_def is_expired_at_def
      split: option.splits)

lemma view_deleted: "deleted E k c c' \<Longrightarrow> view E now c' = (view E now c)(k := None)"
  by (auto simp: deleted_def view_def)

lemma view_peek: "peek E c' = peek E c \<Longrightarrow> view E now c' = view E now c"
  by (simp add: view_def)

lemma view_counters [simp]:
  "view E now (c\<lparr>c_sets := i\<rparr>) = view E now c" "view E now (c\<lparr>c_incrs := i\<rparr>) = view E now c"
  "view E now (c\<lparr>c_cas_sets := i\<rparr>) = view E now c" "view E now (c\<lparr>c_deletes := i\<rparr>) = view E now c"
  "view E now (note_handoff t ahead c) = view E now c"
  by (simp_all add: view_def peek_def find_namespace_def note_handoff_def)

lemma shows_counters [simp]:
  "shows_but_evicted E now m (c\<lparr>c_sets := i\<rparr>) c' = shows_but_evicted E now m c c'"
  "shows_but_evicted E now m (c\<lparr>c_incrs := i\<rparr>) c' = shows_but_evicted E now m c c'"
  "shows_but_evicted E now m (c\<lparr>c_cas_sets := i\<rparr>) c' = shows_but_evicted E now m c c'"
  "shows_but_evicted E now m (note_handoff t ahead c) c' = shows_but_evicted E now m c c'"
  by (simp_all add: shows_but_evicted_def note_handoff_def)

lemma shows_exactly: "view E now c' = m \<Longrightarrow> shows_but_evicted E now m c c'"
  by (simp add: shows_but_evicted_def)

lemma within_bound_length [simp]: "length (within_bound bound used vs) = length vs"
  by (induction bound used vs rule: within_bound.induct) auto

lemma within_bound_full [simp]: "b \<le> used \<Longrightarrow> within_bound (Some b) used vs = map (\<lambda>_. None) vs"
  by (induction "Some b" used vs rule: within_bound.induct) (auto simp: fits_def)

lemma retime_retime [simp]: "retime now x A (retime now x B m) = retime now x (A \<union> B) m"
  by (auto simp: retime_def fun_eq_iff unexpired_idem dest: unexpired_idem split: Option.bind_splits)

lemma retime_insert: "retime now x {k} m = m \<Longrightarrow> retime now x (insert k K) m = retime now x K m"
  by (metis Un_insert_right retime_retime sup_bot_right)

lemma unexpired_expiry: "ttl \<noteq> Some 0 \<Longrightarrow> unexpired now (v, expiry_of now ttl) = Some (v, expiry_of now ttl)"
  by (cases ttl) (auto simp: unexpired_def expiry_of_def instant_checked_add_def)

lemma within_bound_None [simp]: "within_bound None used vs = vs"
  by (induction "None :: nat option" used vs rule: within_bound.induct) (auto simp: fits_def)

lemma retime_empty [simp]: "retime now x {} m = m"
  by (simp add: retime_def)

section \<open>Which keys an operation may add\<close>

definition grown :: "'l env \<Rightarrow> key set \<Rightarrow> 'l cache \<Rightarrow> 'l cache \<Rightarrow> bool" where
  "grown E K c c' \<longleftrightarrow>
     dom (peek E c') \<subseteq> dom (peek E c) \<union> K \<and> c_pending_removal c' = c_pending_removal c"

lemma grown_refl [simp]: "grown E K c c"
  by (simp add: grown_def)

lemma grown_trans: "grown E A a b \<Longrightarrow> grown E B b c \<Longrightarrow> grown E (A \<union> B) a c"
  by (simp add: grown_def) blast

lemma grown_mono: "grown E A c c' \<Longrightarrow> A \<subseteq> B \<Longrightarrow> grown E B c c'"
  unfolding grown_def by blast

lemma grown_counters [simp]:
  "grown E K (c\<lparr>c_sets := i\<rparr>) c' = grown E K c c'" "grown E K (c\<lparr>c_incrs := i\<rparr>) c' = grown E K c c'"
  "grown E K (c\<lparr>c_cas_sets := i\<rparr>) c' = grown E K c c'" "grown E K (note_handoff now ahead c) c' = grown E K c c'"
  "grown E K c (c'\<lparr>c_deletes := i\<rparr>) = grown E K c c'"
  by (simp_all add: grown_def dom_def peek_def find_namespace_def note_handoff_def)

lemma grown_same_peek: "peek E c' = peek E c \<Longrightarrow> c_pending_removal c' = c_pending_removal c \<Longrightarrow> grown E K c c'"
  by (simp add: grown_def)

lemma grown_written: "written E x k e c c' \<Longrightarrow> grown E {k} c c'"
  using written_pending [of E x k e c c'] by (auto simp: grown_def written_def dom_def)

lemma grown_looked_up: "looked_up E now k f c c' \<Longrightarrow> grown E K c c'"
  by (auto simp: grown_def looked_up_def same_core_def live_entry_def split: option.splits if_splits)

lemma grown_deleted: "deleted E k c c' \<Longrightarrow> grown E K c c'"
  by (auto simp: grown_def deleted_def same_core_def split: if_splits)

end
