(* ===== verification/Cache_Batch.thy ===== *)
theory Cache_Batch
  imports Cache_View
begin

text \<open>
  The multi-key frames. A batch resolves its namespace once; that is the same as resolving it for
  every key. The replies never carry more value bytes than the caller allows.
\<close>

section \<open>Per-key references\<close>

text \<open>One \<open>set\<close> (with or without a TTL) per item.\<close>

fun set_each ::
    "'l env \<Rightarrow> bytes \<Rightarrow> instant option \<Rightarrow> (bytes \<times> bytes) list \<Rightarrow> 'l cache \<Rightarrow> 'l cache option" where
  "set_each E n expires_at [] c = Some c"
| "set_each E n expires_at ((name, v) # items) c =
     Option.bind (cache_insert E (new_key n name) v expires_at (c\<lparr>c_sets := c_sets c + 1\<rparr>))
       (set_each E n expires_at items)"

text \<open>One \<open>get\<close> per name, until \<open>max\<close> bytes of values have been answered.\<close>

fun get_each ::
    "'l env \<Rightarrow> bytes \<Rightarrow> instant \<Rightarrow> nat \<Rightarrow> nat \<Rightarrow> bytes list \<Rightarrow> 'l cache \<Rightarrow> (bytes option list \<times> 'l cache) option" where
  "get_each E n now max_bytes used [] c = Some ([], c)"
| "get_each E n now max_bytes used (name # names) c =
     (if max_bytes \<le> used then map_option (\<lambda>(rs, c). (None # rs, c)) (get_each E n now max_bytes used names c)
      else Option.bind (get_at E (new_key n name) now c) (\<lambda>(v, c).
        let fits = (case v of None \<Rightarrow> False | Some b \<Rightarrow> used + length b \<le> max_bytes)
        in map_option (\<lambda>(rs, c). ((if fits then v else None) # rs, c))
             (get_each E n now max_bytes (if fits then used + length (the v) else used) names c)))"

text \<open>The bytes of the values in a reply.\<close>

definition reply_bytes :: "bytes option list \<Rightarrow> nat" where
  "reply_bytes rs = sum_list (map (\<lambda>r. case r of None \<Rightarrow> 0 | Some v \<Rightarrow> length v) rs)"

text \<open>The keys a batch of touches answered for.\<close>

definition touched_keys :: "bytes \<Rightarrow> bytes list \<Rightarrow> bytes option list \<Rightarrow> key set" where
  "touched_keys n names rs = {new_key n name | name v. (name, Some v) \<in> set (zip names rs)}"

lemma touched_keys_simps [simp]:
  "touched_keys n [] rs = {}" "touched_keys n (name # names) (None # rs) = touched_keys n names rs"
  "touched_keys n (name # names) (Some v # rs) = insert (new_key n name) (touched_keys n names rs)"
  by (auto simp: touched_keys_def)

text \<open>What a batch of touches answers for a name, given the values it has already expired.\<close>

definition touch_answer :: "bytes \<Rightarrow> (bytes \<times> bytes) list \<Rightarrow> view \<Rightarrow> bytes \<Rightarrow> bytes option" where
  "touch_answer n touched m name =
     (case map_of touched name of Some v \<Rightarrow> Some v | None \<Rightarrow> map_option fst (m (new_key n name)))"

lemma saturating_over:
  assumes "bound \<le> U64_MAX" and "bound \<noteq> U64_MAX"
  shows "bound < saturating_add used l \<longleftrightarrow> bound < used + l"
    and "used + l \<le> bound \<Longrightarrow> saturating_add used l = used + l"
  using assms by (auto simp: saturating_add_def)

lemma touch_answer_kept:
  assumes "map_of touched name = None" and "m (new_key n name) = Some s"
  shows "touch_answer n (if ttl = Some 0 then AList.update name (fst s) touched else touched)
      (retime now (expiry_of now ttl) {new_key n name} m) = touch_answer n touched m"
  using assms
  by (auto simp: fun_eq_iff touch_answer_def retime_def unexpired_expiry update_conv new_key_def split: option.splits)

lemma touched_settled:
  assumes "\<forall>name \<in> dom (map_of touched). retime now x {new_key n name} m = m"
  shows "\<forall>name' \<in> dom (map_of (if b then AList.update name v touched else touched)).
    retime now x {new_key n name'} (retime now x {new_key n name} m) = retime now x {new_key n name} m"
proof
  fix name'
  assume d: "name' \<in> dom (map_of (if b then AList.update name v touched else touched))"
  show "retime now x {new_key n name'} (retime now x {new_key n name} m) = retime now x {new_key n name} m"
  proof (cases "name' = name")
    case False
    then have "name' \<in> dom (map_of touched)" using d by (auto simp: update_conv split: if_splits)
    then show ?thesis using assms by (metis retime_retime sup_commute)
  qed simp
qed

lemma reply_bytes_simps [simp]:
  "reply_bytes [] = 0" "reply_bytes (None # rs) = reply_bytes rs"
  "reply_bytes (Some v # rs) = length v + reply_bytes rs"
  by (simp_all add: reply_bytes_def)

lemma bind_pair_map: "Option.bind a (\<lambda>(x, y). Some (f x y)) = map_option (\<lambda>(x, y). f x y) a"
  by (cases a) auto

context lru_cache
begin

lemma inv_sets: "cache_inv E lru_wf c \<Longrightarrow> cache_inv E lru_wf (c\<lparr>c_sets := n\<rparr>)"
  by simp

lemma ensure_existing:
  assumes "cache_inv E lru_wf c" and "map_of (c_slots c) s = Some ns"
  shows "ensure_namespace E (ns_name ns) c = (s, c)"
  using index_slot [OF inv_index [OF assms(1) [unfolded cache_inv_def]] assms(2)]
  by (simp add: ensure_namespace_def find_namespace_def)

lemma set_many_loop_eq:
  assumes "cache_inv E lru_wf c"
    and "\<And>s ns. sid = Some s \<Longrightarrow> map_of (c_slots c) s = Some ns \<Longrightarrow> ns_name ns = n"
  shows "set_many_loop E n expires_at sid items c = set_each E n expires_at items c"
  using assms
proof (induction items arbitrary: sid c)
  case (Cons item items)
  obtain name v where item: "item = (name, v)" by fastforce
  let ?c = "c\<lparr>c_sets := c_sets c + 1\<rparr>"
  have inv: "cache_inv E lru_wf ?c" using Cons.prems(1) by simp
  obtain live c1 where live: "(case sid of
          Some s \<Rightarrow> if map_of (c_slots ?c) s \<noteq> None then (s, ?c) else ensure_namespace E n ?c
        | None \<Rightarrow> ensure_namespace E n ?c) = (live, c1)" by fastforce
  have ens: "ensure_namespace E n ?c = (live, c1)"
  proof (cases "\<exists>s ns. sid = Some s \<and> map_of (c_slots ?c) s = Some ns")
    case True
    then obtain s ns where s: "sid = Some s" "map_of (c_slots ?c) s = Some ns" by blast
    then have "ns_name ns = n" using Cons.prems(2) by simp
    then show ?thesis using ensure_existing [OF inv s(2)] live s by auto
  next
    case False
    then show ?thesis using live by (auto split: option.splits if_splits)
  qed
  obtain ns where ns: "map_of (c_slots c1) live = Some ns" "ns_name ns = n"
    using ensure_namespace_inv(2) [OF inv ens] by blast
  obtain c2 where c2: "insert_into E live name v expires_at c1 = Some c2" "cache_inv E lru_wf c2"
      "\<exists>ns'. map_of (c_slots c2) live = Some ns' \<and> ns_name ns' = ns_name ns"
    using insert_into_spec [OF ensure_namespace_inv(1) [OF inv ens] ns(1) refl refl] by blast
  have "set_many_loop E n expires_at sid (item # items) c = set_many_loop E n expires_at (Some live) items c2"
    by (simp only: item set_many_loop.simps Let_def live prod.case c2(1) Option.bind.simps)
  moreover have "set_each E n expires_at (item # items) c = set_each E n expires_at items c2"
    using ens c2(1) by (simp add: item cache_insert_def)
  moreover have "set_many_loop E n expires_at (Some live) items c2 = set_each E n expires_at items c2"
    using c2(3) ns(2) by (intro Cons.IH c2(2)) auto
  ultimately show ?case by simp
qed simp

lemma get_many_loop_eq:
  assumes "cache_inv E lru_wf c" and "resolves c n sid"
  shows "get_many_loop E sid now max_bytes used names c = get_each E n now max_bytes used names c"
  using assms
proof (induction names arbitrary: used c)
  case (Cons name names)
  show ?case
  proof (cases "max_bytes \<le> used")
    case True
    then show ?thesis using Cons.IH [OF Cons.prems, of used] by (auto simp: bind_pair_map)
  next
    case False
    let ?c = "c\<lparr>c_clock := c_clock c + 1\<rparr>" and ?k = "new_key n name"
    have r: "resolves ?c n sid" using Cons.prems(2) by (simp add: resolves_def slot_of_def)
    have invt: "cache_inv_but E lru_wf {} ?c"
      using inv_clock [OF Cons.prems(1) [unfolded cache_inv_def]] by simp
    obtain v c1 where g: "get_at E ?k now c = Some (v, c1)" "cache_inv E lru_wf c1"
        "looked_up E now ?k (\<lambda>e. e\<lparr>e_last_used := c_clock c + 1\<rparr>) c c1"
      using get_at_spec [OF Cons.prems(1), of ?k now] by blast
    have gi: "get_in E sid name now (c_clock c + 1) ?c = Some (v, c1)"
      using g(1) get_in_resolved [OF invt r, of name now "c_clock c + 1"]
      by (simp add: get_at_def tick_def find_namespace_def)
    have r1: "resolves c1 n sid"
      using resolves_kept [OF Cons.prems(1) [unfolded cache_inv_def] g(2) [unfolded cache_inv_def] _ Cons.prems(2)] g(3)
      by (simp add: looked_up_def)
    define ok where "ok = (case v of None \<Rightarrow> False | Some b \<Rightarrow> used + length b \<le> max_bytes)"
    define used' where "used' = (if ok then used + length (the v) else used)"
    note IH = Cons.IH [OF g(2) r1, of used']
    have "get_many_loop E sid now max_bytes used (name # names) c =
        map_option (\<lambda>(rs, c). ((if ok then v else None) # rs, c)) (get_many_loop E sid now max_bytes used' names c1)"
      using False gi by (cases v) (simp_all add: tick_def ok_def used'_def bind_pair_map)
    moreover have "get_each E n now max_bytes used (name # names) c =
        map_option (\<lambda>(rs, c). ((if ok then v else None) # rs, c)) (get_each E n now max_bytes used' names c1)"
      using False g(1) by (simp add: ok_def [symmetric] used'_def Let_def)
    ultimately show ?thesis using IH by simp
  qed
qed simp


lemma live_value_len_eq:
  assumes inv: "cache_inv_but E lru_wf X c" and r: "resolves c n sid"
  shows "live_value_len E sid name now c = map_option (\<lambda>e. length (e_value e)) (live_entry E now c (new_key n name))"
  using inv r
proof (cases rule: resolves_slot)
  case absent
  then show ?thesis by (auto simp: live_value_len_def live_entry_def split: Option.bind_splits)
next
  case (present s ns)
  then show ?thesis
    using ns_inv_wf [OF inv_ns [OF inv present(2)]]
    by (auto simp: live_value_len_def live_entry_def ns_items_def split: option.splits)
qed

text \<open>A batch of sets writes its items in order.\<close>

lemma put_view_mono: "m \<subseteq>\<^sub>m m' \<Longrightarrow> put_view now k s m \<subseteq>\<^sub>m put_view now k s m'"
  by (auto simp: map_le_def put_view_def split: if_splits)

lemma put_views_mono:
  "m \<subseteq>\<^sub>m m' \<Longrightarrow> fold (\<lambda>(name, v). put_view now (new_key n name) (v, x)) items m
     \<subseteq>\<^sub>m fold (\<lambda>(name, v). put_view now (new_key n name) (v, x)) items m'"
  by (induction items arbitrary: m m') (auto simp: put_view_mono)

lemma set_each_spec:
  assumes "cache_inv E lru_wf c"
  shows "\<exists>c'. set_each E n x items c = Some c' \<and> cache_inv E lru_wf c'
    \<and> grown E (new_key n ` fst ` set items) c c' \<and> c_evictions c \<le> c_evictions c'
    \<and> shows_but_evicted E now (fold (\<lambda>(name, v). put_view now (new_key n name) (v, x)) items (view E now c)) c c'"
  using assms
proof (induction items arbitrary: c)
  case (Cons item items)
  obtain name v where item: "item = (name, v)" by fastforce
  let ?c = "c\<lparr>c_sets := c_sets c + 1\<rparr>" and ?k = "new_key n name"
  let ?m = "put_view now ?k (v, x) (view E now c)"
  let ?fold = "fold (\<lambda>(name, v). put_view now (new_key n name) (v, x)) items"
  obtain c1 where c1: "cache_insert E ?k v x ?c = Some c1" "cache_inv E lru_wf c1"
      "written E (name_charge (key_namespace ?k)) ?k \<lparr>e_value = v, e_expires_at = x, e_last_used = c_clock c + 1\<rparr> ?c c1"
    using cache_insert_spec [of ?c _ v x ?k] Cons.prems by auto
  have w: "shows_but_evicted E now ?m c c1" "grown E {?k} c c1" "c_evictions c \<le> c_evictions c1"
    using view_written [OF c1(3), of now] grown_written [OF c1(3)] c1(3)
    by (simp_all add: shows_but_evicted_def view_def grown_def written_def)
  obtain c' where c': "set_each E n x items c1 = Some c'" "cache_inv E lru_wf c'"
      "grown E (new_key n ` fst ` set items) c1 c'" "c_evictions c1 \<le> c_evictions c'"
      "shows_but_evicted E now (?fold (view E now c1)) c1 c'"
    using Cons.IH [OF c1(2)] by blast
  have "view E now c' \<subseteq>\<^sub>m ?fold ?m"
    by (rule map_le_trans [of _ "?fold (view E now c1)"])
       (use c'(5) w(1) in \<open>simp_all add: shows_but_evicted_def put_views_mono\<close>)
  then have "shows_but_evicted E now (?fold ?m) c c'"
    using c'(4, 5) w by (auto simp: shows_but_evicted_def)
  then show ?case
    using c' w grown_trans [OF w(2) c'(3)] c1(1) by (auto simp: item)
qed (simp add: shows_exactly)

text \<open>A batch of gets answers the visible values under its bound and changes nothing visible.\<close>

lemma get_each_spec:
  assumes "cache_inv E lru_wf c"
  shows "\<exists>c'. get_each E n now b used names c
      = Some (within_bound (Some b) used (map (\<lambda>name. map_option fst (view E now c (new_key n name))) names), c')
    \<and> cache_inv E lru_wf c' \<and> grown E {} c c' \<and> view E now c' = view E now c"
  using assms
proof (induction names arbitrary: used c)
  case (Cons name names)
  let ?k = "new_key n name" and ?vs = "map (\<lambda>name. map_option fst (view E now c (new_key n name))) names"
  show ?case
  proof (cases "b \<le> used")
    case True
    then show ?thesis using Cons.IH [OF Cons.prems, of used] by auto
  next
    case False
    define vo where "vo = map_option fst (view E now c ?k)"
    obtain c1 where g: "get_at E ?k now c = Some (vo, c1)" "cache_inv E lru_wf c1"
        "looked_up E now ?k (\<lambda>e. e\<lparr>e_last_used := c_clock c + 1\<rparr>) c c1"
      using get_at_spec [OF Cons.prems, of ?k now] by (auto simp: live_value_view vo_def)
    have same: "view E now c1 = view E now c" by (rule view_looked_up [OF g(3)]) auto
    note IH = Cons.IH [OF g(2), unfolded same] and gr = grown_trans [OF grown_looked_up [OF g(3), of "{}"]]
    show ?thesis
      unfolding list.map vo_def [symmetric]
    proof (cases vo)
      case None
      then show "\<exists>c'. get_each E n now b used (name # names) c = Some (within_bound (Some b) used (vo # ?vs), c')
          \<and> cache_inv E lru_wf c' \<and> grown E {} c c' \<and> view E now c' = view E now c"
        using g(1) False IH [of used] gr by auto
    next
      case (Some v)
      then have "(used + length v \<le> b) = fits (Some b) used v" using False by (auto simp: fits_def)
      then show "\<exists>c'. get_each E n now b used (name # names) c = Some (within_bound (Some b) used (vo # ?vs), c')
          \<and> cache_inv E lru_wf c' \<and> grown E {} c c' \<and> view E now c' = view E now c"
        using Some g(1) False IH [of used] IH [of "used + length v"] gr by (auto simp: Let_def)
    qed
  qed
qed simp

text \<open>
  A batch of touches answers the values visible before it, under its bound, and gives the keys it
  answers for the new expiry; \<open>touched\<close> are the names a zero TTL has made invisible meanwhile.
\<close>

lemma touch_in_view:
  assumes "cache_inv E lru_wf c" and "resolves c n sid"
  shows "\<exists>c'. touch_in E sid name ttl promote now c
      = Some (map_option (\<lambda>s. (fst s, map_option (\<lambda>x. x - now) (expiry_of now ttl))) (view E now c (new_key n name)), c')
    \<and> cache_inv E lru_wf c' \<and> resolves c' n sid \<and> grown E {} c c'
    \<and> view E now c' = retime now (expiry_of now ttl) {new_key n name} (view E now c)"
proof -
  let ?t = "if promote then c_clock c + 1 else c_clock c"
  let ?f = "\<lambda>e. e\<lparr>e_expires_at := expiry_of now ttl, e_last_used := if promote then ?t else e_last_used e\<rparr>"
  obtain c' where c': "touch_in E sid name ttl promote now c
        = Some (map_option (\<lambda>e. (e_value e, map_option (\<lambda>x. x - now) (expiry_of now ttl)))
            (live_entry E now c (new_key n name)), c')"
      "cache_inv E lru_wf c'" "looked_up E now (new_key n name) ?f c c'"
    using touch_in_spec [OF assms refl, of name ttl promote now] by auto
  have "resolves c' n sid"
    using resolves_kept [OF assms(1) [unfolded cache_inv_def] c'(2) [unfolded cache_inv_def] _ assms(2)] c'(3)
    by (simp add: looked_up_def)
  then show ?thesis
    using c' view_retimed [OF c'(3), of "expiry_of now ttl"] grown_looked_up [OF c'(3)]
    by (simp add: live_entry_view option.map_comp comp_def)
qed

declare touch_many_loop.simps(2) [simp del]

lemma touch_many_loop_spec:
  assumes "cache_inv E lru_wf c" and "resolves c n sid" and "bound \<le> U64_MAX"
    and "\<forall>name \<in> dom (map_of touched). retime now (expiry_of now ttl) {new_key n name} (view E now c) = view E now c"
  shows "\<exists>rs c'. touch_many_loop E sid ttl promote bound now used touched names c = Some (rs, c')
    \<and> rs = within_bound (if bound = U64_MAX then None else Some bound) used
        (map (touch_answer n touched (view E now c)) names)
    \<and> cache_inv E lru_wf c' \<and> grown E {} c c'
    \<and> view E now c' = retime now (expiry_of now ttl) (touched_keys n names rs) (view E now c)"
  using assms(1, 2, 4)
proof (induction names arbitrary: used touched c)
  case (Cons name names)
  let ?k = "new_key n name" and ?m = "view E now c" and ?x = "expiry_of now ttl"
  let ?B = "if bound = U64_MAX then None else Some bound"
  let ?answer = "touch_answer n touched ?m" and ?bounded = "bound \<noteq> U64_MAX"
  note sat = saturating_over [OF assms(3)]
  have skip: "\<exists>rs c'. Option.bind (touch_many_loop E sid ttl promote bound now used touched names c)
        (\<lambda>(results, c). Some (None # results, c)) = Some (rs, c')
      \<and> rs = None # within_bound ?B used (map ?answer names)
      \<and> cache_inv E lru_wf c' \<and> grown E {} c c' \<and> view E now c' = retime now ?x (touched_keys n (name # names) rs) ?m"
    using Cons.IH [OF Cons.prems, of used] by auto
  show ?case
  proof (cases "map_of touched name")
    case (Some v)
    then have a: "?answer name = Some v" by (simp add: touch_answer_def)
    show ?thesis
    proof (cases "?bounded \<and> (bound \<le> used \<or> bound < saturating_add used (length v))")
      case True
      then have "\<not> fits ?B used v" using sat by (auto simp: fits_def)
      then show ?thesis using skip Some True a by (simp add: touch_many_loop.simps(2))
    next
      case False
      define c1 where "c1 = c\<lparr>c_touches := c_touches c + 1, c_hits := (if promote then c_hits c + 1 else c_hits c)\<rparr>"
      have c1: "cache_inv E lru_wf c1" "resolves c1 n sid" "view E now c1 = ?m" "grown E {} c c1"
        using Cons.prems(1, 2) by (simp_all add: c1_def resolves_def slot_of_def view_def grown_def)
      have ok: "fits ?B used v" using False sat by (auto simp: fits_def)
      have step: "touch_many_loop E sid ttl promote bound now used touched (name # names) c =
          Option.bind (touch_many_loop E sid ttl promote bound now (saturating_add used (length v)) touched names c1)
            (\<lambda>(results, c). Some (Some v # results, c))"
        using False Some by (auto simp: touch_many_loop.simps(2) c1_def Let_def)
      have same: "within_bound ?B (saturating_add used (length v)) (map ?answer names)
          = within_bound ?B (used + length v) (map ?answer names)"
        using ok sat by (auto simp: fits_def)
      show ?thesis
        using Cons.IH [OF c1(1, 2), of touched "saturating_add used (length v)"] Cons.prems(3) Some
          grown_trans [OF c1(4)]
        by (auto simp: step a ok c1(3) same retime_insert domI)
    qed
  next
    case None
    then have a: "?answer name = map_option fst (?m ?k)" by (simp add: touch_answer_def)
    have len: "live_value_len E sid name now c = map_option (\<lambda>s. length (fst s)) (?m ?k)"
      using live_value_len_eq [OF Cons.prems(1) [unfolded cache_inv_def] Cons.prems(2), of name now]
      by (simp add: live_entry_view option.map_comp comp_def)
    let ?over = "?bounded \<and> (bound \<le> used \<or> (case live_value_len E sid name now c of None \<Rightarrow> False
        | Some l \<Rightarrow> bound < saturating_add used l))"
    obtain c1 where c1: "touch_in E sid name ttl promote now c
          = Some (map_option (\<lambda>s. (fst s, map_option (\<lambda>x. x - now) ?x)) (?m ?k), c1)"
        "cache_inv E lru_wf c1" "resolves c1 n sid" "grown E {} c c1" "view E now c1 = retime now ?x {?k} ?m"
      using touch_in_view [OF Cons.prems(1, 2)] by blast
    show ?thesis
    proof (cases ?over)
      case True
      then have "within_bound ?B used (map ?answer (name # names)) = None # within_bound ?B used (map ?answer names)"
        using sat a len by (cases "?m ?k") (auto simp: fits_def)
      then show ?thesis using skip None True by (simp add: touch_many_loop.simps(2))
    next
      case False
      show ?thesis
      proof (cases "?m ?k")
        case none: None
        then have same: "view E now c1 = ?m" using c1(5) by (auto simp: retime_def fun_eq_iff)
        have "touch_many_loop E sid ttl promote bound now used touched (name # names) c =
            Option.bind (touch_many_loop E sid ttl promote bound now used touched names c1)
              (\<lambda>(results, c). Some (None # results, c))"
          using None False c1(1) none by (auto simp: touch_many_loop.simps(2) Let_def)
        then show ?thesis
          using Cons.IH [OF c1(2, 3), of touched used, unfolded same, OF Cons.prems(3)] a none grown_trans [OF c1(4)]
          by auto
      next
        case (Some s)
        let ?v = "fst s" and ?t = "if ttl = Some 0 then AList.update name (fst s) touched else touched"
        have ok: "fits ?B used ?v" using False sat len Some by (auto simp: fits_def)
        have step: "touch_many_loop E sid ttl promote bound now used touched (name # names) c =
            Option.bind (touch_many_loop E sid ttl promote bound now (saturating_add used (length ?v)) ?t names c1)
              (\<lambda>(results, c). Some (Some ?v # results, c))"
          using None False c1(1) Some by (auto simp: touch_many_loop.simps(2) Let_def)
        have same: "within_bound ?B (saturating_add used (length ?v)) vs = within_bound ?B (used + length ?v) vs" for vs
          using ok sat by (auto simp: fits_def)
        have settled: "\<forall>name' \<in> dom (map_of ?t). retime now ?x {new_key n name'} (view E now c1) = view E now c1"
          unfolding c1(5) by (rule touched_settled [OF Cons.prems(3)])
        have answer: "touch_answer n ?t (view E now c1) = ?answer"
          unfolding c1(5) by (rule touch_answer_kept [of _ _ ?m, OF None Some])
        show ?thesis
          using Cons.IH [OF c1(2, 3) settled, of "saturating_add used (length ?v)", unfolded answer] grown_trans [OF c1(4)]
          by (auto simp: step a Some ok same c1(5))
      qed
    qed
  qed
qed simp

end

section \<open>Resolving a namespace through the hint\<close>

text \<open>
  \<open>find_namespace\<close> first compares allocations with the slot it resolved last. Two byte strings in the
  same place and of the same length are equal; under that law of allocations the hint changes
  nothing.
\<close>

lemma find_namespace_hint:
  assumes "index_inv c" and "\<And>a b. same_alloc a b \<Longrightarrow> length a = length b \<Longrightarrow> a = b"
  shows "fst (find_namespace_hinted same_alloc c hint name) = find_namespace c name"
proof (cases "map_of (c_slots c) hint")
  case None
  then show ?thesis by (auto simp: find_namespace_hinted_def find_namespace_def split: option.splits)
next
  case (Some ns)
  show ?thesis
  proof (cases "same_alloc (ns_name ns) name \<and> length (ns_name ns) = length name")
    case True
    then have "ns_name ns = name" using assms(2) by blast
    then show ?thesis
      using index_slot [OF assms(1) Some] Some True by (simp add: find_namespace_hinted_def find_namespace_def)
  next
    case False
    then show ?thesis
      using Some by (auto simp: find_namespace_hinted_def find_namespace_def split: option.splits)
  qed
qed

end
