(* ===== verification/Response.thy ===== *)
theory Response
  imports Cache_Model
begin

text \<open>
  The answers of a node and their wire form, \<^verbatim>\<open>src/response.rs\<close>. An \<^verbatim>\<open>unreachable!\<close> of the
  source is the result \<open>None\<close>, so that \<open>\<exists>bs. encode r = Some bs\<close> says that the answer can be
  sent. The buffers the source sizes in advance (\<^verbatim>\<open>Vec::with_capacity\<close>) have no counterpart.
\<close>

abbreviation LF :: byte where "LF \<equiv> CHR 0x0A"
abbreviation SP :: byte where "SP \<equiv> CHR '' ''"

definition ttl_wire_seconds :: "duration \<Rightarrow> nat" where
  "ttl_wire_seconds ttl = ttl div NANOS_PER_SEC + of_bool (ttl mod NANOS_PER_SEC > 0)"

definition ttl_field :: "duration option \<Rightarrow> bytes" where
  "ttl_field ttl = (case ttl of None \<Rightarrow> [] | Some ttl \<Rightarrow> SP # to_dec (ttl_wire_seconds ttl))"

datatype multi_entry = EntryValue bytes | EntryMiss | EntryWrongNode

datatype multi_ack_entry = AckStored | AckWrongNode

datatype multi_touch_entry = TouchTouched | TouchMiss | TouchWrongNode

datatype response =
    RespValue bytes
  | RespMulti "multi_entry list"
  | RespMultiAck "multi_ack_entry list"
  | RespMultiTouch "multi_touch_entry list"
  | RespStored
  | RespStoredUnchanged
  | RespDeleted
  | RespNotFound
  | RespBusy
  | RespAuthOk
  | RespUnauthorized
  | RespMalformed
  | RespMigrationAccepted nat
  | RespMigrationRejected
  | RespMigrationCancelled
  | RespWrongNode
  | RespCleared int
  | RespIncremented bytes "duration option"
  | RespTouched bytes "duration option"
  | RespNotNumeric
  | RespEntries "(key \<times> bytes \<times> duration option) list"
  | RespKeys "key list"
  | RespMarked
  | RespUnmarked
  | RespSwept nat
  | RespReclaimed nat bool u64
  | RespStats cache_stats

definition multi_token :: "multi_entry \<Rightarrow> bytes" where
  "multi_token entry = (case entry of
     EntryValue value \<Rightarrow> SP # to_dec (length value)
   | EntryMiss \<Rightarrow> '' -''
   | EntryWrongNode \<Rightarrow> '' W'')"

definition multi_body :: "multi_entry \<Rightarrow> bytes" where
  "multi_body entry = (case entry of EntryValue value \<Rightarrow> value | _ \<Rightarrow> [])"

definition tag_field :: "nat option \<Rightarrow> bytes" where
  "tag_field tag = (case tag of None \<Rightarrow> [] | Some tag \<Rightarrow> SP # to_dec tag)"

definition encode_multi :: "multi_entry list \<Rightarrow> nat option \<Rightarrow> bytes" where
  "encode_multi entries tag =
     (''M '' @ to_dec (length entries) @ concat (map multi_token entries) @ tag_field tag @ [LF])
     @ concat (map multi_body entries)"

definition encode_multi_ack :: "multi_ack_entry list \<Rightarrow> nat option \<Rightarrow> bytes" where
  "encode_multi_ack entries tag =
     ''O '' @ to_dec (length entries)
     @ concat (map (\<lambda>entry. case entry of AckStored \<Rightarrow> '' S'' | AckWrongNode \<Rightarrow> '' W'') entries)
     @ tag_field tag @ [LF]"

definition encode_multi_touch :: "multi_touch_entry list \<Rightarrow> nat option \<Rightarrow> bytes" where
  "encode_multi_touch entries tag =
     ''Y '' @ to_dec (length entries)
     @ concat (map (\<lambda>entry. case entry of
           TouchTouched \<Rightarrow> '' S'' | TouchMiss \<Rightarrow> '' N'' | TouchWrongNode \<Rightarrow> '' W'') entries)
     @ tag_field tag @ [LF]"

definition encode :: "response \<Rightarrow> bytes option" where
  "encode r = (case r of
     RespStored \<Rightarrow> Some (''S'' @ [LF])
   | RespStoredUnchanged \<Rightarrow> Some (''S'' @ [LF])
   | RespDeleted \<Rightarrow> Some (''D'' @ [LF])
   | RespNotFound \<Rightarrow> Some (''N'' @ [LF])
   | RespBusy \<Rightarrow> Some (''B'' @ [LF])
   | RespAuthOk \<Rightarrow> Some (''On'' @ [LF])
   | RespUnauthorized \<Rightarrow> Some (''En'' @ [LF])
   | RespMalformed \<Rightarrow> Some (''En'' @ [LF])
   | RespMigrationAccepted entries \<Rightarrow> Some (''A '' @ to_dec entries @ [LF])
   | RespMigrationRejected \<Rightarrow> Some (''R'' @ [LF])
   | RespMigrationCancelled \<Rightarrow> Some (''A'' @ [LF])
   | RespWrongNode \<Rightarrow> Some (''W'' @ [LF])
   | RespCleared _ \<Rightarrow> Some (''C'' @ [LF])
   | RespNotNumeric \<Rightarrow> Some (''T'' @ [LF])
   | RespValue value \<Rightarrow> Some (''V '' @ to_dec (length value) @ [LF] @ value)
   | RespIncremented value ttl \<Rightarrow> Some ((''I '' @ to_dec (length value) @ ttl_field ttl @ [LF]) @ value)
   | RespTouched value ttl \<Rightarrow> Some ((''V '' @ to_dec (length value) @ ttl_field ttl @ [LF]) @ value)
   | RespMulti entries \<Rightarrow> Some (encode_multi entries None)
   | RespMultiAck entries \<Rightarrow> Some (encode_multi_ack entries None)
   | RespMultiTouch entries \<Rightarrow> Some (encode_multi_touch entries None)
   | _ \<Rightarrow> None)"

definition encode_with_tag :: "response \<Rightarrow> nat \<Rightarrow> bytes option" where
  "encode_with_tag r tag = (case r of
     RespStored \<Rightarrow> Some (''S '' @ to_dec tag @ [LF])
   | RespStoredUnchanged \<Rightarrow> Some (''S '' @ to_dec tag @ [LF])
   | RespDeleted \<Rightarrow> Some (''D '' @ to_dec tag @ [LF])
   | RespNotFound \<Rightarrow> Some (''N '' @ to_dec tag @ [LF])
   | RespWrongNode \<Rightarrow> Some (''W '' @ to_dec tag @ [LF])
   | RespCleared _ \<Rightarrow> Some (''C '' @ to_dec tag @ [LF])
   | RespNotNumeric \<Rightarrow> Some (''T '' @ to_dec tag @ [LF])
   | RespValue value \<Rightarrow> Some ((''V '' @ to_dec (length value) @ '' '' @ to_dec tag @ [LF]) @ value)
   | RespIncremented value ttl \<Rightarrow>
       Some ((''I '' @ to_dec (length value) @ ttl_field ttl @ '' '' @ to_dec tag @ [LF]) @ value)
   | RespTouched value ttl \<Rightarrow>
       Some ((''V '' @ to_dec (length value) @ ttl_field ttl @ '' '' @ to_dec tag @ [LF]) @ value)
   | RespMulti entries \<Rightarrow> Some (encode_multi entries (Some tag))
   | RespMultiAck entries \<Rightarrow> Some (encode_multi_ack entries (Some tag))
   | RespMultiTouch entries \<Rightarrow> Some (encode_multi_touch entries (Some tag))
   | RespMigrationRejected \<Rightarrow> Some (''R '' @ to_dec tag @ [LF])
   | _ \<Rightarrow> None)"

definition encode_identity_tagged :: "response \<Rightarrow> bytes option" where
  "encode_identity_tagged r = (case r of
     RespAuthOk \<Rightarrow> Some (''OnT'' @ [LF])
   | RespUnauthorized \<Rightarrow> Some (''EnT'' @ [LF])
   | _ \<Rightarrow> None)"

end
