(* ===== verification/Command.thy ===== *)
theory Command
  imports Response Hash_Ring
begin

text \<open>
  The commands of a node and how the cache task runs them, \<^verbatim>\<open>src/command.rs\<close> up to its parser.

  \<^item> \<open>owner_check\<close> and \<open>sweep_ownership\<close> are the memberships a reclaim and a mark sweep judge a key
    against. A ring is shared through an \<^verbatim>\<open>Arc\<close> in the source and compared by identity there; the
    model holds the ring itself.
  \<^item> \<open>execute\<close> is one function of the command, the time and the store. The two closures that hash a
    run of keys through a \<open>KeyHasher\<close> call \<open>key_hash_of\<close> here: a \<open>KeyHasher\<close> answers exactly that on
    any run of keys (\<open>key_hasher_run_is_one_shot\<close> in \<open>Hash_Ring\<close>).
  \<^item> \<open>None\<close> is a panic, as in \<open>Cache_Model\<close>.
\<close>

definition MAX_MULTI_REPLY_VALUE_BYTES :: nat where
  "MAX_MULTI_REPLY_VALUE_BYTES = 16 * 1024 * 1024"

definition MAX_ROSTER_ENTRIES :: nat where
  "MAX_ROSTER_ENTRIES = 2 ^ 16"

definition MAX_ROSTER_LINE_LEN :: nat where
  "MAX_ROSTER_LINE_LEN = 64"

record owner_check =
  oc_ring :: hash_ring
  oc_name :: bytes
  oc_replication :: nat

definition owns_hashed :: "owner_check \<Rightarrow> u64 \<Rightarrow> bool" where
  "owns_hashed check key_hash = is_owner_hashed (oc_ring check) key_hash (oc_name check) (oc_replication check)"

record sweep_ownership =
  so_now :: owner_check
  so_since :: "owner_check list"

definition keeps_hashed :: "sweep_ownership \<Rightarrow> u64 \<Rightarrow> bool" where
  "keeps_hashed so key_hash =
     (if \<not> owns_hashed (so_now so) key_hash then False
      else
        let others = filter (\<lambda>owner. owner \<noteq> oc_name (so_now so))
              (owners_hashed (oc_ring (so_now so)) key_hash (oc_replication (so_now so)))
        in
          if others = [] then True
          else case position (\<lambda>check. \<not> owns_hashed check key_hash) (so_since so) of
            None \<Rightarrow> True
          | Some taken \<Rightarrow>
              \<not> list_ex (\<lambda>check. list_ex
                    (\<lambda>other. is_owner_hashed (oc_ring check) key_hash other (oc_replication check)) others)
                  (take (Suc taken) (so_since so)))"

datatype command =
    Auth (auth_secret: bytes) (auth_tagging: bool) (auth_retry_capable: bool)
  | Get key
  | MultiGet bytes "bytes list"
  | MultiSet bytes "bytes list" "bytes list" "duration option"
  | SetKey key bytes "duration option"
  | Delete key
  | Incr key int
  | CasSet key cas_condition bytes "duration option"
  | CasDelete key bytes
  | Touch key "duration option" bool
  | MultiTouch bytes "bytes list" "duration option" bool
  | Clear bytes
  | ClearAll
  | HandoffClear bool bytes bytes
  | ListEntries
  | PeekEntry key
  | PeekLiveEntry key
  | MarkMigrated key
  | UnmarkMigratedMany "key list"
  | HandoffSet key bytes "duration option" bool bytes bool
  | HandoffDelete key bytes
  | Stats nat
  | Sweep bool "sweep_ownership option"
  | ReclaimUnowned "key list" "owner_check list" duration
  | Migrate bytes bytes bytes bytes "(bytes \<times> bytes) list" nat "nat option"
  | CancelMigration bytes bytes

text \<open>\<^verbatim>\<open>value.map_or(MultiEntry::Miss, MultiEntry::Value)\<close>.\<close>

definition multi_entry_of :: "bytes option \<Rightarrow> multi_entry" where
  "multi_entry_of v = (case v of None \<Rightarrow> EntryMiss | Some bs \<Rightarrow> EntryValue bs)"

text \<open>The ownership the mark sweep and the reclaim pass judge a key by (the two closures of \<open>execute\<close>).\<close>

definition sweep_keeps :: "sweep_ownership \<Rightarrow> key \<Rightarrow> bool option" where
  "sweep_keeps owned k = map_option (keeps_hashed owned) (key_hash_of k)"

definition owned_by_any :: "owner_check list \<Rightarrow> key \<Rightarrow> bool option" where
  "owned_by_any checks k =
     map_option (\<lambda>key_hash. list_ex (\<lambda>check. owns_hashed check key_hash) checks) (key_hash_of k)"

fun execute :: "'l env \<Rightarrow> instant \<Rightarrow> command \<Rightarrow> 'l cache \<Rightarrow> (response \<times> 'l cache) option" where
  "execute E now (Auth _ _ _) c = None"
| "execute E now (Migrate _ _ _ _ _ _ _) c = None"
| "execute E now (CancelMigration _ _) c = None"
| "execute E now (Get k) c = do {
     (v, c) \<leftarrow> get_at E k now c;
     Some (case v of Some bs \<Rightarrow> RespValue bs | None \<Rightarrow> RespNotFound, c)
   }"
| "execute E now (MultiGet namespace keys) c = do {
     (vs, c) \<leftarrow> get_many E namespace keys MAX_MULTI_REPLY_VALUE_BYTES now c;
     Some (RespMulti (map multi_entry_of vs), c)
   }"
| "execute E now (MultiSet namespace keys values ttl) c = do {
     let stored = replicate (length keys) AckStored;
     c \<leftarrow> set_many E namespace (zip keys values) ttl now c;
     Some (RespMultiAck stored, c)
   }"
| "execute E now (SetKey k v ttl) c = do {
     c \<leftarrow> (case ttl of Some ttl \<Rightarrow> set_with_ttl E k v ttl now c | None \<Rightarrow> cache_set E k v c);
     Some (RespStored, c)
   }"
| "execute E now (HandoffSet k v ttl if_absent _ ahead_of_ring) c =
     (if if_absent then do {
        (r, c) \<leftarrow> handoff_set_if_absent_at E k v ttl ahead_of_ring now c;
        Some (case r of Stored \<Rightarrow> RespStored | Mismatch \<Rightarrow> RespStoredUnchanged, c)
      }
      else do {
        (changed, c) \<leftarrow> handoff_set E k v ttl ahead_of_ring now c;
        Some (if changed then RespStored else RespStoredUnchanged, c)
      })"
| "execute E now (Delete k) c = do {
     (b, c) \<leftarrow> cache_delete E k now c;
     Some (if b then RespDeleted else RespNotFound, c)
   }"
| "execute E now (HandoffDelete k _) c = do {
     (b, c) \<leftarrow> handoff_delete_at E k now c;
     Some (if b then RespDeleted else RespNotFound, c)
   }"
| "execute E now (Incr k delta) c = do {
     (r, c) \<leftarrow> incr_at E k delta now c;
     Some (case r of
         IncrValue v remaining_ttl \<Rightarrow> RespIncremented (int_to_dec v) remaining_ttl
       | IncrNotFound \<Rightarrow> RespNotFound
       | IncrNotNumeric \<Rightarrow> RespNotNumeric, c)
   }"
| "execute E now (CasSet k condition v ttl) c = do {
     (r, c) \<leftarrow> cas_set_at E k condition v ttl now c;
     Some (case r of Stored \<Rightarrow> RespStored | Mismatch \<Rightarrow> RespNotFound, c)
   }"
| "execute E now (CasDelete k expected_digest) c = do {
     (b, c) \<leftarrow> cas_delete_at E k expected_digest now c;
     Some (if b then RespDeleted else RespNotFound, c)
   }"
| "execute E now (MultiTouch namespace keys ttl get) c = do {
     let bound = (if get then MAX_MULTI_REPLY_VALUE_BYTES else U64_MAX);
     (vs, c) \<leftarrow> touch_many E namespace keys ttl get bound now c;
     Some (RespMulti (map multi_entry_of vs), c)
   }"
| "execute E now (Touch k ttl get) c = do {
     (r, c) \<leftarrow> touch_at E k ttl get now c;
     Some (case r of Some (v, remaining_ttl) \<Rightarrow> RespTouched v remaining_ttl | None \<Rightarrow> RespNotFound, c)
   }"
| "execute E now (Clear namespace) c = do {
     (n, c) \<leftarrow> clear E namespace c;
     Some (RespCleared (int n), c)
   }"
| "execute E now ClearAll c = (let (n, c) = clear_all c in Some (RespCleared n, c))"
| "execute E now (HandoffClear all namespace _) c =
     (if all then (let (n, c) = clear_all c in Some (RespCleared n, c))
      else do {
        (n, c) \<leftarrow> clear E namespace c;
        Some (RespCleared (int n), c)
      })"
| "execute E now ListEntries c = Some (RespKeys (keys_at E now c), c)"
| "execute E now (PeekEntry k) c = Some (RespEntries (case peek_entry_at E k now c of None \<Rightarrow> [] | Some x \<Rightarrow> [x]), c)"
| "execute E now (PeekLiveEntry k) c =
     Some (RespEntries (case peek_live_entry E k now c of None \<Rightarrow> [] | Some x \<Rightarrow> [x]), c)"
| "execute E now (MarkMigrated k) c = Some (RespMarked, mark_migrated E k c)"
| "execute E now (UnmarkMigratedMany keys) c = Some (RespUnmarked, snd (unmark_migrated_many keys c))"
| "execute E now (Stats largest_namespaces) c = Some (RespStats (stats_top E largest_namespaces c), c)"
| "execute E now (Sweep marked owned) c =
     (if marked then do {
        (n, c) \<leftarrow> (case owned of
            Some owned \<Rightarrow> sweep_keeping E (sweep_keeps owned) now c
          | None \<Rightarrow> sweep E now c);
        Some (RespSwept n, c)
      }
      else do {
        (n, c) \<leftarrow> sweep_expired E now c;
        Some (RespSwept n, c)
      })"
| "execute E now (ReclaimUnowned keys checks handoff_quiet_for) c = do {
     (report, c) \<leftarrow> reclaim_unowned_at E keys (owned_by_any checks) handoff_quiet_for now c;
     Some (RespReclaimed (rr_removed report) (rr_paused report) (rr_handoff_writes report), c)
   }"

end
