(* ===== verification/Node_Exec.thy ===== *)
theory Node_Exec
  imports Cache_Batch Command
begin

text \<open>
  The node as a machine that executes commands (\<^verbatim>\<open>Command::execute\<close>, \<^verbatim>\<open>src/command.rs\<close>) on the
  store. \<open>spec_step\<close> says what each data command answers and does in terms of the view, a plain map
  with expiries; \<open>execute\<close> refines it. Every command the store takes returns, so no command of a
  session can bring the node down, and the invariant of the store holds between any two of them.
\<close>

section \<open>The commands on a map\<close>

definition holds_view :: "(bytes \<Rightarrow> bytes) \<Rightarrow> cas_condition \<Rightarrow> stored option \<Rightarrow> bool" where
  "holds_view digest condition s = (case condition of
     CondAbsent \<Rightarrow> s = None
   | CondPresent \<Rightarrow> s \<noteq> None
   | CondDigest d \<Rightarrow> (case s of None \<Rightarrow> False | Some (v, _) \<Rightarrow> digest v = d))"

definition values_of :: "bytes \<Rightarrow> bytes list \<Rightarrow> view \<Rightarrow> bytes option list" where
  "values_of n names m = map (\<lambda>name. map_option fst (m (new_key n name))) names"

text \<open>
  The reply (none where it counts entries, of which the expired ones are not in the view) and the
  view afterwards, for the commands that read and write entries.
\<close>

fun spec_step :: "(bytes \<Rightarrow> bytes) \<Rightarrow> instant \<Rightarrow> command \<Rightarrow> view \<Rightarrow> (response option \<times> view) option" where
  "spec_step digest now (Get k) m =
     Some (Some (case m k of None \<Rightarrow> RespNotFound | Some (v, _) \<Rightarrow> RespValue v), m)"
| "spec_step digest now (MultiGet n names) m =
     Some (Some (RespMulti (map multi_entry_of
       (within_bound (Some MAX_MULTI_REPLY_VALUE_BYTES) 0 (values_of n names m)))), m)"
| "spec_step digest now (MultiSet n names values ttl) m =
     Some (Some (RespMultiAck (replicate (length names) AckStored)),
       fold (\<lambda>(name, v). put_view now (new_key n name) (v, expiry_of now ttl)) (zip names values) m)"
| "spec_step digest now (SetKey k v ttl) m = Some (Some RespStored, put_view now k (v, expiry_of now ttl) m)"
| "spec_step digest now (HandoffSet k v ttl False _ _) m =
     Some (Some (if ttl \<noteq> Some 0
                   \<and> (case m k of None \<Rightarrow> False | Some (v', x) \<Rightarrow> v' = v \<and> (x = None) = (expiry_of now ttl = None))
                 then RespStoredUnchanged else RespStored),
       if ttl = Some 0 then m(k := None) else put_view now k (v, expiry_of now ttl) m)"
| "spec_step digest now (Delete k) m = Some (Some (if m k = None then RespNotFound else RespDeleted), m(k := None))"
| "spec_step digest now (HandoffDelete k _) m =
     Some (Some (if m k = None then RespNotFound else RespDeleted), m(k := None))"
| "spec_step digest now (Incr k delta) m = Some
     (case m k of
        None \<Rightarrow> (Some RespNotFound, m)
      | Some (v, x) \<Rightarrow>
          (case Option.bind (parse_decimal_i64 v) (\<lambda>i. i64_checked_add i delta) of
             None \<Rightarrow> (Some RespNotNumeric, m)
           | Some i \<Rightarrow> (Some (RespIncremented (int_to_dec i) (map_option (\<lambda>t. t - now) x)),
               put_view now k (int_to_dec i, x) m)))"
| "spec_step digest now (CasSet k condition v ttl) m = Some
     (if holds_view digest condition (m k) then (Some RespStored, put_view now k (v, expiry_of now ttl) m)
      else (Some RespNotFound, m))"
| "spec_step digest now (CasDelete k expected) m = Some
     (if holds_view digest (CondDigest expected) (m k) then (Some RespDeleted, m(k := None))
      else (Some RespNotFound, m))"
| "spec_step digest now (Touch k ttl get) m = Some
     (Some (case m k of
         None \<Rightarrow> RespNotFound
       | Some (v, _) \<Rightarrow> RespTouched v (map_option (\<lambda>t. t - now) (expiry_of now ttl))),
      retime now (expiry_of now ttl) {k} m)"
| "spec_step digest now (MultiTouch n names ttl get) m =
     (let rs = within_bound (if get then Some MAX_MULTI_REPLY_VALUE_BYTES else None) 0 (values_of n names m)
      in Some (Some (RespMulti (map multi_entry_of rs)), retime now (expiry_of now ttl) (touched_keys n names rs) m))"
| "spec_step digest now (Clear n) m = Some (None, \<lambda>k. if key_namespace k = n then None else m k)"
| "spec_step digest now ClearAll m = Some (None, \<lambda>_. None)"
| "spec_step digest now (HandoffClear all n _) m =
     Some (None, \<lambda>k. if all \<or> key_namespace k = n then None else m k)"
| "spec_step digest now _ m = None"

section \<open>The keys of a command\<close>

fun command_keys :: "command \<Rightarrow> key list" where
  "command_keys (Get k) = [k]"
| "command_keys (MultiGet n names) = map (new_key n) names"
| "command_keys (MultiSet n names _ _) = map (new_key n) names"
| "command_keys (SetKey k _ _) = [k]"
| "command_keys (Delete k) = [k]"
| "command_keys (Incr k _) = [k]"
| "command_keys (CasSet k _ _ _) = [k]"
| "command_keys (CasDelete k _) = [k]"
| "command_keys (Touch k _ _) = [k]"
| "command_keys (MultiTouch n names _ _) = map (new_key n) names"
| "command_keys (PeekEntry k) = [k]"
| "command_keys (PeekLiveEntry k) = [k]"
| "command_keys (MarkMigrated k) = [k]"
| "command_keys (UnmarkMigratedMany ks) = ks"
| "command_keys (HandoffSet k _ _ _ _ _) = [k]"
| "command_keys (HandoffDelete k _) = [k]"
| "command_keys (ReclaimUnowned ks _ _) = ks"
| "command_keys _ = []"

text \<open>
  The keys the ring can hash, and the commands the store takes: the others (authentication and the two
  migration orders) are answered by the connection, and \<open>execute\<close> panics on them.
\<close>

definition short_key :: "key \<Rightarrow> bool" where
  "short_key k \<longleftrightarrow> length (key_namespace k) \<le> U32_MAX"

definition store_command :: "command \<Rightarrow> bool" where
  "store_command cmd \<longleftrightarrow>
     (case cmd of Auth _ _ _ \<Rightarrow> False | Migrate _ _ _ _ _ _ _ \<Rightarrow> False | CancelMigration _ _ \<Rightarrow> False | _ \<Rightarrow> True)
     \<and> (\<forall>k \<in> set (command_keys cmd). short_key k)"

definition short_keys :: "'l env \<Rightarrow> 'l cache \<Rightarrow> bool" where
  "short_keys E c \<longleftrightarrow> (\<forall>k \<in> dom (peek E c) \<union> set (c_pending_removal c). short_key k)"

definition node_inv :: "'l env \<Rightarrow> ('l \<Rightarrow> bool) \<Rightarrow> 'l cache \<Rightarrow> bool" where
  "node_inv E lru_wf c \<longleftrightarrow> cache_inv E lru_wf c \<and> short_keys E c"

lemma key_hash_short: "short_key k \<Longrightarrow> \<exists>h. key_hash_of k = Some h"
  using key_hash_of_canonical [of k] by (simp add: short_key_def)

lemma holds_view_live: "holds E condition (live_entry E now c k) = holds_view (content_digest E) condition (view E now c k)"
  by (cases condition; cases "live_entry E now c k") (simp_all add: holds_def holds_view_def live_entry_view)

section \<open>A map that may lose entries\<close>

text \<open>
  What a session may observe: a data command answers from the map and updates it, a maintenance command
  changes nothing, a copy put if absent is stored or refused, and at every step entries may go
  (evicted, swept or reclaimed); nothing is ever invented, and nothing comes back.
\<close>

definition upkeep :: "command \<Rightarrow> bool" where
  "upkeep cmd = (case cmd of
     ListEntries \<Rightarrow> True | PeekEntry _ \<Rightarrow> True | PeekLiveEntry _ \<Rightarrow> True | MarkMigrated _ \<Rightarrow> True
   | UnmarkMigratedMany _ \<Rightarrow> True | Stats _ \<Rightarrow> True | Sweep _ _ \<Rightarrow> True | ReclaimUnowned _ _ _ \<Rightarrow> True | _ \<Rightarrow> False)"

inductive lossy_step :: "(bytes \<Rightarrow> bytes) \<Rightarrow> instant \<Rightarrow> command \<Rightarrow> view \<Rightarrow> response \<Rightarrow> view \<Rightarrow> bool"
  for digest :: "bytes \<Rightarrow> bytes" and now :: instant where
  data: "spec_step digest now cmd m = Some (reply, m1) \<Longrightarrow>
    (case reply of None \<Rightarrow> \<exists>n. r = RespCleared n | Some r' \<Rightarrow> r = r') \<Longrightarrow> m2 \<subseteq>\<^sub>m m1 \<Longrightarrow> lossy_step digest now cmd m r m2"
| upkeep: "upkeep cmd \<Longrightarrow> m2 \<subseteq>\<^sub>m m \<Longrightarrow> lossy_step digest now cmd m r m2"
| stored: "m2 \<subseteq>\<^sub>m put_view now k (v, expiry_of now ttl) m \<Longrightarrow>
    lossy_step digest now (HandoffSet k v ttl True token ahead) m RespStored m2"
| refused: "m2 \<subseteq>\<^sub>m m \<Longrightarrow>
    lossy_step digest now (HandoffSet k v ttl True token ahead) m RespStoredUnchanged m2"

text \<open>A session: commands with their replies, at instants that do not go back.\<close>

inductive lossy_session ::
    "(bytes \<Rightarrow> bytes) \<Rightarrow> instant \<Rightarrow> view \<Rightarrow> (instant \<times> command) list \<Rightarrow> response list \<Rightarrow> view \<Rightarrow> bool"
  for digest :: "bytes \<Rightarrow> bytes" where
  ended: "lossy_session digest t m [] [] m"
| more: "t \<le> now \<Longrightarrow> lossy_step digest now cmd (expire now m) r m1 \<Longrightarrow> lossy_session digest now m1 cmds rs m2 \<Longrightarrow>
    lossy_session digest t m ((now, cmd) # cmds) (r # rs) m2"

text \<open>The node's session: \<open>execute\<close>, command after command.\<close>

fun session :: "'l env \<Rightarrow> (instant \<times> command) list \<Rightarrow> 'l cache \<Rightarrow> (response list \<times> 'l cache) option" where
  "session E [] c = Some ([], c)"
| "session E ((now, cmd) # cmds) c = do {
     (r, c) \<leftarrow> execute E now cmd c;
     (rs, c) \<leftarrow> session E cmds c;
     Some (r # rs, c)
   }"

lemma store_command_cases:
  assumes "store_command cmd"
  shows "(\<forall>digest now m. spec_step digest now cmd m \<noteq> None) \<or> upkeep cmd
    \<or> (\<exists>k v ttl token ahead. cmd = HandoffSet k v ttl True token ahead)"
proof (cases cmd)
  case (HandoffSet k v ttl if_absent token ahead)
  then show ?thesis by (cases if_absent) auto
qed (use assms in \<open>auto simp: store_command_def upkeep_def Let_def\<close>)

text \<open>The keys a pass of the sweep works through: what is left of the last, or a new collection.\<close>

definition sweep_queue :: "'l env \<Rightarrow> instant \<Rightarrow> bool \<Rightarrow> 'l cache \<Rightarrow> key list" where
  "sweep_queue E now include_marked c =
     (if c_pending_removal c = [] then sweep_candidates E now include_marked c else c_pending_removal c)"

section \<open>The data commands refine the map\<close>

definition refines :: "'l env \<Rightarrow> ('l \<Rightarrow> bool) \<Rightarrow> instant \<Rightarrow> command \<Rightarrow> 'l cache \<Rightarrow> bool" where
  "refines E lru_wf now cmd c \<longleftrightarrow>
     (\<exists>resp c' reply m. execute E now cmd c = Some (resp, c')
        \<and> spec_step (content_digest E) now cmd (view E now c) = Some (reply, m)
        \<and> (case reply of None \<Rightarrow> \<exists>n. resp = RespCleared n | Some r \<Rightarrow> resp = r)
        \<and> shows_but_evicted E now m c c'
        \<and> cache_inv E lru_wf c' \<and> grown E (set (command_keys cmd)) c c')"

lemma sweep_keeps_total:
  assumes "short_key k"
  shows "case (if marked then map_option sweep_keeps owned else None) of None \<Rightarrow> True | Some f \<Rightarrow> f k \<noteq> None"
  using key_hash_short [OF assms] by (auto simp: sweep_keeps_def split: option.splits)

lemma execute_sweep:
  "execute E now (Sweep marked owned) c
     = map_option (\<lambda>(n, c). (RespSwept n, c)) (sweep_at E now marked (if marked then map_option sweep_keeps owned else None) c)"
proof -
  have bind: "Option.bind a (\<lambda>(n, c). Some (RespSwept n, c)) = map_option (\<lambda>(n, c). (RespSwept n, c)) a"
    for a :: "(nat \<times> 'l cache) option"
    by (cases a) auto
  show ?thesis
    by (cases marked; cases owned) (simp_all add: sweep_def sweep_keeping_def sweep_expired_def bind)
qed

context lru_cache
begin

lemma refines_get:
  assumes "cache_inv E lru_wf c"
  shows "refines E lru_wf now (Get k) c"
proof -
  obtain c' where c': "get_at E k now c = Some (map_option e_value (live_entry E now c k), c')" "cache_inv E lru_wf c'"
      "looked_up E now k (\<lambda>e. e\<lparr>e_last_used := c_clock c + 1\<rparr>) c c'"
    using get_at_spec [OF assms] by blast
  have "view E now c' = view E now c" by (rule view_looked_up [OF c'(3)]) auto
  then show ?thesis
    using c' grown_looked_up [OF c'(3)]
    by (auto simp: refines_def shows_exactly live_entry_view split: option.splits)
qed

lemma refines_multi_get:
  assumes "cache_inv E lru_wf c"
  shows "refines E lru_wf now (MultiGet n names) c"
proof -
  have "resolves c n (find_namespace c n)" by (simp add: resolves_def slot_of_def find_namespace_def)
  then show ?thesis
    using get_many_loop_eq [OF assms, of n "find_namespace c n" now MAX_MULTI_REPLY_VALUE_BYTES 0 names]
      get_each_spec [OF assms, of n now MAX_MULTI_REPLY_VALUE_BYTES 0 names]
    by (auto simp: refines_def get_many_def values_of_def shows_exactly intro: grown_mono)
qed

lemma refines_multi_set:
  assumes "cache_inv E lru_wf c"
  shows "refines E lru_wf now (MultiSet n names values ttl) c"
proof -
  obtain c' where "set_each E n (expiry_of now ttl) (zip names values) c = Some c'" "cache_inv E lru_wf c'"
      "grown E (new_key n ` fst ` set (zip names values)) c c'"
      "shows_but_evicted E now (fold (\<lambda>(name, v). put_view now (new_key n name) (v, expiry_of now ttl))
        (zip names values) (view E now c)) c c'"
    using set_each_spec [OF assms, of n "expiry_of now ttl" "zip names values" now] by blast
  moreover have "fst ` set (zip names values) \<subseteq> set names" by (auto dest: set_zip_leftD)
  ultimately show ?thesis
    using set_many_loop_eq [OF assms, of None n "expiry_of now ttl" "zip names values"]
    by (auto simp: refines_def set_many_def Let_def elim!: grown_mono)
qed

lemma refines_set:
  assumes "cache_inv E lru_wf c"
  shows "refines E lru_wf now (SetKey k v ttl) c"
proof -
  let ?c = "c\<lparr>c_sets := c_sets c + 1\<rparr>"
  obtain c' where c': "cache_insert E k v (expiry_of now ttl) ?c = Some c'" "cache_inv E lru_wf c'"
      "written E (name_charge (key_namespace k)) k
        \<lparr>e_value = v, e_expires_at = expiry_of now ttl, e_last_used = c_clock c + 1\<rparr> ?c c'"
    using cache_insert_spec [of ?c _ v "expiry_of now ttl" k] assms by auto
  have "execute E now (SetKey k v ttl) c = Some (RespStored, c')"
    using c'(1) by (cases ttl) (simp_all add: cache_set_def set_with_ttl_def expiry_of_def)
  moreover have "shows_but_evicted E now (put_view now k (v, expiry_of now ttl) (view E now c)) c c'"
    "grown E {k} c c'"
    using view_written [OF c'(3), of now] grown_written [OF c'(3)] by simp_all
  ultimately show ?thesis using c'(2) by (simp add: refines_def)
qed

lemma refines_delete:
  assumes "cache_inv E lru_wf c"
  shows "refines E lru_wf now (Delete k) c"
proof -
  obtain c' where c': "delete_at E k now c = Some (live_entry E now c k \<noteq> None, c')" "cache_inv E lru_wf c'"
      "deleted E k c c'"
    using delete_at_spec [OF assms] by blast
  let ?c = "if live_entry E now c k \<noteq> None then c'\<lparr>c_deletes := c_deletes c' + 1\<rparr> else c'"
  have "execute E now (Delete k) c = Some (if live_entry E now c k \<noteq> None then RespDeleted else RespNotFound, ?c)"
    using c'(1) by (simp add: cache_delete_def)
  moreover have "cache_inv E lru_wf ?c" "view E now ?c = (view E now c)(k := None)" "grown E {k} c ?c"
    using c'(2) view_deleted [OF c'(3), of now] grown_deleted [OF c'(3)] by simp_all
  ultimately show ?thesis
    by (auto simp: refines_def shows_exactly view_eq_None)
qed

lemma refines_handoff_delete:
  assumes "cache_inv E lru_wf c"
  shows "refines E lru_wf now (HandoffDelete k token) c"
proof -
  obtain c' where c': "handoff_delete_at E k now c = Some (live_entry E now c k \<noteq> None, c')" "cache_inv E lru_wf c'"
      "peek E c' = (peek E c)(k := None)" "c_pending_removal c' = c_pending_removal c"
    using handoff_delete_at_spec [OF assms] by blast
  then have "view E now c' = (view E now c)(k := None)" "grown E {k} c c'"
    by (auto simp: view_def grown_def split: if_splits)
  then show ?thesis
    using c' by (auto simp: refines_def shows_exactly view_eq_None)
qed

lemma refines_handoff_set:
  assumes "cache_inv E lru_wf c"
  shows "refines E lru_wf now (HandoffSet k v ttl False token ahead) c"
proof -
  let ?new = "ttl = Some 0 \<or> \<not> (\<exists>e. live_entry E now c k = Some e \<and> e_value e = v
              \<and> (e_expires_at e = None) = (expiry_of now ttl = None))"
  obtain c' where c': "handoff_set E k v ttl ahead now c = Some (?new, c')" "cache_inv E lru_wf c'"
      "c_pending_removal c' = c_pending_removal c"
      "if ttl = Some 0 then peek E c' = (peek E c)(k := None)
       else written E (name_charge (key_namespace k)) k
            \<lparr>e_value = v, e_expires_at = expiry_of now ttl, e_last_used = c_clock c + 1\<rparr>
            (note_handoff now ahead c) c'"
    using handoff_set_spec [OF assms, of k v ttl ahead now] by (auto split: if_splits)
  have new: "?new = (\<not> (ttl \<noteq> Some 0 \<and> (case view E now c k of None \<Rightarrow> False
      | Some (v', x) \<Rightarrow> v' = v \<and> (x = None) = (expiry_of now ttl = None))))"
    by (auto simp: live_entry_view split: option.splits)
  have "shows_but_evicted E now (if ttl = Some 0 then (view E now c)(k := None)
      else put_view now k (v, expiry_of now ttl) (view E now c)) c c' \<and> grown E {k} c c'"
  proof (cases "ttl = Some 0")
    case True
    then show ?thesis using c'(3, 4) by (auto simp: view_def grown_def fun_eq_iff intro!: shows_exactly)
  next
    case False
    then have w: "written E (name_charge (key_namespace k)) k
        \<lparr>e_value = v, e_expires_at = expiry_of now ttl, e_last_used = c_clock c + 1\<rparr> (note_handoff now ahead c) c'"
      using c'(4) by simp
    then show ?thesis
      using view_written [OF w, of now] grown_written [OF w] False by simp
  qed
  then show ?thesis
    using c'(1, 2) unfolding new by (simp add: refines_def)
qed

lemma refines_incr:
  assumes "cache_inv E lru_wf c"
  shows "refines E lru_wf now (Incr k delta) c"
proof (cases "live_entry E now c k")
  case None
  obtain c' where c': "incr_at E k delta now c = Some (IncrNotFound, c')" "cache_inv E lru_wf c'" "deleted E k c c'"
    using incr_at_absent [OF assms None] by blast
  have "view E now c k = None" using None by (simp add: view_eq_None)
  then have "view E now c' = view E now c" using view_deleted [OF c'(3), of now] by auto
  then show ?thesis
    using c' \<open>view E now c k = None\<close> grown_deleted [OF c'(3)] by (simp add: refines_def shows_exactly)
next
  case (Some e)
  then have v: "view E now c k = Some (e_value e, e_expires_at e)" by (simp add: live_entry_view)
  let ?new = "Option.bind (parse_decimal_i64 (e_value e)) (\<lambda>i. i64_checked_add i delta)"
  note live = incr_at_live [OF assms Some, of delta]
  show ?thesis
  proof (cases ?new)
    case None
    then show ?thesis using live assms v by (simp add: refines_def shows_exactly)
  next
    case (Some i)
    then obtain c' where c': "incr_at E k delta now c = Some (IncrValue i (map_option (\<lambda>t. t - now) (e_expires_at e)), c')"
        "cache_inv E lru_wf c'" "written E (name_charge (key_namespace k)) k
          \<lparr>e_value = int_to_dec i, e_expires_at = e_expires_at e, e_last_used = c_clock c + 1\<rparr>
          (c\<lparr>c_incrs := c_incrs c + 1\<rparr>) c'"
      using live by auto
    have "shows_but_evicted E now (put_view now k (int_to_dec i, e_expires_at e) (view E now c)) c c'" "grown E {k} c c'"
      using view_written [OF c'(3), of now] grown_written [OF c'(3)] by simp_all
    then show ?thesis using c'(1, 2) v Some by (simp add: refines_def)
  qed
qed

lemma refines_cas_set:
  assumes "cache_inv E lru_wf c"
  shows "refines E lru_wf now (CasSet k condition v ttl) c"
proof -
  obtain c1 where c1: "cache_inv E lru_wf c1" "looked_up E now k (\<lambda>e. e) c c1"
    and cas: "if holds E condition (live_entry E now c k)
     then \<exists>c'. cas_set_at E k condition v ttl now c = Some (Stored, c') \<and> cache_inv E lru_wf c'
        \<and> written E (name_charge (key_namespace k)) k
            \<lparr>e_value = v, e_expires_at = expiry_of now ttl, e_last_used = c_clock c + 1\<rparr>
            (c1\<lparr>c_cas_sets := c_cas_sets c1 + 1\<rparr>) c'
     else cas_set_at E k condition v ttl now c = Some (Mismatch, c1)"
    using cas_set_at_spec [OF assms, of now k condition v ttl] by blast
  have same: "view E now c1 = view E now c" by (rule view_looked_up [OF c1(2)]) auto
  note g1 = grown_looked_up [OF c1(2), of "{}"]
  show ?thesis
  proof (cases "holds E condition (live_entry E now c k)")
    case True
    then obtain c' where c': "cas_set_at E k condition v ttl now c = Some (Stored, c')" "cache_inv E lru_wf c'"
        "written E (name_charge (key_namespace k)) k
            \<lparr>e_value = v, e_expires_at = expiry_of now ttl, e_last_used = c_clock c + 1\<rparr>
            (c1\<lparr>c_cas_sets := c_cas_sets c1 + 1\<rparr>) c'"
      using cas by auto
    have g2: "grown E {k} c1 c'" using grown_written [OF c'(3)] by simp
    have "shows_but_evicted E now (put_view now k (v, expiry_of now ttl) (view E now c)) c c'"
      using view_written [OF c'(3), of now] same c1(2)
      by (simp add: shows_but_evicted_def looked_up_def same_core_def)
    then show ?thesis
      using c'(1, 2) grown_trans [OF g1 g2] True by (simp add: refines_def holds_view_live)
  next
    case False
    then show ?thesis
      using cas c1(1) same g1 by (auto simp: refines_def holds_view_live shows_exactly elim: grown_mono)
  qed
qed

lemma refines_cas_delete:
  assumes "cache_inv E lru_wf c"
  shows "refines E lru_wf now (CasDelete k expected) c"
proof -
  let ?h = "holds E (CondDigest expected) (live_entry E now c k)"
  obtain c' where c': "cas_delete_at E k expected now c = Some (?h, c')" "cache_inv E lru_wf c'"
      "if ?h then deleted E k c c' else looked_up E now k (\<lambda>e. e) c c'"
    using cas_delete_at_spec [OF assms, of k expected now] by (auto split: if_splits)
  have "view E now c' = (if ?h then (view E now c)(k := None) else view E now c)" "grown E {k} c c'"
    using c'(3) view_deleted [of E k c c' now] view_looked_up [of E now k "\<lambda>e. e" c c'] grown_deleted grown_looked_up
    by (auto split: if_splits)
  then show ?thesis
    using c'(1, 2) by (simp add: refines_def holds_view_live shows_exactly)
qed

lemma refines_touch:
  assumes "cache_inv E lru_wf c"
  shows "refines E lru_wf now (Touch k ttl get) c"
proof -
  let ?t = "if get then c_clock c + 1 else c_clock c"
  let ?f = "\<lambda>e. e\<lparr>e_expires_at := expiry_of now ttl, e_last_used := if get then ?t else e_last_used e\<rparr>"
  obtain c' where c': "touch_at E k ttl get now c
        = Some (map_option (\<lambda>e. (e_value e, map_option (\<lambda>x. x - now) (expiry_of now ttl))) (live_entry E now c k), c')"
      "cache_inv E lru_wf c'" "looked_up E now k ?f c c'"
    using touch_at_spec [OF assms, of k ttl get now] by blast
  then show ?thesis
    using view_retimed [OF c'(3), of "expiry_of now ttl"] grown_looked_up [OF c'(3)]
    by (auto simp: refines_def live_entry_view shows_exactly split: option.splits)
qed

lemma refines_multi_touch:
  assumes "cache_inv E lru_wf c"
  shows "refines E lru_wf now (MultiTouch n names ttl get) c"
proof -
  let ?bound = "if get then MAX_MULTI_REPLY_VALUE_BYTES else U64_MAX"
  have r: "resolves c n (find_namespace c n)" by (simp add: resolves_def slot_of_def find_namespace_def)
  have b: "?bound \<le> U64_MAX" "(if ?bound = U64_MAX then None else Some ?bound)
      = (if get then Some MAX_MULTI_REPLY_VALUE_BYTES else None)"
    by (simp_all add: MAX_MULTI_REPLY_VALUE_BYTES_def U64_MAX_def)
  have "map (touch_answer n [] (view E now c)) names = values_of n names (view E now c)"
    by (simp add: touch_answer_def values_of_def)
  then show ?thesis
    using touch_many_loop_spec [OF assms r b(1), of "[]" now ttl get 0 names] b(2)
    by (auto simp: refines_def touch_many_def Let_def shows_exactly intro: grown_mono)
qed

lemma clear_view:
  assumes "cache_inv E lru_wf c"
  shows "\<exists>x c'. clear E n c = Some (x, c') \<and> cache_inv E lru_wf c' \<and> grown E {} c c'
    \<and> view E now c' = (\<lambda>k. if key_namespace k = n then None else view E now c k)"
proof -
  obtain x c' where c': "clear E n c = Some (x, c')" "cache_inv E lru_wf c'"
      "peek E c' = (\<lambda>k. if key_namespace k = n then None else peek E c k)" "c_pending_removal c' = c_pending_removal c"
    using clear_spec [OF assms, of n] by blast
  moreover have "grown E {} c c'" using c'(3, 4) by (auto simp: grown_def split: if_splits)
  ultimately show ?thesis by (auto simp: view_def fun_eq_iff)
qed

lemma clear_all_view:
  "cache_inv E lru_wf (snd (clear_all c))" "grown E {} c (snd (clear_all c))" "view E now (snd (clear_all c)) = (\<lambda>_. None)"
proof -
  show "cache_inv E lru_wf (snd (clear_all c))" by (rule clear_all_spec)
  show "grown E {} c (snd (clear_all c))"
    using clear_all_spec(2) [of c] by (simp add: grown_def clear_all_def)
  show "view E now (snd (clear_all c)) = (\<lambda>_. None)"
    unfolding view_def clear_all_spec(2) by simp
qed

lemma refines_clear:
  assumes "cache_inv E lru_wf c"
  shows "refines E lru_wf now (Clear n) c" and "refines E lru_wf now ClearAll c"
    and "refines E lru_wf now (HandoffClear all n token) c"
  using clear_view [OF assms, of n now] clear_all_view(1, 2) [of c] clear_all_view(3) [of now c]
  by (cases all; auto simp: refines_def shows_exactly case_prod_beta)+

lemmas refines_intros = refines_get refines_multi_get refines_multi_set refines_set refines_delete
  refines_handoff_delete refines_handoff_set refines_incr refines_cas_set refines_cas_delete refines_touch
  refines_multi_touch refines_clear

lemma execute_refines:
  assumes "cache_inv E lru_wf c" and "spec_step (content_digest E) now cmd (view E now c) \<noteq> None"
  shows "refines E lru_wf now cmd c"
proof (cases cmd)
  case (HandoffSet k v ttl if_absent token ahead)
  then show ?thesis using assms(2) by (cases if_absent) (simp_all add: refines_handoff_set [OF assms(1)])
qed (use assms(2) in \<open>simp_all add: refines_intros [OF assms(1)]\<close>)

section \<open>Every command of the store returns\<close>

lemma sweep_candidates_stored:
  assumes "cache_inv E lru_wf c"
  shows "set (sweep_candidates E now im c)
    = {k. \<exists>e. peek E c k = Some e \<and> is_expired_at e now} \<union> {k. im \<and> is_marked c k}"
proof -
  note inv' = assms [unfolded cache_inv_def]
  have d: "distinct (map fst (c_slots c))" using inv_index [OF inv'] by (simp add: index_inv_def)
  have slots: "k \<in> set (concat (map (\<lambda>(_, ns). f ns) (c_slots c)))
      \<longleftrightarrow> (\<exists>sid ns. map_of (c_slots c) sid = Some ns \<and> k \<in> set (f ns))" for k and f :: "'l namespace \<Rightarrow> key list"
    using d by force
  have expired: "k \<in> set (map (\<lambda>(name, _). new_key (ns_name ns) name)
      (filter (\<lambda>(_, e). is_expired_at e now) (lru_iter E (ns_entries ns))))
      \<longleftrightarrow> key_namespace k = ns_name ns \<and> (\<exists>e. peek E c k = Some e \<and> is_expired_at e now)"
    if "map_of (c_slots c) sid = Some ns" for sid ns k
  proof -
    have "(n, e) \<in> set (lru_iter E (ns_entries ns)) \<longleftrightarrow> peek E c (new_key (ns_name ns) n) = Some e" for n e
      using peek_in [OF inv' that] ns_inv_distinct [OF inv_ns [OF inv' that]] by (simp add: ns_items_def)
    then show ?thesis by (cases k) (auto simp: new_key_def image_iff)
  qed
  have marked: "k \<in> set (map (new_key (ns_name ns)) (ns_migrated ns)) \<longleftrightarrow> key_namespace k = ns_name ns \<and> is_marked c k"
    if "map_of (c_slots c) sid = Some ns" for sid ns k
    using marked_slot [OF inv' that] by (cases k) (auto simp: new_key_def image_iff)
  have home: "\<exists>sid ns. map_of (c_slots c) sid = Some ns \<and> key_namespace k = ns_name ns" if "peek E c k \<noteq> None" for k
    using that by (metis not_None_eq peek_slotE [OF inv'])
  have "set (concat (map (\<lambda>(_, ns). map (\<lambda>(name, _). new_key (ns_name ns) name)
      (filter (\<lambda>(_, e). is_expired_at e now) (lru_iter E (ns_entries ns)))) (c_slots c)))
      = {k. \<exists>e. peek E c k = Some e \<and> is_expired_at e now}"
    unfolding set_eq_iff slots mem_Collect_eq using home expired by (metis option.distinct(1))
  moreover have "set (concat (map (\<lambda>(_, ns). map (new_key (ns_name ns)) (ns_migrated ns)) (c_slots c)))
      = {k. is_marked c k}"
    unfolding set_eq_iff slots mem_Collect_eq using home marked marked_present [OF inv'] by metis
  ultimately show ?thesis
    by (simp add: sweep_candidates_def)
qed

lemma sweep_candidates_tomb: "tomb_step c c' \<Longrightarrow> sweep_candidates E now im c' = sweep_candidates E now im c"
  by (simp add: sweep_candidates_def tomb_step_slots(1) [of c c'])

lemma sweep_at_spec:
  assumes inv: "node_inv E lru_wf c" and total: "\<And>k. short_key k \<Longrightarrow> (case owned of None \<Rightarrow> True | Some f \<Rightarrow> f k \<noteq> None)"
  shows "\<exists>n c'. sweep_at E now im owned c = Some (n, c') \<and> node_inv E lru_wf c'
    \<and> ((\<forall>k \<in> set (sweep_queue E now im c). peek E c k = None) \<longrightarrow> n = 0)
    \<and> c_pending_removal c' = drop SWEEP_BUDGET (sweep_queue E now im c)
    \<and> peek E c' = (\<lambda>k. if k \<in> set (take SWEEP_BUDGET (sweep_queue E now im c))
         then sweep_fate now im owned (is_marked c k) k (peek E c k) else peek E c k)"
proof -
  let ?p = "prune_tombstones now c"
  have step: "tomb_step c ?p" "tombstones_inv ?p"
    using prune_tombstones_spec [of c now] inv by (auto simp: node_inv_def)
  have p: "cache_inv E lru_wf ?p" "peek E ?p = peek E c" "c_pending_removal ?p = c_pending_removal c"
    "is_marked ?p = is_marked c"
    using tomb_step_inv [OF _ step] tomb_step_slots(4) [OF step(1)] inv by (auto simp: node_inv_def)
  define q where "q = (if c_pending_removal ?p = [] then ?p\<lparr>c_pending_removal := sweep_candidates E now im ?p\<rparr> else ?p)"
  have queue: "c_pending_removal q = sweep_queue E now im c"
    using p(3) by (simp add: q_def sweep_queue_def sweep_candidates_tomb [OF step(1)])
  have "set (sweep_candidates E now im ?p) \<subseteq> dom (peek E c)"
    using sweep_candidates_stored [OF p(1)] marked_present [OF p(1) [unfolded cache_inv_def]] p(2) by fastforce
  then have q: "cache_inv E lru_wf q" "peek E q = peek E c" "is_marked q = is_marked c"
      "\<forall>k \<in> set (c_pending_removal q). short_key k"
    using p inv by (auto simp: q_def node_inv_def short_keys_def)
  then obtain n c' where c': "sweep_loop E now im owned SWEEP_BUDGET 0 q = Some (n, c')" "cache_inv E lru_wf c'"
      "c_pending_removal c' = drop SWEEP_BUDGET (c_pending_removal q)"
      "peek E c' = (\<lambda>k. if k \<in> set (take SWEEP_BUDGET (c_pending_removal q))
         then sweep_fate now im owned (is_marked q k) k (peek E q k) else peek E q k)"
      "(\<forall>k \<in> set (c_pending_removal q). peek E q k = None) \<longrightarrow> n = 0"
    using sweep_loop_spec [OF q(1), of owned now im SWEEP_BUDGET 0] total by auto
  have "dom (peek E c') \<subseteq> dom (peek E c)"
    using c'(4) q(2) by (auto simp: sweep_fate_def split: if_splits option.splits)
  moreover have "set (c_pending_removal c') \<subseteq> set (c_pending_removal q)"
    using c'(3) by (simp add: set_drop_subset)
  ultimately have "node_inv E lru_wf c'"
    using c'(2) q(4) inv unfolding node_inv_def short_keys_def by blast
  moreover have "sweep_at E now im owned c = Some (n, c')"
    using c'(1) by (simp add: sweep_at_def Let_def q_def)
  ultimately show ?thesis using c'(3-5) unfolding queue q(2, 3) by blast
qed

lemma node_inv_grown:
  assumes "node_inv E lru_wf c" and "cache_inv E lru_wf c'" and "grown E (set (command_keys cmd)) c c'"
    and "store_command cmd"
  shows "node_inv E lru_wf c'"
proof -
  have "\<forall>k \<in> set (command_keys cmd). short_key k" using assms(4) by (simp add: store_command_def)
  then show ?thesis using assms(1-3) by (simp add: node_inv_def short_keys_def grown_def) blast
qed

text \<open>The commands that are not data commands leave what is visible as it is, or remove some of it.\<close>

lemma upkeep_mark:
  assumes "cache_inv E lru_wf c"
  shows "\<exists>c'. execute E now (MarkMigrated k) c = Some (RespMarked, c') \<and> cache_inv E lru_wf c' \<and> grown E K c c'
      \<and> view E now c' = view E now c"
    and "\<exists>c'. execute E now (UnmarkMigratedMany ks) c = Some (RespUnmarked, c') \<and> cache_inv E lru_wf c'
      \<and> grown E K c c' \<and> view E now c' = view E now c"
proof -
  show "\<exists>c'. execute E now (MarkMigrated k) c = Some (RespMarked, c') \<and> cache_inv E lru_wf c' \<and> grown E K c c'
      \<and> view E now c' = view E now c"
    using mark_migrated_spec [OF assms, of k]
    by (auto simp: remarked_def same_core_def intro: grown_same_peek view_peek)
  show "\<exists>c'. execute E now (UnmarkMigratedMany ks) c = Some (RespUnmarked, c') \<and> cache_inv E lru_wf c'
      \<and> grown E K c c' \<and> view E now c' = view E now c"
    using clear_marks_spec [OF assms, of ks]
    by (auto simp: unmark_migrated_many_def Let_def intro: grown_same_peek view_peek)
qed

lemma upkeep_reclaim:
  assumes "cache_inv E lru_wf c" and "\<forall>k \<in> set ks. short_key k"
  shows "\<exists>resp c'. execute E now (ReclaimUnowned ks checks quiet) c = Some (resp, c') \<and> cache_inv E lru_wf c'
    \<and> grown E K c c' \<and> view E now c' \<subseteq>\<^sub>m view E now c"
proof (cases "case c_last_handoff_at c of None \<Rightarrow> False | Some at \<Rightarrow> now - at < quiet")
  case True
  then show ?thesis using assms by (simp add: reclaim_unowned_at_def Let_def)
next
  case False
  have "owned_by_any checks k \<noteq> None" if "k \<in> set ks" for k
    using assms(2) that key_hash_short by (auto simp: owned_by_any_def)
  then obtain c' n where c': "reclaim_loop E (owned_by_any checks) ks 0 c = Some (n, c')" "cache_inv E lru_wf c'"
      "peek E c' = (\<lambda>k. if k \<in> set ks \<and> owned_by_any checks k = Some False then None else peek E c k)"
      "c_pending_removal c' = c_pending_removal c"
    using reclaim_loop_spec [OF assms(1), of ks "owned_by_any checks" 0] by auto
  have "grown E K c c'" using c'(3, 4) by (auto simp: grown_def split: if_splits)
  moreover have "view E now c' \<subseteq>\<^sub>m view E now c"
    using c'(3) by (auto simp: view_def map_le_def split: if_splits)
  ultimately show ?thesis
    using c'(1, 2) False by (simp add: reclaim_unowned_at_def Let_def)
qed

lemma upkeep_put_if_absent:
  assumes "cache_inv E lru_wf c"
  shows "\<exists>r c'. execute E now (HandoffSet k v ttl True token ahead) c = Some (r, c') \<and> cache_inv E lru_wf c'
    \<and> grown E {k} c c'
    \<and> (r = RespStored \<and> view E now c' \<subseteq>\<^sub>m put_view now k (v, expiry_of now ttl) (view E now c)
       \<or> r = RespStoredUnchanged \<and> view E now c' \<subseteq>\<^sub>m view E now c)"
proof -
  let ?refused = "tombstoned_at k now c \<or> live_entry E now c k \<noteq> None \<and> \<not> is_marked c k"
  obtain c1 where c1: "cache_inv E lru_wf c1" "c_pending_removal c1 = c_pending_removal c"
      "live_entry E now c1 k = live_entry E now c k"
      "\<forall>k'. k' \<noteq> k \<longrightarrow> peek E c1 k' = peek E c k' \<and> is_marked c1 k' = is_marked c k'"
    and r: "if ?refused then handoff_set_if_absent_at E k v ttl ahead now c = Some (Mismatch, c1)
       else \<exists>c'. handoff_set_if_absent_at E k v ttl ahead now c = Some (Stored, c') \<and> cache_inv E lru_wf c'
        \<and> written E (name_charge (key_namespace k)) k
            \<lparr>e_value = v, e_expires_at = expiry_of now ttl, e_last_used = c_clock c + 1\<rparr> c1 c'"
    using handoff_set_if_absent_at_spec [OF assms, of now k v ttl ahead] by blast
  have same: "view E now c1 = view E now c"
  proof
    fix k'
    show "view E now c1 k' = view E now c k'"
      using c1(3, 4) by (cases "k' = k") (simp_all add: live_entry_view live_entry_def)
  qed
  have g1: "grown E {k} c c1" using c1(2, 4) by (fastforce simp: grown_def)
  show ?thesis
  proof (cases ?refused)
    case True
    then show ?thesis using r c1(1) g1 same by simp
  next
    case False
    then obtain c' where c': "handoff_set_if_absent_at E k v ttl ahead now c = Some (Stored, c')" "cache_inv E lru_wf c'"
        "written E (name_charge (key_namespace k)) k
            \<lparr>e_value = v, e_expires_at = expiry_of now ttl, e_last_used = c_clock c + 1\<rparr> c1 c'"
      using r by auto
    then show ?thesis
      using grown_trans [OF g1 grown_written [OF c'(3)]] view_written [OF c'(3), of now] same
      by (simp add: shows_but_evicted_def)
  qed
qed

lemma upkeep_returns:
  assumes "node_inv E lru_wf c" and "store_command cmd" and "upkeep cmd"
  shows "\<exists>r c'. execute E now cmd c = Some (r, c') \<and> node_inv E lru_wf c' \<and> view E now c' \<subseteq>\<^sub>m view E now c"
proof -
  have inv: "cache_inv E lru_wf c" using assms(1) by (simp add: node_inv_def)
  note keep = node_inv_grown [OF assms(1) _ _ assms(2)]
  have short: "\<forall>k \<in> set (command_keys cmd). short_key k" using assms(2) by (simp add: store_command_def)
  show ?thesis
  proof (cases cmd)
    case (MarkMigrated k)
    then show ?thesis using upkeep_mark(1) [OF inv, of now k "{k}"] keep by auto
  next
    case (UnmarkMigratedMany ks)
    then show ?thesis using upkeep_mark(2) [OF inv, of now ks "set ks"] keep by auto
  next
    case (ReclaimUnowned ks checks quiet)
    then show ?thesis using upkeep_reclaim [OF inv, of ks now checks quiet "set ks"] keep short by auto
  next
    case (Sweep marked owned)
    let ?own = "if marked then map_option sweep_keeps owned else None"
    obtain n c' where c': "sweep_at E now marked ?own c = Some (n, c')" "node_inv E lru_wf c'"
        "peek E c' = (\<lambda>k. if k \<in> set (take SWEEP_BUDGET (sweep_queue E now marked c))
           then sweep_fate now marked ?own (is_marked c k) k (peek E c k) else peek E c k)"
      using sweep_at_spec [OF assms(1), of ?own now marked] sweep_keeps_total [of _ marked owned] by blast
    have "view E now c' \<subseteq>\<^sub>m view E now c"
      unfolding view_def c'(3) by (auto simp: map_le_def sweep_fate_def split: if_splits option.splits)
    then show ?thesis unfolding Sweep execute_sweep using c'(1, 2) by simp
  qed (use assms in \<open>auto simp: upkeep_def\<close>)
qed

lemma execute_returns:
  assumes "node_inv E lru_wf c" and "store_command cmd"
  shows "\<exists>r c'. execute E now cmd c = Some (r, c') \<and> node_inv E lru_wf c'
    \<and> lossy_step (content_digest E) now cmd (view E now c) r (view E now c')"
proof -
  have inv: "cache_inv E lru_wf c" using assms(1) by (simp add: node_inv_def)
  note keep = node_inv_grown [OF assms(1) _ _ assms(2)]
  consider (spec) "spec_step (content_digest E) now cmd (view E now c) \<noteq> None" | (upkeep) "upkeep cmd"
    | (absent) k v ttl token ahead where "cmd = HandoffSet k v ttl True token ahead"
    using store_command_cases [OF assms(2)] by metis
  then show ?thesis
  proof cases
    case spec
    from execute_refines [OF inv spec] show ?thesis
      unfolding refines_def shows_but_evicted_def by (metis keep lossy_step.data)
  next
    case upkeep
    then show ?thesis using upkeep_returns [OF assms upkeep, of now] lossy_step.upkeep by metis
  next
    case absent
    then show ?thesis
      using upkeep_put_if_absent [OF inv, of now k v ttl token ahead] keep
      by (auto intro: lossy_step.stored lossy_step.refused)
  qed
qed

lemma session_returns:
  assumes "node_inv E lru_wf c" and "\<forall>(_, cmd) \<in> set cmds. store_command cmd" and "sorted (t # map fst cmds)"
  shows "\<exists>rs c'. session E cmds c = Some (rs, c') \<and> node_inv E lru_wf c'
    \<and> (\<exists>m. lossy_session (content_digest E) t (view E t c) cmds rs m)"
  using assms
proof (induction cmds arbitrary: c t)
  case Nil
  then show ?case by (auto intro: lossy_session.ended)
next
  case (Cons x cmds)
  obtain now cmd where x: "x = (now, cmd)" by fastforce
  have "store_command cmd" using Cons.prems(2) x by simp
  then obtain r c1 where c1: "execute E now cmd c = Some (r, c1)" "node_inv E lru_wf c1"
      "lossy_step (content_digest E) now cmd (view E now c) r (view E now c1)"
    using execute_returns [OF Cons.prems(1)] by blast
  obtain rs c' m where c': "session E cmds c1 = Some (rs, c')" "node_inv E lru_wf c'"
      "lossy_session (content_digest E) now (view E now c1) cmds rs m"
    using Cons.IH [OF c1(2), of now] Cons.prems(2, 3) x by auto
  have "t \<le> now" using Cons.prems(3) x by simp
  then have "lossy_session (content_digest E) t (view E t c) (x # cmds) (r # rs) m"
    using lossy_session.more [OF _ _ c'(3)] c1(3) view_later [of t now E c] by (simp add: x)
  then show ?case using c1(1) c'(1, 2) x by auto
qed

lemma with_budgets_inv:
  "node_inv E lru_wf (with_budgets max_bytes budgets)"
  by (simp add: node_inv_def short_keys_def with_budgets_def cache_inv_def cache_inv_but_def index_inv_def
      stamps_unique_def totals_inv_def tombstones_inv_def slots_bytes_def slots_entries_def slots_marked_def
      tombstones_bytes_def peek_def dom_def find_namespace_def)

end

end
