(* ===== verification/Node_Props.thy ===== *)
theory Node_Props
  imports Node_Exec
begin

text \<open>
  The properties of the store and of the commands on it. Each is stated for any LRU map that keeps the
  laws of \<open>lru_cache\<close>; the witnesses take the list instance.
\<close>

section \<open>The eviction oracle\<close>

lemma fold_min_fst:
  "fold (\<lambda>x m. if fst x < fst m then x else m) ts t \<in> insert t (set ts)
    \<and> (\<forall>y \<in> insert t (set ts). fst (fold (\<lambda>x m. if fst x < fst m then x else m) ts t) \<le> (fst y :: nat))"
proof (induction ts arbitrary: t)
  case (Cons x ts)
  show ?case using Cons.IH [of "if fst x < fst t then x else t"] by (auto split: if_splits)
qed simp

context lru_cache
begin

lemma slot_mem_iff:
  assumes "cache_inv E lru_wf c"
  shows "(sid, ns) \<in> set (c_slots c) \<longleftrightarrow> map_of (c_slots c) sid = Some ns"
  using inv_index [OF assms [unfolded cache_inv_def]] by (simp add: index_inv_def)

lemma slot_nonempty:
  assumes "cache_inv E lru_wf c" and "map_of (c_slots c) sid = Some ns"
  shows "ns_items E ns \<noteq> []"
  using assms by (simp add: cache_inv_def cache_inv_but_def slot_inv_def)

lemma scan_tails:
  assumes "cache_inv E lru_wf c"
  shows "set (List.map_filter (\<lambda>(sid, namespace).
      map_option (\<lambda>(_, entry). (e_last_used entry, sid)) (lru_peek_lru E (ns_entries namespace))) (c_slots c))
    = {(e_last_used (snd (last (ns_items E ns))), sid) | sid ns. map_of (c_slots c) sid = Some ns}"
proof -
  have "lru_peek_lru E (ns_entries ns) = Some (last (ns_items E ns))" if "map_of (c_slots c) sid = Some ns" for sid ns
    using slot_nonempty [OF assms that] ns_inv_wf [OF inv_ns [OF assms [unfolded cache_inv_def] that]]
    by (simp add: ns_items_def)
  then show ?thesis
    using slot_mem_iff [OF assms] by (force simp: List.map_filter_def case_prod_beta)
qed

lemma evict_pop_scan:
  assumes inv: "cache_inv E lru_wf c" and "0 < c_entry_count c"
  shows "\<exists>k victim tails empties. evict_pop E (c_slots c) (c_tails c) [] = Some ((k, victim), tails, empties)
    \<and> scan_victim E c = Some victim"
proof -
  obtain k victim tails empties ns where
    pop: "evict_pop E (c_slots c) (c_tails c) [] = Some ((k, victim), tails, empties)"
    and v: "map_of (c_slots c) victim = Some ns" "ns_items E ns \<noteq> []" "e_last_used (snd (last (ns_items E ns))) = k"
    and least: "\<forall>sid x s. map_of (c_slots c) sid = Some x \<longrightarrow> s \<in> ns_stamps E x \<longrightarrow> k \<le> s"
    using evict_pop_cache [OF assms] by blast
  let ?tails = "List.map_filter (\<lambda>(sid, namespace).
      map_option (\<lambda>(_, entry). (e_last_used entry, sid)) (lru_peek_lru E (ns_entries namespace))) (c_slots c)"
  have mem: "(k, victim) \<in> set ?tails" using v scan_tails [OF inv] by blast
  then obtain t ts where t: "?tails = t # ts" by (cases ?tails) auto
  let ?m = "fold (\<lambda>x m. if fst x < fst m then x else m) ts t"
  have "?m \<in> set ?tails" "fst ?m \<le> k" using fold_min_fst [of ts t] mem t by force+
  then obtain sid x where sid: "?m = (e_last_used (snd (last (ns_items E x))), sid)" "map_of (c_slots c) sid = Some x"
    using scan_tails [OF inv] by auto
  have stamp: "e_last_used (snd (last (ns_items E y))) \<in> ns_stamps E y" if "ns_items E y \<noteq> []" for y
    using last_in_set [OF that] by (force simp: ns_stamps_def case_prod_beta)
  have "fst ?m = k"
    using least sid stamp [OF slot_nonempty [OF inv sid(2)]] \<open>fst ?m \<le> k\<close> by fastforce
  then have "k \<in> ns_stamps E ns \<inter> ns_stamps E x"
    using v(3) sid(1) stamp [OF v(2)] stamp [OF slot_nonempty [OF inv sid(2)]] by simp
  moreover have "stamps_unique E c" using inv by (simp add: cache_inv_def cache_inv_but_def)
  ultimately have "sid = victim"
    using v(1) sid(2) unfolding stamps_unique_def by blast
  then show ?thesis using pop t sid(1) by (simp add: scan_victim_def)
qed

section \<open>The totals\<close>

lemma dom_peek:
  assumes inv: "cache_inv E lru_wf c"
  shows "dom (peek E c) = (\<Union>x \<in> set (c_slots c). new_key (ns_name (snd x)) ` fst ` set (ns_items E (snd x)))"
proof (rule set_eqI, rule iffI)
  note inv' = inv [unfolded cache_inv_def]
  fix k
  assume "k \<in> dom (peek E c)"
  then obtain e where "peek E c k = Some e" by blast
  then obtain sid ns where ns: "map_of (c_slots c) sid = Some ns" "ns_name ns = key_namespace k"
      "map_of (ns_items E ns) (key_name k) = Some e"
    by (rule peek_slotE [OF inv'])
  have "k = new_key (ns_name (snd (sid, ns))) (fst (key_name k, e))" by (simp add: ns(2))
  moreover have "(sid, ns) \<in> set (c_slots c)" "(key_name k, e) \<in> set (ns_items E (snd (sid, ns)))"
    using ns slot_mem_iff [OF inv] by (simp_all add: map_of_SomeD)
  ultimately show "k \<in> (\<Union>x \<in> set (c_slots c). new_key (ns_name (snd x)) ` fst ` set (ns_items E (snd x)))"
    by blast
next
  note inv' = inv [unfolded cache_inv_def]
  fix k
  assume "k \<in> (\<Union>x \<in> set (c_slots c). new_key (ns_name (snd x)) ` fst ` set (ns_items E (snd x)))"
  then obtain sid ns n e where k: "(sid, ns) \<in> set (c_slots c)" "(n, e) \<in> set (ns_items E ns)" "k = new_key (ns_name ns) n"
    by auto
  then have "map_of (ns_items E ns) n \<noteq> None" using weak_map_of_SomeI by fastforce
  then show "k \<in> dom (peek E c)"
    using peek_in [OF inv', of sid ns n] k slot_mem_iff [OF inv] by auto
qed

lemma slots_named_apart:
  assumes inv: "cache_inv E lru_wf c" and "x \<in> set (c_slots c)" "y \<in> set (c_slots c)" "ns_name (snd x) = ns_name (snd y)"
  shows "x = y"
proof -
  note index = inv_index [OF inv [unfolded cache_inv_def]]
  have "map_of (c_slots c) (fst z) = Some (snd z)" if "z \<in> set (c_slots c)" for z
    using that slot_mem_iff [OF inv, of "fst z" "snd z"] by simp
  then have s: "map_of (c_slots c) (fst x) = Some (snd x)" "map_of (c_slots c) (fst y) = Some (snd y)"
    using assms by blast+
  then have "fst x = fst y"
    using index_slot [OF index s(1)] index_slot [OF index s(2)] assms(4) by simp
  then show ?thesis using s by (simp add: prod_eq_iff)
qed

text \<open>A sum over the stored keys is the sum over the namespaces of the sums over their entries.\<close>

lemma sum_stored:
  fixes f :: "key \<Rightarrow> entry \<Rightarrow> int"
  assumes inv: "cache_inv E lru_wf c"
  shows "(\<Sum>k \<in> dom (peek E c). f k (the (peek E c k)))
    = sum_list (map (\<lambda>x. sum_list (map (\<lambda>p. f (new_key (ns_name (snd x)) (fst p)) (snd p)) (ns_items E (snd x)))) (c_slots c))"
proof -
  note inv' = inv [unfolded cache_inv_def]
  let ?keys = "\<lambda>x. new_key (ns_name (snd x)) ` fst ` set (ns_items E (snd x))"
  let ?f = "\<lambda>k. f k (the (peek E c k))"
  have d: "distinct (c_slots c)"
    using inv_index [OF inv'] by (simp add: index_inv_def distinct_map)
  have one: "sum ?f (?keys x) = sum_list (map (\<lambda>p. f (new_key (ns_name (snd x)) (fst p)) (snd p)) (ns_items E (snd x)))"
    if "x \<in> set (c_slots c)" for x
  proof -
    have slot: "map_of (c_slots c) (fst x) = Some (snd x)"
      using that slot_mem_iff [OF inv, of "fst x" "snd x"] by simp
    have dx: "distinct (map fst (ns_items E (snd x)))" by (rule ns_inv_distinct [OF inv_ns [OF inv' slot]])
    have inj: "inj_on (\<lambda>p. new_key (ns_name (snd x)) (fst p)) (set (ns_items E (snd x)))"
      using dx by (auto simp: distinct_map inj_on_def new_key_def)
    have "sum ?f (?keys x) = (\<Sum>p \<in> set (ns_items E (snd x)). ?f (new_key (ns_name (snd x)) (fst p)))"
      using sum.reindex [OF inj, of ?f] by (simp add: image_image comp_def)
    also have "\<dots> = (\<Sum>p \<in> set (ns_items E (snd x)). f (new_key (ns_name (snd x)) (fst p)) (snd p))"
      by (rule sum.cong) (use dx peek_in [OF inv' slot] in auto)
    finally show ?thesis using dx by (simp add: sum_list_distinct_conv_sum_set distinct_map)
  qed
  have apart: "?keys x \<inter> ?keys y = {}" if "ns_name (snd x) \<noteq> ns_name (snd y)" for x y
    using that by (auto simp: new_key_def)
  have "sum ?f (dom (peek E c)) = (\<Sum>x \<in> set (c_slots c). sum ?f (?keys x))"
    unfolding dom_peek [OF inv]
    by (rule sum.UNION_disjoint) (use apart slots_named_apart [OF inv] in \<open>simp, simp, metis\<close>)
  also have "\<dots> = (\<Sum>x \<in> set (c_slots c).
      sum_list (map (\<lambda>p. f (new_key (ns_name (snd x)) (fst p)) (snd p)) (ns_items E (snd x))))"
    by (rule sum.cong) (use one in auto)
  finally show ?thesis using d by (simp add: sum_list_distinct_conv_sum_set)
qed

lemma entry_count_card:
  assumes inv: "cache_inv E lru_wf c"
  shows "c_entry_count c = int (card (dom (peek E c)))"
  using sum_stored [OF inv, of "\<lambda>_ _. 1"] inv
  by (simp add: cache_inv_def cache_inv_but_def totals_inv_def slots_entries_def case_prod_unfold sum_list_triv)

lemma used_bytes_cover:
  assumes inv: "cache_inv E lru_wf c"
  shows "(\<Sum>k \<in> dom (peek E c). entry_bytes (key_name k) (e_value (the (peek E c k)))) \<le> c_used_bytes c"
proof -
  have "(\<Sum>k \<in> dom (peek E c). entry_bytes (key_name k) (e_value (the (peek E c k))))
      = sum_list (map (\<lambda>x. items_bytes (ns_items E (snd x))) (c_slots c))"
    using sum_stored [OF inv, of "\<lambda>k e. entry_bytes (key_name k) (e_value e)"]
    by (simp add: items_bytes_def case_prod_unfold new_key_def)
  also have "\<dots> \<le> slots_bytes (c_slots c)"
  proof -
    have charges: "0 \<le> mark_charge n" "0 \<le> digest_charge n" for n
      by (simp_all add: mark_charge_def digest_charge_def MARK_OVERHEAD_BYTES_def DIGEST_OVERHEAD_BYTES_def)
    have "items_bytes (ns_items E (snd x)) \<le> ns_used_bytes (snd x) + name_charge (ns_name (snd x))"
      if "x \<in> set (c_slots c)" for x
    proof -
      have "map_of (c_slots c) (fst x) = Some (snd x)"
        using that slot_mem_iff [OF inv, of "fst x" "snd x"] by simp
      then have "ns_used_bytes (snd x) = ns_true_bytes E (snd x)"
        using inv_ns [OF inv [unfolded cache_inv_def]] by (simp add: ns_inv_def)
      moreover have "0 \<le> sum_list (map mark_charge l)" "0 \<le> sum_list (map (\<lambda>p. digest_charge (fst p)) l')"
        for l and l' :: "(bytes \<times> bytes) list"
        using charges by (auto intro!: sum_list_nonneg)
      ultimately show ?thesis
        by (simp add: ns_true_bytes_def case_prod_unfold add_nonneg_nonneg)
    qed
    then show ?thesis
      unfolding slots_bytes_def case_prod_unfold by (rule sum_list_mono)
  qed
  also have "\<dots> \<le> c_used_bytes c"
  proof -
    have "0 \<le> tombstones_bytes ts" for ts
      unfolding tombstones_bytes_def
      by (rule sum_list_nonneg) (auto simp: tombstone_bytes_def TOMBSTONE_OVERHEAD_BYTES_def)
    then show ?thesis using inv by (simp add: cache_inv_def cache_inv_but_def totals_inv_def)
  qed
  finally show ?thesis .
qed

end

section \<open>Properties: sessions\<close>

text \<open>C1. A node started with any budgets survives any session: every sequence of commands the store takes
  (keys whose namespace fits its 32-bit length, instants that do not go back) is executed to the
  end, the invariant of the store holds afterwards, and the replies are those of a map with expiries
  that may lose entries but never invents or revives one.\<close>

theorem session_is_lossy_map:
  assumes "lru_cache E lru_wf" and "\<forall>(_, cmd) \<in> set cmds. store_command cmd" and "sorted (map fst cmds)"
  shows "\<exists>rs c'. session E cmds (with_budgets max_bytes budgets) = Some (rs, c') \<and> node_inv E lru_wf c'
    \<and> (\<exists>m. lossy_session (content_digest E) 0 (\<lambda>_. None) cmds rs m)"
proof -
  have "view E 0 (with_budgets max_bytes budgets) = (\<lambda>_. None)"
    by (simp add: view_def peek_def with_budgets_def find_namespace_def)
  then show ?thesis
    using lru_cache.session_returns [OF assms(1) lru_cache.with_budgets_inv [OF assms(1), of max_bytes budgets] assms(2), of 0] assms(3)
    by simp
qed

theorem session_is_lossy_map_witness:
  "\<exists>rs c'. session (list_env id)
      [(0, SetKey (new_key ''n'' ''k'') ''7'' (Some 5)), (2, Incr (new_key ''n'' ''k'') 3), (9, Sweep False None)]
      (with_budgets 1000 [(''n'', 500)]) = Some (rs, c') \<and> node_inv (list_env id) list_wf c'
    \<and> (\<exists>m. lossy_session (content_digest (list_env id)) 0 (\<lambda>_. None)
      [(0, SetKey (new_key ''n'' ''k'') ''7'' (Some 5)), (2, Incr (new_key ''n'' ''k'') 3), (9, Sweep False None)] rs m)"
  by (rule session_is_lossy_map [OF list_lru.lru_cache_axioms])
     (simp_all add: store_command_def short_key_def new_key_def U32_MAX_def)

text \<open>C2. A data command does on the store what it does on a map: from any state that satisfies the
  invariant it returns, its reply is the one the map gives, and what is visible afterwards is the
  updated map, without the entries that were evicted to make room and all of it if none were.\<close>

theorem data_command_refines_map:
  assumes "lru_cache E lru_wf" and "cache_inv E lru_wf c"
    and "spec_step (content_digest E) now cmd (view E now c) = Some (reply, m)"
  shows "\<exists>r c'. execute E now cmd c = Some (r, c') \<and> cache_inv E lru_wf c'
    \<and> (case reply of None \<Rightarrow> \<exists>n. r = RespCleared n | Some r' \<Rightarrow> r = r') \<and> shows_but_evicted E now m c c'"
  using lru_cache.execute_refines [OF assms(1, 2), of now cmd] assms(3) by (auto simp: refines_def)

theorem data_command_refines_map_witness:
  "\<exists>r c'. execute (list_env id) 3 (Incr (new_key ''n'' ''k'') 5) (with_budgets 100 []) = Some (r, c')
    \<and> cache_inv (list_env id) list_wf c' \<and> r = RespNotFound
    \<and> shows_but_evicted (list_env id) 3 (\<lambda>_. None) (with_budgets 100 []) c'"
proof -
  have "cache_inv (list_env id) list_wf (with_budgets 100 [])"
    using list_lru.with_budgets_inv by (simp add: node_inv_def)
  moreover have "spec_step (content_digest (list_env id)) 3 (Incr (new_key ''n'' ''k'') 5)
      (view (list_env id) 3 (with_budgets 100 [])) = Some (Some RespNotFound, \<lambda>_. None)"
    by (simp add: view_def peek_def with_budgets_def find_namespace_def)
  ultimately show ?thesis
    using data_command_refines_map [OF list_lru.lru_cache_axioms] by fastforce
qed

section \<open>Properties: memory\<close>

text \<open>C4. A write always succeeds, its entry is stored, and the memory budget holds afterwards unless
  that entry is the only one left. Without a budget on its namespace the entries that had to go are
  the least recently used of the whole store, and none goes if the new entry fits.\<close>

theorem write_fits_memory:
  assumes "lru_cache E lru_wf" and "cache_inv E lru_wf c"
  shows "\<exists>c' e. cache_insert E k v x c = Some c' \<and> cache_inv E lru_wf c'
    \<and> peek E c' k = Some e \<and> e_value e = v \<and> e_expires_at e = x
    \<and> (c_used_bytes c' \<le> c_max_memory_bytes c \<or> dom (peek E c') = {k})
    \<and> (map_of (c_budgets c) (key_namespace k) = None \<longrightarrow>
         (\<forall>k1 e1 k2 e2. k1 \<noteq> k \<longrightarrow> peek E c k1 = Some e1 \<longrightarrow> peek E c' k1 = None \<longrightarrow>
            peek E c' k2 = Some e2 \<longrightarrow> e_last_used e1 < e_last_used e2)
       \<and> (c_used_bytes c + name_charge (key_namespace k) + entry_bytes (key_name k) v \<le> c_max_memory_bytes c \<longrightarrow>
            peek E c' = (peek E c)(k \<mapsto> e)))"
proof -
  let ?e = "\<lparr>e_value = v, e_expires_at = x, e_last_used = c_clock c + 1\<rparr>"
  obtain c' where c': "cache_insert E k v x c = Some c'" "cache_inv E lru_wf c'"
      "written E (name_charge (key_namespace k)) k ?e c c'"
    using lru_cache.cache_insert_spec [OF assms refl] by blast
  have "dom (peek E c') = {k}" if "c_entry_count c' = 1"
  proof -
    have "card (dom (peek E c')) = 1" using lru_cache.entry_count_card [OF assms(1) c'(2)] that by simp
    moreover have "k \<in> dom (peek E c')" using c'(3) by (auto simp: written_def)
    ultimately show ?thesis by (metis card_1_singletonE singletonD)
  qed
  moreover have "c_max_memory_bytes c' = c_max_memory_bytes c"
    using c'(3) by (cases c; cases c') (simp add: written_def same_frame_def)
  ultimately have "c_used_bytes c' \<le> c_max_memory_bytes c \<or> dom (peek E c') = {k}"
    using c'(3) by (auto simp: written_def)
  then show ?thesis
    using c' by (intro exI [of _ c'] exI [of _ ?e]) (simp add: written_def)
qed

theorem write_fits_memory_witness:
  "\<exists>c' e. cache_insert (list_env id) (new_key ''n'' ''k'') ''v'' None (with_budgets 1 []) = Some c'
    \<and> cache_inv (list_env id) list_wf c' \<and> peek (list_env id) c' (new_key ''n'' ''k'') = Some e \<and> e_value e = ''v''
    \<and> (c_used_bytes c' \<le> 1 \<or> dom (peek (list_env id) c') = {new_key ''n'' ''k''})"
proof -
  have inv: "cache_inv (list_env id) list_wf (with_budgets 1 [])"
    using list_lru.with_budgets_inv by (simp add: node_inv_def)
  show ?thesis
    using write_fits_memory [OF list_lru.lru_cache_axioms inv, of "new_key ''n'' ''k''" "''v''" None]
    by (auto simp: with_budgets_def)
qed

text \<open>C19. The totals are exact after any session: the entry count is the number of stored keys, the entries'
  bytes never exceed the bytes accounted for (so no subtraction of a charge can wrap), and marks are
  only kept for stored keys.\<close>

theorem session_totals:
  assumes "lru_cache E lru_wf" and "\<forall>(_, cmd) \<in> set cmds. store_command cmd" and "sorted (map fst cmds)"
    and "session E cmds (with_budgets max_bytes budgets) = Some (rs, c)"
  shows "c_entry_count c = int (card (dom (peek E c)))
    \<and> (\<Sum>k \<in> dom (peek E c). entry_bytes (key_name k) (e_value (the (peek E c k)))) \<le> c_used_bytes c
    \<and> {k. is_marked c k} \<subseteq> dom (peek E c)"
proof -
  have "node_inv E lru_wf c"
    using lru_cache.session_returns [OF assms(1) lru_cache.with_budgets_inv [OF assms(1), of max_bytes budgets] assms(2), of 0] assms(3, 4)
    by auto
  then have inv: "cache_inv E lru_wf c" by (simp add: node_inv_def)
  show ?thesis
    using lru_cache.entry_count_card [OF assms(1) inv] lru_cache.used_bytes_cover [OF assms(1) inv]
      lru_cache.marked_present [OF assms(1) inv [unfolded cache_inv_def]] by blast
qed

theorem session_totals_witness:
  "\<exists>rs c. session (list_env id) [(0, SetKey (new_key ''n'' ''k'') ''v'' None)] (with_budgets 1000 []) = Some (rs, c)
    \<and> c_entry_count c = int (card (dom (peek (list_env id) c)))"
proof -
  let ?cmds = "[(0, SetKey (new_key ''n'' ''k'') ''v'' None)]"
  have cmds: "\<forall>(_, cmd) \<in> set ?cmds. store_command cmd" "sorted (map fst ?cmds)"
    by (simp_all add: store_command_def short_key_def new_key_def U32_MAX_def)
  obtain rs c where s: "session (list_env id) ?cmds (with_budgets 1000 []) = Some (rs, c)"
    using list_lru.session_returns [OF list_lru.with_budgets_inv [of id 1000 "[]"] cmds(1), of 0] cmds(2) by auto
  then show ?thesis
    using session_totals [OF list_lru.lru_cache_axioms cmds s] by blast
qed

text \<open>C18. The heap that finds the entry to evict picks exactly the namespace that scanning all of them
  would, the one whose least recently used entry is the oldest of the store.\<close>

theorem heap_picks_scan_victim:
  assumes "lru_cache E lru_wf" and "cache_inv E lru_wf c" and "0 < c_entry_count c"
  shows "\<exists>k victim tails empties. evict_pop E (c_slots c) (c_tails c) [] = Some ((k, victim), tails, empties)
    \<and> scan_victim E c = Some victim"
  using assms by (rule lru_cache.evict_pop_scan)

theorem heap_picks_scan_victim_witness:
  "\<exists>c k victim tails empties. 0 < c_entry_count c
    \<and> evict_pop (list_env id) (c_slots c) (c_tails c) [] = Some ((k, victim), tails, empties)
    \<and> scan_victim (list_env id) c = Some victim"
proof -
  have "cache_inv (list_env id) list_wf (with_budgets 1000 [])"
    using list_lru.with_budgets_inv by (simp add: node_inv_def)
  then obtain c where c: "cache_inv (list_env id) list_wf c" "peek (list_env id) c (new_key ''n'' ''k'') \<noteq> None"
    using list_lru.cache_insert_spec [OF _ refl, of id "with_budgets 1000 []" "new_key ''n'' ''k''" "''v''" None]
    by (auto simp: written_def)
  have "dom (peek (list_env id) c) \<noteq> {}" using c(2) by auto
  then have "0 < c_entry_count c"
    using list_lru.entry_count_card [OF c(1)] list_lru.dom_peek [OF c(1)] by (simp add: card_gt_0_iff)
  then show ?thesis
    using heap_picks_scan_victim [OF list_lru.lru_cache_axioms c(1)] by blast
qed

end
