(* ===== verification/Sample_Store.thy ===== *)
theory Sample_Store
  imports Node_Exec
begin

text \<open>
  A store that holds two entries, as the node builds it from two writes: what the witnesses of the handoff and of
  the migration run evaluate.
\<close>

definition held_ns :: "(bytes \<times> entry) list namespace" where
  "held_ns = \<lparr>ns_name = [], ns_entries = [(''m'', \<lparr>e_value = ''w'', e_expires_at = None, e_last_used = 2\<rparr>),
     (''k'', \<lparr>e_value = ''v'', e_expires_at = None, e_last_used = 1\<rparr>)],
     ns_used_bytes = 364, ns_budget = None, ns_migrated = [], ns_digests = []\<rparr>"

definition held_cache :: "(bytes \<times> entry) list cache" where
  "held_cache = (with_budgets 1000 [])\<lparr>c_namespaces := [([], 0)], c_slots := [(0, held_ns)], c_tails := [(0, 0)],
     c_next_slot_id := 1, c_entry_count := 2, c_used_bytes := 364, c_clock := 2, c_sets := 2\<rparr>"

lemma held_items: "ns_items (list_env id) held_ns = [(''m'', \<lparr>e_value = ''w'', e_expires_at = None, e_last_used = 2\<rparr>),
    (''k'', \<lparr>e_value = ''v'', e_expires_at = None, e_last_used = 1\<rparr>)]"
  by (simp add: ns_items_def list_env_def held_ns_def)

lemma held_stamps: "ns_stamps (list_env id) held_ns = {1, 2}"
  by (auto simp: ns_stamps_def held_items)

lemma held_ns_inv: "ns_inv (list_env id) list_wf 2 held_ns"
proof -
  have "digests_ok (list_env id) held_ns" by (simp add: digests_ok_def held_ns_def)
  moreover have "ns_true_bytes (list_env id) held_ns = 364"
    by (simp add: ns_true_bytes_def held_items items_bytes_def entry_bytes_def ENTRY_OVERHEAD_BYTES_def) (simp add: held_ns_def)
  ultimately show ?thesis
    using held_items held_stamps by (simp add: ns_inv_def) (simp add: held_ns_def list_wf_def)
qed

lemma held_cache_inv: "cache_inv (list_env id) list_wf held_cache"
  using held_ns_inv held_stamps held_items
  by (simp add: held_cache_def cache_inv_def cache_inv_but_def index_inv_def with_budgets_def stamps_unique_def
      totals_inv_def tombstones_inv_def slots_bytes_def slots_entries_def slots_marked_def tombstones_bytes_def
      slot_inv_def name_charge_def) (simp add: held_ns_def list_env_def)

lemmas held_evals = peek_live_entry_def is_marked_def peek_entry_at_def peek_def find_namespace_def held_cache_def
  with_budgets_def held_ns_def list_env_def new_key_def is_expired_at_def

lemma held_live: "peek_live_entry (list_env id) (new_key [] ''k'') 3 held_cache = Some (new_key [] ''k'', ''v'', None)"
  by (simp add: held_evals)

lemma held_peek: "peek (list_env id) held_cache (new_key [] ''k'') = Some \<lparr>e_value = ''v'', e_expires_at = None, e_last_used = 1\<rparr>"
  "peek (list_env id) held_cache (new_key [] ''m'') = Some \<lparr>e_value = ''w'', e_expires_at = None, e_last_used = 2\<rparr>"
  by (simp_all add: held_evals)

lemma held_unmarked: "\<not> is_marked held_cache k"
  by (simp add: held_evals)

lemma held_node_inv: "node_inv (list_env id) list_wf held_cache"
proof -
  have "short_key k" if "peek (list_env id) held_cache k = Some e" for k e
    using that by (auto simp: held_evals short_key_def split: if_splits)
  then show ?thesis
    using held_cache_inv by (auto simp: node_inv_def short_keys_def held_cache_def with_budgets_def)
qed

lemma all_members_own: "distinct ns \<Longrightarrow> length ns \<le> r \<Longrightarrow> is_owner_hashed (new_ring ns) h x r \<longleftrightarrow> x \<in> set ns"
  by (simp add: is_owner_hashed_iff node_ring.ranks)

lemma short_hash: "\<exists>h. key_hash_of (new_key [] n) = Some h"
  by (rule key_hash_short) (simp add: short_key_def new_key_def)

end
