(* ===== verification/Handoff_Props.thy ===== *)
theory Handoff_Props
  imports Sample_Store
begin

text \<open>
  Properties of the operations a staged join relies on (relayed deletes and copies, the sweep of marked
  and expired entries, the reclaim of keys a node no longer owns) and of the batched commands.
\<close>

text \<open>Whether a relayed write is recent enough to hold a reclaim back.\<close>

definition recent_handoff :: "duration \<Rightarrow> instant \<Rightarrow> 'l cache \<Rightarrow> bool" where
  "recent_handoff quiet now c = (case c_last_handoff_at c of None \<Rightarrow> False | Some at \<Rightarrow> now - at < quiet)"

lemma within_bound_bytes: "used \<le> b \<Longrightarrow> used + reply_bytes (within_bound (Some b) used vs) \<le> b"
proof (induction "Some b" used vs rule: within_bound.induct)
  case (3 used v vs)
  show ?case
  proof (cases "fits (Some b) used v")
    case True
    then show ?thesis using 3(1) by (simp add: fits_def)
  next
    case False
    then show ?thesis using 3 by simp
  qed
qed simp_all

section \<open>Relayed writes\<close>

text \<open>C12. A relayed delete holds against late copies: for as long as its tombstone lives, a copy of the
  key sent if absent is refused, so a slow transfer cannot bring a deleted key back.\<close>

theorem tombstone_refuses_late_copy:
  assumes "lru_cache E lru_wf" and "cache_inv E lru_wf c" and "now < t + HANDOFF_TOMBSTONE_TTL"
  shows "\<exists>b c1 c2. handoff_delete_at E k t c = Some (b, c1)
    \<and> handoff_set_if_absent_at E k v ttl ahead now c1 = Some (Mismatch, c2)
    \<and> cache_inv E lru_wf c2 \<and> view E now c2 k = None"
proof -
  obtain b c1 where c1: "handoff_delete_at E k t c = Some (b, c1)" "cache_inv E lru_wf c1"
      "peek E c1 = (peek E c)(k := None)" "map_of (c_handoff_tombstones c1) k = Some t"
    using lru_cache.handoff_delete_at_spec [OF assms(1, 2)] by blast
  have stone: "tombstoned_at k now c1"
    using c1(4) assms(3) by (auto simp: tombstoned_at_def HANDOFF_TOMBSTONE_TTL_def NANOS_PER_SEC_def)
  moreover have "live_entry E now c1 k = None" using c1(3) by (simp add: live_entry_def)
  ultimately obtain c2 where c2: "handoff_set_if_absent_at E k v ttl ahead now c1 = Some (Mismatch, c2)"
      "cache_inv E lru_wf c2" "live_entry E now c2 k = None"
    using lru_cache.handoff_set_if_absent_at_spec [OF assms(1) c1(2), of now k v ttl ahead] by auto
  then show ?thesis using c1(1) by (auto simp: view_eq_None)
qed

theorem tombstone_refuses_late_copy_witness:
  "\<exists>b c1 c2. handoff_delete_at (list_env id) (new_key ''n'' ''k'') 5 (with_budgets 100 []) = Some (b, c1)
    \<and> handoff_set_if_absent_at (list_env id) (new_key ''n'' ''k'') ''old'' None False 7 c1 = Some (Mismatch, c2)
    \<and> view (list_env id) 7 c2 (new_key ''n'' ''k'') = None"
proof -
  have inv: "cache_inv (list_env id) list_wf (with_budgets 100 [])"
    using list_lru.with_budgets_inv by (simp add: node_inv_def)
  have "(7 :: instant) < 5 + HANDOFF_TOMBSTONE_TTL" by (simp add: HANDOFF_TOMBSTONE_TTL_def NANOS_PER_SEC_def)
  then show ?thesis
    using tombstone_refuses_late_copy [OF list_lru.lru_cache_axioms inv] by blast
qed



section \<open>The sweep\<close>

text \<open>C14. A sweep is safe: it removes no entry that is alive, unless the entry is marked as handed away,
  the pass includes marks, and the ring does not tell the node to keep it. And it is thorough: if no
  pass was pending and the collected keys fit one budget, no expired entry is left.\<close>

theorem sweep_safe_and_thorough:
  assumes "lru_cache E lru_wf" and "node_inv E lru_wf c"
  shows "\<exists>n c'. execute E now (Sweep marked owned) c = Some (RespSwept n, c') \<and> node_inv E lru_wf c'
    \<and> (\<forall>k e. peek E c k = Some e \<longrightarrow> \<not> is_expired_at e now \<longrightarrow>
         \<not> marked \<or> \<not> is_marked c k \<or> (\<exists>so. owned = Some so \<and> sweep_keeps so k = Some True) \<longrightarrow>
         peek E c' k = Some e)
    \<and> (c_pending_removal c = [] \<longrightarrow> length (sweep_candidates E now marked c) \<le> SWEEP_BUDGET \<longrightarrow>
         c_pending_removal c' = [] \<and> (\<forall>k e. peek E c' k = Some e \<longrightarrow> \<not> is_expired_at e now))"
proof -
  let ?own = "if marked then map_option sweep_keeps owned else None" and ?q = "sweep_queue E now marked c"
  obtain n c' where c': "sweep_at E now marked ?own c = Some (n, c')" "node_inv E lru_wf c'"
      "c_pending_removal c' = drop SWEEP_BUDGET ?q"
      "peek E c' = (\<lambda>k. if k \<in> set (take SWEEP_BUDGET ?q)
         then sweep_fate now marked ?own (is_marked c k) k (peek E c k) else peek E c k)"
    using lru_cache.sweep_at_spec [OF assms, of ?own now marked] sweep_keeps_total [of _ marked owned] by blast
  have "peek E c' k = Some e" if "peek E c k = Some e" "\<not> is_expired_at e now"
      "\<not> marked \<or> \<not> is_marked c k \<or> (\<exists>so. owned = Some so \<and> sweep_keeps so k = Some True)" for k e
    using that by (auto simp: c'(4) sweep_fate_def)
  moreover have "\<not> is_expired_at e now" if "c_pending_removal c = []"
      "length (sweep_candidates E now marked c) \<le> SWEEP_BUDGET" "peek E c' k = Some e" for k e
  proof -
    have "set (take SWEEP_BUDGET ?q) = set (sweep_candidates E now marked c)" using that by (simp add: sweep_queue_def)
    then show ?thesis
      using that(3) lru_cache.sweep_candidates_stored [OF assms(1), of c now marked] assms(2)
      by (auto simp: c'(4) node_inv_def sweep_fate_def split: if_splits option.splits)
  qed
  ultimately show ?thesis
    unfolding execute_sweep using c'(1-3) by (auto simp: sweep_queue_def)
qed

theorem sweep_safe_and_thorough_witness:
  "\<exists>n c'. execute (list_env id) 9 (Sweep True None) (with_budgets 100 []) = Some (RespSwept n, c')
    \<and> node_inv (list_env id) list_wf c' \<and> (\<forall>k e. peek (list_env id) c' k = Some e \<longrightarrow> \<not> is_expired_at e 9)"
proof -
  have "c_pending_removal (with_budgets 100 []) = []" "sweep_candidates (list_env id) 9 True (with_budgets 100 []) = []"
    by (simp_all add: with_budgets_def sweep_candidates_def)
  then show ?thesis
    using sweep_safe_and_thorough [OF list_lru.lru_cache_axioms list_lru.with_budgets_inv, of id 9 True None 100 "[]"]
    by auto
qed

text \<open>Whether another of the key's owners may have seen a write this node has not: it owned the key under some
  membership since the newest one that did not give it to this node, that one included.\<close>

definition overtaken :: "sweep_ownership \<Rightarrow> u64 \<Rightarrow> bool" where
  "overtaken so h \<longleftrightarrow> (\<exists>other j. other \<noteq> oc_name (so_now so)
     \<and> is_owner_hashed (oc_ring (so_now so)) h other (oc_replication (so_now so))
     \<and> j < length (so_since so) \<and> (\<forall>i < j. owns_hashed (so_since so ! i) h)
     \<and> is_owner_hashed (oc_ring (so_since so ! j)) h other (oc_replication (so_since so ! j)))"

lemma position_reach:
  assumes "position p xs = Some t"
  shows "x \<in> set (take (Suc t) xs) \<longleftrightarrow> (\<exists>j < length xs. (\<forall>i < j. \<not> p (xs ! i)) \<and> xs ! j = x)"
proof -
  note t = position_Some [OF assms]
  have reach: "j \<le> t \<longleftrightarrow> (\<forall>i < j. \<not> p (xs ! i))" for j using t by (meson leI order.strict_trans2)
  have "x \<in> set (take (Suc t) xs) \<longleftrightarrow> (\<exists>j \<le> t. xs ! j = x)"
    using t by (auto simp: in_set_conv_nth less_Suc_eq_le)
  then show ?thesis using t reach by (metis le_less_trans)
qed

lemma keeps_hashed_iff:
  assumes "oc_ring (so_now so) = new_ring ns"
  shows "keeps_hashed so h \<longleftrightarrow> owns_hashed (so_now so) h
    \<and> (list_all (\<lambda>check. owns_hashed check h) (so_since so) \<or> \<not> overtaken so h)"
proof (cases "position (\<lambda>check. \<not> owns_hashed check h) (so_since so)")
  case None
  then have "list_all (\<lambda>check. owns_hashed check h) (so_since so)" by (simp add: position_None_iff list_all_iff)
  then show ?thesis using None by (simp add: keeps_hashed_def Let_def)
next
  case (Some t)
  then have "\<not> list_all (\<lambda>check. owns_hashed check h) (so_since so)"
    using position_Some [OF Some] by (auto simp: list_all_length)
  moreover have "overtaken so h \<longleftrightarrow> list_ex (\<lambda>check. list_ex
      (\<lambda>other. is_owner_hashed (oc_ring check) h other (oc_replication check))
      (filter (\<lambda>owner. owner \<noteq> oc_name (so_now so)) (owners_hashed (oc_ring (so_now so)) h (oc_replication (so_now so)))))
      (take (Suc t) (so_since so))"
  proof -
    have reach: "(\<exists>check \<in> set (take (Suc t) (so_since so)). P check) \<longleftrightarrow>
        (\<exists>j < length (so_since so). (\<forall>i < j. owns_hashed (so_since so ! i) h) \<and> P (so_since so ! j))" for P
      using position_reach [OF Some] by (auto 4 4)
    show ?thesis
      unfolding overtaken_def list_ex_iff reach using assms by (auto simp: is_owner_hashed_iff [symmetric])
  qed
  moreover have "\<not> list_ex (\<lambda>check. False) xs" for xs :: "owner_check list" by (simp add: list_ex_iff)
  ultimately show ?thesis using Some by (auto simp: keeps_hashed_def Let_def)
qed

text \<open>C25. What a sweep of the released marks does to a dead copy it reaches: the copy survives exactly if this node
  owns the key now, and either has owned it under every membership since, or is not overtaken, so that no other
  owner can hold a more recent state of the key; in every other case it is gone. Owning the key again is not
  enough.\<close>

theorem sweep_keeps_by_ownership:
  assumes "lru_cache E lru_wf" and "node_inv E lru_wf c" and "oc_ring (so_now so) = new_ring ns"
    and "peek E c k = Some e" "\<not> is_expired_at e now" "is_marked c k"
    and "k \<in> set (take SWEEP_BUDGET (sweep_queue E now True c))"
  shows "\<exists>n c' h. execute E now (Sweep True (Some so)) c = Some (RespSwept n, c') \<and> key_hash_of k = Some h
    \<and> peek E c' k = (if owns_hashed (so_now so) h
           \<and> (list_all (\<lambda>check. owns_hashed check h) (so_since so) \<or> \<not> overtaken so h) then Some e else None)"
proof -
  have "short_key k" using assms(2,4) by (auto simp: node_inv_def short_keys_def)
  then obtain h where h: "key_hash_of k = Some h" using key_hash_short by blast
  let ?own = "Some (sweep_keeps so)"
  obtain n c' where c': "sweep_at E now True ?own c = Some (n, c')"
      "peek E c' = (\<lambda>k. if k \<in> set (take SWEEP_BUDGET (sweep_queue E now True c))
         then sweep_fate now True ?own (is_marked c k) k (peek E c k) else peek E c k)"
    using lru_cache.sweep_at_spec [OF assms(1,2), of ?own now True] sweep_keeps_total [of _ True "Some so"] by auto
  have "peek E c' k = (if keeps_hashed so h then Some e else None)"
    using assms(4-7) h by (simp add: c'(2) sweep_fate_def sweep_keeps_def)
  moreover have "execute E now (Sweep True (Some so)) c = Some (RespSwept n, c')"
    unfolding execute_sweep using c'(1) by simp
  ultimately show ?thesis
    using h unfolding keeps_hashed_iff [OF assms(3)] by blast
qed

text \<open>A copy the node lost to \<open>b\<close> and owns again beside it: it goes.\<close>

theorem sweep_keeps_by_ownership_witness:
  "\<exists>n c'. execute (list_env id) 9
      (Sweep True (Some \<lparr>so_now = \<lparr>oc_ring = new_ring [''a'', ''b''], oc_name = ''a'', oc_replication = 2\<rparr>,
         so_since = [\<lparr>oc_ring = new_ring [''b''], oc_name = ''a'', oc_replication = 2\<rparr>]\<rparr>))
      (mark_migrated (list_env id) (new_key [] ''k'') held_cache) = Some (RespSwept n, c')
    \<and> peek (list_env id) c' (new_key [] ''k'') = None"
proof -
  let ?c = "mark_migrated (list_env id) (new_key [] ''k'') held_cache"
  let ?so = "\<lparr>so_now = \<lparr>oc_ring = new_ring [''a'', ''b''], oc_name = ''a'', oc_replication = 2\<rparr>,
         so_since = [\<lparr>oc_ring = new_ring [''b''], oc_name = ''a'', oc_replication = 2\<rparr>]\<rparr>"
  note m = list_lru.mark_migrated_spec [OF held_cache_inv, of "new_key [] ''k''"]
  have marked: "peek (list_env id) ?c (new_key [] ''k'') = Some \<lparr>e_value = ''v'', e_expires_at = None, e_last_used = 1\<rparr>"
      "is_marked ?c (new_key [] ''k'')"
    using m(2) held_peek by (simp_all add: remarked_def)
  have inv: "node_inv (list_env id) list_wf ?c"
    using list_lru.upkeep_returns [OF held_node_inv, of "MarkMigrated (new_key [] ''k'')" 3]
    by (simp add: store_command_def upkeep_def short_key_def new_key_def)
  have queued: "new_key [] ''k'' \<in> set (take SWEEP_BUDGET (sweep_queue (list_env id) 9 True ?c))"
    by (simp add: sweep_queue_def sweep_candidates_def mark_migrated_def put_slot_def held_evals SWEEP_BUDGET_def Let_def)
  have over: "overtaken ?so h \<and> \<not> list_all (\<lambda>check. owns_hashed check h) (so_since ?so)" for h
    by (auto simp: overtaken_def owns_hashed_def all_members_own intro!: exI [of _ "''b''"])
  show ?thesis
    using sweep_keeps_by_ownership [OF list_lru.lru_cache_axioms inv, of ?so "[''a'', ''b'']", OF _ marked(1) _ marked(2) queued]
      over by (auto simp: is_expired_at_def)
qed

text \<open>C26. A pass may remove fewer than \<^verbatim>\<open>SWEEP_BUDGET\<close> entries and still leave a backlog: queued keys that
  are gone by the time they are reached use up the budget without being counted. Fewer removals than the
  budget therefore do not mean that the queue is drained.\<close>

theorem sweep_backlog_not_drained:
  assumes "lru_cache E lru_wf"
  shows "\<exists>c n c'. node_inv E lru_wf c \<and> sweep_at E now im None c = Some (n, c')
    \<and> n < SWEEP_BUDGET \<and> c_pending_removal c' \<noteq> []"
proof -
  let ?k = "new_key ''n'' ''k''"
  let ?c = "(with_budgets 100 [])\<lparr>c_pending_removal := replicate (SWEEP_BUDGET + 1) ?k\<rparr>"
  have empty: "peek E ?c = (\<lambda>_. None)" "c_entry_count ?c = 0"
    by (simp_all add: peek_def fun_eq_iff with_budgets_def find_namespace_def)
  have "cache_inv E lru_wf ?c"
    using lru_cache.with_budgets_inv [OF assms, of 100 "[]"]
    by (simp add: node_inv_def lru_cache.inv_counters' [OF assms])
  then have inv: "node_inv E lru_wf ?c"
    using empty by (auto simp: node_inv_def short_keys_def short_key_def new_key_def U32_MAX_def)
  obtain n c' where c': "sweep_at E now im None ?c = Some (n, c')"
      "c_pending_removal c' = drop SWEEP_BUDGET (sweep_queue E now im ?c)" "n = 0"
    using lru_cache.sweep_at_spec [OF assms inv, of None now im] empty(1) by auto
  then show ?thesis
    using inv by (intro exI [of _ ?c] exI [of _ n] exI [of _ c']) (auto simp: sweep_queue_def SWEEP_BUDGET_def)
qed

theorem sweep_backlog_not_drained_witness:
  "\<exists>c n c'. node_inv (list_env id) list_wf c \<and> sweep_at (list_env id) 3 True None c = Some (n, c')
    \<and> n < SWEEP_BUDGET \<and> c_pending_removal c' \<noteq> []"
  using sweep_backlog_not_drained [OF list_lru.lru_cache_axioms] by blast

section \<open>Reclaiming\<close>

text \<open>C22. A reclaim pass removes exactly the listed keys none of the given rings assigns to the node; it
  removes nothing while a handoff is recent, and says so. The count it reports is the number of
  entries that went.\<close>

theorem reclaim_removes_unowned:
  assumes "lru_cache E lru_wf" and "cache_inv E lru_wf c" and "\<forall>k \<in> set ks. short_key k"
  shows "\<exists>n c'. execute E now (ReclaimUnowned ks checks quiet) c
      = Some (RespReclaimed n (recent_handoff quiet now c) (c_handoff_writes c), c') \<and> cache_inv E lru_wf c'
    \<and> peek E c' = (\<lambda>k. if \<not> recent_handoff quiet now c \<and> k \<in> set ks \<and> owned_by_any checks k = Some False
         then None else peek E c k)
    \<and> int n = c_entry_count c - c_entry_count c'"
proof (cases "recent_handoff quiet now c")
  case True
  then show ?thesis using assms(2) by (simp add: reclaim_unowned_at_def recent_handoff_def Let_def)
next
  case False
  have "owned_by_any checks k \<noteq> None" if "k \<in> set ks" for k
    using assms(3) that key_hash_short by (auto simp: owned_by_any_def)
  then obtain c' n where "reclaim_loop E (owned_by_any checks) ks 0 c = Some (n, c')" "cache_inv E lru_wf c'"
      "peek E c' = (\<lambda>k. if k \<in> set ks \<and> owned_by_any checks k = Some False then None else peek E c k)"
      "int n = c_entry_count c - c_entry_count c'"
    using lru_cache.reclaim_loop_spec [OF assms(1, 2), of ks "owned_by_any checks" 0] by auto
  then show ?thesis
    using False by (simp add: reclaim_unowned_at_def recent_handoff_def Let_def)
qed

theorem reclaim_removes_unowned_witness:
  "\<exists>n c'. execute (list_env id) 7 (ReclaimUnowned [new_key ''n'' ''k''] [] 5) (with_budgets 100 [])
      = Some (RespReclaimed n False 0, c')
    \<and> peek (list_env id) c' (new_key ''n'' ''k'') = None"
proof -
  have inv: "cache_inv (list_env id) list_wf (with_budgets 100 [])"
    using list_lru.with_budgets_inv by (simp add: node_inv_def)
  have short: "\<forall>k \<in> set [new_key ''n'' ''k'']. short_key k" by (simp add: short_key_def new_key_def U32_MAX_def)
  have "\<not> recent_handoff 5 7 (with_budgets 100 [])" "c_handoff_writes (with_budgets 100 []) = 0"
    "peek (list_env id) (with_budgets 100 []) (new_key ''n'' ''k'') = None"
    by (simp_all add: recent_handoff_def with_budgets_def peek_def find_namespace_def)
  then show ?thesis
    using reclaim_removes_unowned [OF list_lru.lru_cache_axioms inv short, of 7 "[]" 5] by auto
qed

section \<open>Batches\<close>

text \<open>C23. Resolving the namespace once for a batch changes nothing: a batched set is one set per item in
  order, a batched get one get per name until the reply is full.\<close>

theorem batches_are_per_key:
  assumes "lru_cache E lru_wf" and "cache_inv E lru_wf c"
  shows "set_many E n items ttl now c = set_each E n (expiry_of now ttl) items c
    \<and> get_many E n names bound now c = get_each E n now bound 0 names c"
proof
  show "set_many E n items ttl now c = set_each E n (expiry_of now ttl) items c"
    using lru_cache.set_many_loop_eq [OF assms, of None n] by (simp add: set_many_def)
  have "resolves c n (find_namespace c n)" by (simp add: resolves_def slot_of_def find_namespace_def)
  then show "get_many E n names bound now c = get_each E n now bound 0 names c"
    using lru_cache.get_many_loop_eq [OF assms] by (simp add: get_many_def)
qed

theorem batches_are_per_key_witness:
  "set_many (list_env id) ''n'' [(''a'', ''1''), (''b'', ''2'')] None 3 (with_budgets 100 [])
    = set_each (list_env id) ''n'' None [(''a'', ''1''), (''b'', ''2'')] (with_budgets 100 [])"
proof -
  have inv: "cache_inv (list_env id) list_wf (with_budgets 100 [])"
    using list_lru.with_budgets_inv by (simp add: node_inv_def)
  show ?thesis
    using batches_are_per_key [OF list_lru.lru_cache_axioms inv, of "''n''" "[(''a'', ''1''), (''b'', ''2'')]" None 3]
    by (simp add: expiry_of_def)
qed

text \<open>C24. The reply to a batched get, or to a batched get-and-touch, has one entry per key and never
  carries more than \<^verbatim>\<open>MAX_MULTI_REPLY_VALUE_BYTES\<close> of values.\<close>

theorem batch_replies_bounded:
  assumes "lru_cache E lru_wf" and "cache_inv E lru_wf c"
    and "cmd = MultiGet n names \<or> cmd = MultiTouch n names ttl True"
  shows "\<exists>vs c'. execute E now cmd c = Some (RespMulti (map multi_entry_of vs), c')
    \<and> length vs = length names \<and> reply_bytes vs \<le> MAX_MULTI_REPLY_VALUE_BYTES"
proof -
  let ?vs = "within_bound (Some MAX_MULTI_REPLY_VALUE_BYTES) 0 (values_of n names (view E now c))"
  have "\<exists>c'. execute E now cmd c = Some (RespMulti (map multi_entry_of ?vs), c')"
    using assms(3) lru_cache.refines_multi_get [OF assms(1, 2), of now n names]
      lru_cache.refines_multi_touch [OF assms(1, 2), of now n names ttl True]
    by (elim disjE) (auto simp: refines_def Let_def simp del: execute.simps)
  moreover have "reply_bytes ?vs \<le> MAX_MULTI_REPLY_VALUE_BYTES"
    using within_bound_bytes [of 0 MAX_MULTI_REPLY_VALUE_BYTES "values_of n names (view E now c)"] by simp
  ultimately show ?thesis by (metis length_map values_of_def within_bound_length)
qed

theorem batch_replies_bounded_witness:
  "\<exists>vs c'. execute (list_env id) 3 (MultiGet ''n'' [''a'', ''b'']) (with_budgets 100 [])
      = Some (RespMulti (map multi_entry_of vs), c')
    \<and> length vs = 2 \<and> reply_bytes vs \<le> MAX_MULTI_REPLY_VALUE_BYTES"
proof -
  have inv: "cache_inv (list_env id) list_wf (with_budgets 100 [])"
    using list_lru.with_budgets_inv by (simp add: node_inv_def)
  show ?thesis
    using batch_replies_bounded [OF list_lru.lru_cache_axioms inv, of "MultiGet ''n'' [''a'', ''b'']" "''n''" "[''a'', ''b'']" None 3]
    by (simp add: numeral_2_eq_2 del: execute.simps)
qed

text \<open>C27. The hint by which \<^verbatim>\<open>find_namespace\<close> skips its hash lookup never changes its answer, as long as two
  names in one place and of one length are the same bytes.\<close>

theorem hinted_lookup_is_plain:
  assumes "cache_inv E lru_wf c" and "\<And>a b. same_alloc a b \<Longrightarrow> length a = length b \<Longrightarrow> a = b"
  shows "fst (find_namespace_hinted same_alloc c hint name) = find_namespace c name"
  by (rule find_namespace_hint [OF _ assms(2)]) (use assms(1) in \<open>auto simp: cache_inv_def cache_inv_but_def\<close>)

theorem hinted_lookup_is_plain_witness:
  "fst (find_namespace_hinted (=) (with_budgets 100 [] :: lru_list cache) 0 ''n'')
     = find_namespace (with_budgets 100 [] :: lru_list cache) ''n''"
proof -
  have inv: "cache_inv (list_env id) list_wf (with_budgets 100 [])"
    using list_lru.with_budgets_inv by (simp add: node_inv_def)
  show ?thesis by (rule hinted_lookup_is_plain [OF inv]) simp
qed

end
