(* ===== verification/Command_Parse.thy ===== *)
theory Command_Parse
  imports Command
begin

text \<open>
  The request parser, \<^verbatim>\<open>src/command.rs\<close> from \<open>ParseError\<close> on: one definition per arm of
  \<open>parse_with_mode\<close>, in the order of the source.

  \<^item> A fallible step returns \<open>parse_error + 'a\<close>; \<open>and_then\<close> is the \<open>?\<close> operator.
  \<^item> \<open>parts\<close>, the iterator over the header's fields, is the list of the fields not yet read.
    \<open>next_part\<close> is \<^verbatim>\<open>parts.next().ok_or(ParseError::InvalidLength)?\<close>.
  \<^item> The buffer \<open>input\<close> and the \<open>progress\<close> are arguments and results. An arm whose header is valid
    yields a \<open>plan\<close>: where the frame ends and how its command is read from it; \<open>run_plan\<close> is the
    call of \<open>take_frame\<close> and what follows it, so that a frame that turns out not to be UTF-8 is
    already consumed, as in the source.
  \<^item> Lengths and offsets are \<open>nat\<close>; \<open>checked_add\<close> and \<open>checked_mul\<close> bound them by \<open>usize::MAX\<close>
    wherever the source checks. What the source adds unchecked (\<open>header_end + 1\<close>) is at most
    the length of the buffer.
\<close>

section \<open>Results\<close>

datatype parse_error =
    InvalidCommand
  | InvalidLength
  | EmptyKey
  | EmptySecret
  | EmptyField
  | InvalidUtf8
  | Incomplete
  | ChargeRequired nat bool nat

definition and_then :: "'e + 'a \<Rightarrow> ('a \<Rightarrow> 'e + 'b) \<Rightarrow> 'e + 'b" where
  "and_then r f = (case r of Inl e \<Rightarrow> Inl e | Inr x \<Rightarrow> f x)"

definition ok_or :: "'a option \<Rightarrow> 'e \<Rightarrow> 'e + 'a" where
  "ok_or x e = (case x of None \<Rightarrow> Inl e | Some y \<Rightarrow> Inr y)"

text \<open>\<^verbatim>\<open>Option::transpose\<close> after a fallible \<open>map\<close>.\<close>

definition transpose_opt :: "('a \<Rightarrow> 'e + 'b) \<Rightarrow> 'a option \<Rightarrow> 'e + 'b option" where
  "transpose_opt f x = (case x of None \<Rightarrow> Inr None | Some y \<Rightarrow> and_then (f y) (\<lambda>z. Inr (Some z)))"

text \<open>\<^verbatim>\<open>if condition { return Err(error); }\<close>.\<close>

definition refuse_if :: "bool \<Rightarrow> 'e \<Rightarrow> 'e + unit" where
  "refuse_if condition error = (if condition then Inl error else Inr ())"

lemma and_then_simps [simp]: "and_then (Inl e) f = Inl e" "and_then (Inr x) f = f x"
  by (simp_all add: and_then_def)

lemma ok_or_simps [simp]: "ok_or None e = Inl e" "ok_or (Some x) e = Inr x"
  by (simp_all add: ok_or_def)

lemma transpose_opt_simps [simp]:
  "transpose_opt f None = Inr None" "transpose_opt f (Some x) = and_then (f x) (\<lambda>z. Inr (Some z))"
  by (simp_all add: transpose_opt_def)

lemma refuse_if_simps [simp]: "refuse_if True e = Inl e" "refuse_if False e = Inr ()"
  by (simp_all add: refuse_if_def)

lemma and_then_Inr_iff: "and_then r f = Inr y \<longleftrightarrow> (\<exists>x. r = Inr x \<and> f x = Inr y)"
  by (cases r) auto

lemma and_then_Inl_iff: "and_then r f = Inl e \<longleftrightarrow> r = Inl e \<or> (\<exists>x. r = Inr x \<and> f x = Inl e)"
  by (cases r) auto

lemma ok_or_Inr_iff: "ok_or x e = Inr y \<longleftrightarrow> x = Some y"
  by (cases x) auto

lemma ok_or_Inl_iff: "ok_or x e = Inl e' \<longleftrightarrow> x = None \<and> e' = e"
  by (cases x) auto

lemma refuse_if_Inr_iff: "refuse_if b e = Inr y \<longleftrightarrow> \<not> b"
  by (cases b) auto

lemma refuse_if_Inl_iff: "refuse_if b e = Inl e' \<longleftrightarrow> b \<and> e' = e"
  by (cases b) auto

lemmas result_iffs = and_then_Inr_iff ok_or_Inr_iff refuse_if_Inr_iff

section \<open>Fields\<close>

definition find_lf :: "bytes \<Rightarrow> nat option" where
  "find_lf input = position (\<lambda>byte. byte = LF) input"

text \<open>\<^verbatim>\<open>slice::split\<close> at a byte: \<open>n\<close> separators give \<open>n + 1\<close> fields.\<close>

fun split_at_byte :: "byte \<Rightarrow> bytes \<Rightarrow> bytes list" where
  "split_at_byte s [] = [[]]"
| "split_at_byte s (b # bs) =
     (if b = s then [] # split_at_byte s bs
      else case split_at_byte s bs of [] \<Rightarrow> [[b]] | f # fs \<Rightarrow> (b # f) # fs)"

definition slice :: "nat \<Rightarrow> nat \<Rightarrow> bytes \<Rightarrow> bytes" where
  "slice start stop bs = take (stop - start) (drop start bs)"

fun parse_length_loop :: "nat \<Rightarrow> bytes \<Rightarrow> parse_error + nat" where
  "parse_length_loop acc [] = Inr acc"
| "parse_length_loop acc (byte # rest) =
     (if \<not> is_ascii_digit byte then Inl InvalidLength
      else and_then (ok_or (Option.bind (checked_mul acc 10) (\<lambda>l. checked_add l (digit_value byte))) InvalidLength)
        (\<lambda>acc. parse_length_loop acc rest))"

definition parse_length :: "bytes \<Rightarrow> parse_error + nat" where
  "parse_length input = (if input = [] then Inl InvalidLength else parse_length_loop 0 input)"

definition next_part :: "bytes list \<Rightarrow> parse_error + bytes \<times> bytes list" where
  "next_part parts = (case parts of [] \<Rightarrow> Inl InvalidLength | p # ps \<Rightarrow> Inr (p, ps))"

text \<open>\<^verbatim>\<open>parse_length(parts.next().ok_or(ParseError::InvalidLength)?)?\<close>.\<close>

definition next_length :: "bytes list \<Rightarrow> parse_error + nat \<times> bytes list" where
  "next_length parts = and_then (next_part parts) (\<lambda>(p, parts).
     and_then (parse_length p) (\<lambda>n. Inr (n, parts)))"

text \<open>\<^verbatim>\<open>if parts.next().is_some() { return Err(ParseError::InvalidLength); }\<close>.\<close>

definition no_more_parts :: "bytes list \<Rightarrow> parse_error + unit" where
  "no_more_parts parts = refuse_if (parts \<noteq> []) InvalidLength"

definition parse_tag :: "bytes \<Rightarrow> parse_error + nat" where
  "parse_tag input = and_then (parse_length input) (\<lambda>n. if n \<le> U32_MAX then Inr n else Inl InvalidLength)"

definition parse_ttl :: "bytes \<Rightarrow> parse_error + duration" where
  "parse_ttl field = and_then (parse_length field) (\<lambda>seconds. Inr (seconds * NANOS_PER_SEC))"

definition parse_trailing_tag :: "bytes list \<Rightarrow> bool \<Rightarrow> parse_error + nat option \<times> bytes list" where
  "parse_trailing_tag parts tagged =
     (if \<not> tagged then Inr (None, parts)
      else and_then (next_part parts) (\<lambda>(p, parts).
        and_then (parse_tag p) (\<lambda>tag. Inr (Some tag, parts))))"

definition parse_ttl_and_tag :: "bytes list \<Rightarrow> bool \<Rightarrow> parse_error + bytes option \<times> nat option" where
  "parse_ttl_and_tag parts tagged =
     and_then
       (if tagged then
          and_then (next_part parts) (\<lambda>(first, parts). case parts of
              second # parts \<Rightarrow> and_then (parse_tag second) (\<lambda>tag. Inr (Some first, Some tag, parts))
            | [] \<Rightarrow> and_then (parse_tag first) (\<lambda>tag. Inr (None, Some tag, [])))
        else (case parts of [] \<Rightarrow> Inr (None, None, []) | p # parts \<Rightarrow> Inr (Some p, None, parts)))
       (\<lambda>(ttl, tag, parts). and_then (no_more_parts parts) (\<lambda>_. Inr (ttl, tag)))"

definition hex_nibble :: "byte \<Rightarrow> parse_error + nat" where
  "hex_nibble byte =
     (if byte_in 48 57 byte then Inr (of_char byte - 48)
      else if byte_in 97 102 byte then Inr (of_char byte - 97 + 10)
      else Inl InvalidCommand)"

fun parse_hex :: "bytes \<Rightarrow> parse_error + bytes" where
  "parse_hex (a # b # rest) = and_then (hex_nibble a) (\<lambda>hi. and_then (hex_nibble b) (\<lambda>lo.
     and_then (parse_hex rest) (\<lambda>ds. Inr (char_of (push_bit 4 hi OR lo) # ds))))"
| "parse_hex _ = Inr []"

definition parse_cas_condition :: "bytes \<Rightarrow> bool \<Rightarrow> parse_error + cas_condition" where
  "parse_cas_condition field allow_absent_present =
     (if allow_absent_present \<and> field = ''A'' then Inr CondAbsent
      else if allow_absent_present \<and> field = ''P'' then Inr CondPresent
      else if length field = 32 then and_then (parse_hex field) (\<lambda>digest. Inr (CondDigest digest))
      else Inl InvalidCommand)"

fun field_ends :: "nat \<Rightarrow> nat list \<Rightarrow> parse_error + nat list" where
  "field_ends cursor [] = Inr []"
| "field_ends cursor (l # lengths) =
     and_then (ok_or (checked_add cursor l) InvalidLength) (\<lambda>cursor.
       and_then (field_ends cursor lengths) (\<lambda>ends. Inr (cursor # ends)))"

definition decode_field :: "bytes \<Rightarrow> nat \<Rightarrow> nat \<Rightarrow> parse_error + bytes" where
  "decode_field frame start len =
     (let field = slice start (start + len) frame in if valid_utf8 field then Inr field else Inl InvalidUtf8)"

definition take_frame :: "bytes \<Rightarrow> nat \<Rightarrow> parse_error + bytes \<times> bytes" where
  "take_frame input stop = (if length input < stop then Inl Incomplete else Inr (take stop input, drop stop input))"

text \<open>The \<open>[ttl] [G] [tag]\<close> tail of \<open>t\<close> and \<open>y\<close>, read from its end.\<close>

definition parse_touch_tail ::
    "bytes list \<Rightarrow> bool \<Rightarrow> parse_error + duration option \<times> bool \<times> nat option" where
  "parse_touch_tail parts tagged =
     (let tail = take 4 parts in
      and_then
        (if tagged then
           (if tail = [] then Inl InvalidLength
            else and_then (parse_tag (last tail)) (\<lambda>tag. Inr (Some tag, butlast tail)))
         else Inr (None, tail))
        (\<lambda>(tag, tail).
          let get = (tail \<noteq> [] \<and> last tail = ''G'');
              tail = (if get then butlast tail else tail)
          in case tail of
               [] \<Rightarrow> Inr (None, get, tag)
             | [ttl] \<Rightarrow> and_then (parse_ttl ttl) (\<lambda>ttl. Inr (Some ttl, get, tag))
             | _ \<Rightarrow> Inl InvalidLength))"

text \<open>The trailing fields of \<open>U\<close> and \<open>f\<close>, at most \<open>max_trailing\<close> of them.\<close>

fun collect_trailing :: "nat \<Rightarrow> bytes list \<Rightarrow> bytes list \<Rightarrow> parse_error + bytes list" where
  "collect_trailing max_trailing trailing [] = Inr trailing"
| "collect_trailing max_trailing trailing (part # parts) =
     (let trailing = trailing @ [part] in
      if length trailing > max_trailing then Inl InvalidLength
      else collect_trailing max_trailing trailing parts)"

definition pop_tag :: "bytes list \<Rightarrow> bool \<Rightarrow> parse_error + nat option \<times> bytes list" where
  "pop_tag trailing tagged =
     (if tagged then
        (if trailing = [] then Inl InvalidLength
         else and_then (parse_tag (last trailing)) (\<lambda>tag. Inr (Some tag, butlast trailing)))
      else Inr (None, trailing))"

definition pop_literal :: "bytes \<Rightarrow> bytes list \<Rightarrow> bool \<times> bytes list" where
  "pop_literal lit trailing =
     (if trailing \<noteq> [] \<and> last trailing = lit then (True, butlast trailing) else (False, trailing))"

section \<open>The arms without progress\<close>

text \<open>Where the frame ends, and the command read from the frame.\<close>

type_synonym plan = "nat \<times> (bytes \<Rightarrow> parse_error + command \<times> nat option)"

definition frame_key :: "nat \<Rightarrow> nat \<Rightarrow> nat \<Rightarrow> bytes \<Rightarrow> key" where
  "frame_key namespace_start key_start key_end frame =
     new_key (slice namespace_start key_start frame) (slice key_start key_end frame)"

text \<open>\<^verbatim>\<open>b"A"\<close>\<close>

definition parse_capabilities :: "bytes list \<Rightarrow> parse_error + bool \<times> bool \<times> bytes list" where
  "parse_capabilities parts = (case parts of
     [] \<Rightarrow> Inr (False, False, [])
   | p # parts \<Rightarrow>
       if p = ''T'' then (case parts of
           [] \<Rightarrow> Inr (True, False, [])
         | q # parts \<Rightarrow> if q = ''R'' then Inr (True, True, parts) else Inl InvalidCommand)
       else if p = ''R'' then Inr (False, True, parts)
       else Inl InvalidCommand)"

definition parse_auth :: "nat \<Rightarrow> bytes list \<Rightarrow> parse_error + plan" where
  "parse_auth header_end parts =
     and_then (next_part parts) (\<lambda>(secret_length, parts).
     and_then (parse_capabilities parts) (\<lambda>(tagging, retry_capable, parts).
     and_then (no_more_parts parts) (\<lambda>_.
     and_then (parse_length secret_length) (\<lambda>secret_length.
     and_then (refuse_if (secret_length = 0) EmptySecret) (\<lambda>_.
     let secret_start = header_end + 1 in
     and_then (field_ends secret_start [secret_length]) (\<lambda>ends.
     let secret_end = ends ! 0 in
     Inr (secret_end, \<lambda>frame.
       Inr (Auth (slice secret_start secret_end frame) tagging retry_capable, None))))))))"

text \<open>\<^verbatim>\<open>b"G" | b"D" | b"g" | b"d"\<close>\<close>

definition parse_get_delete :: "bytes \<Rightarrow> bool \<Rightarrow> nat \<Rightarrow> bytes list \<Rightarrow> parse_error + plan" where
  "parse_get_delete command tagged header_end parts =
     and_then (if command = ''g'' \<or> command = ''d'' then next_length parts else Inr (0, parts))
       (\<lambda>(namespace_length, parts).
     and_then (next_part parts) (\<lambda>(key_length, parts).
     and_then (parse_trailing_tag parts tagged) (\<lambda>(tag, parts).
     and_then (no_more_parts parts) (\<lambda>_.
     and_then (parse_length key_length) (\<lambda>key_length.
     and_then (refuse_if (key_length = 0) EmptyKey) (\<lambda>_.
     let namespace_start = header_end + 1 in
     and_then (field_ends namespace_start [namespace_length, key_length]) (\<lambda>ends.
     let key_start = ends ! 0; key_end = ends ! 1; is_get = (command = ''G'' \<or> command = ''g'') in
     Inr (key_end, \<lambda>frame.
       let k = frame_key namespace_start key_start key_end frame in
       Inr (if is_get then Get k else Delete k, tag)))))))))"

text \<open>\<^verbatim>\<open>b"u"\<close>\<close>

definition parse_handoff_delete :: "bool \<Rightarrow> nat \<Rightarrow> bytes list \<Rightarrow> parse_error + plan" where
  "parse_handoff_delete tagged header_end parts =
     and_then (next_part parts) (\<lambda>(namespace_length, parts).
     and_then (next_part parts) (\<lambda>(key_length, parts).
     and_then (next_part parts) (\<lambda>(token_length, parts).
     and_then (parse_trailing_tag parts tagged) (\<lambda>(tag, parts).
     and_then (no_more_parts parts) (\<lambda>_.
     and_then (parse_length namespace_length) (\<lambda>namespace_length.
     and_then (parse_length key_length) (\<lambda>key_length.
     and_then (parse_length token_length) (\<lambda>token_length.
     and_then (refuse_if (key_length = 0) EmptyKey) (\<lambda>_.
     and_then (refuse_if (token_length = 0) EmptyField) (\<lambda>_.
     let token_start = header_end + 1 in
     and_then (field_ends token_start [token_length, namespace_length, key_length]) (\<lambda>ends.
     let namespace_start = ends ! 0; key_start = ends ! 1; key_end = ends ! 2 in
     Inr (key_end, \<lambda>frame.
       and_then (decode_field frame token_start token_length) (\<lambda>token.
       Inr (HandoffDelete (frame_key namespace_start key_start key_end frame) token, tag))))))))))))))"

text \<open>\<^verbatim>\<open>b"i"\<close>\<close>

definition parse_incr :: "bool \<Rightarrow> nat \<Rightarrow> bytes list \<Rightarrow> parse_error + plan" where
  "parse_incr tagged header_end parts =
     and_then (next_length parts) (\<lambda>(namespace_length, parts).
     and_then (next_part parts) (\<lambda>(key_length, parts).
     and_then (next_part parts) (\<lambda>(delta, parts).
     and_then (parse_trailing_tag parts tagged) (\<lambda>(tag, parts).
     and_then (no_more_parts parts) (\<lambda>_.
     and_then (parse_length key_length) (\<lambda>key_length.
     and_then (refuse_if (key_length = 0) EmptyKey) (\<lambda>_.
     and_then (ok_or (parse_decimal_i64 delta) InvalidLength) (\<lambda>delta.
     let namespace_start = header_end + 1 in
     and_then (field_ends namespace_start [namespace_length, key_length]) (\<lambda>ends.
     let key_start = ends ! 0; key_end = ends ! 1 in
     Inr (key_end, \<lambda>frame.
       Inr (Incr (frame_key namespace_start key_start key_end frame) delta, tag)))))))))))"

text \<open>\<^verbatim>\<open>b"k"\<close>\<close>

definition parse_cas_set :: "bool \<Rightarrow> nat \<Rightarrow> bytes list \<Rightarrow> parse_error + plan" where
  "parse_cas_set tagged header_end parts =
     and_then (next_length parts) (\<lambda>(namespace_length, parts).
     and_then (next_part parts) (\<lambda>(key_length, parts).
     and_then (next_part parts) (\<lambda>(value_length, parts).
     and_then (next_part parts) (\<lambda>(cond, parts).
     and_then (parse_cas_condition cond True) (\<lambda>condition.
     and_then (parse_ttl_and_tag parts tagged) (\<lambda>(ttl, tag).
     and_then (parse_length key_length) (\<lambda>key_length.
     and_then (parse_length value_length) (\<lambda>value_length.
     and_then (refuse_if (key_length = 0) EmptyKey) (\<lambda>_.
     and_then (transpose_opt parse_ttl ttl) (\<lambda>ttl.
     let namespace_start = header_end + 1 in
     and_then (field_ends namespace_start [namespace_length, key_length, value_length]) (\<lambda>ends.
     let key_start = ends ! 0; key_end = ends ! 1; value_end = ends ! 2 in
     Inr (value_end, \<lambda>frame.
       Inr (CasSet (frame_key namespace_start key_start key_end frame) condition
              (slice key_end value_end frame) ttl, tag)))))))))))))"

text \<open>\<^verbatim>\<open>b"x"\<close>: the panic of the second case is out of reach (\<open>parse_cas_condition_digest\<close>), the model
  refuses there.\<close>

definition parse_cas_delete :: "bool \<Rightarrow> nat \<Rightarrow> bytes list \<Rightarrow> parse_error + plan" where
  "parse_cas_delete tagged header_end parts =
     and_then (next_length parts) (\<lambda>(namespace_length, parts).
     and_then (next_part parts) (\<lambda>(key_length, parts).
     and_then (next_part parts) (\<lambda>(cond, parts).
     and_then (parse_cas_condition cond False) (\<lambda>condition.
     and_then (case condition of CondDigest digest \<Rightarrow> Inr digest | _ \<Rightarrow> Inl InvalidCommand) (\<lambda>expected_digest.
     and_then (parse_trailing_tag parts tagged) (\<lambda>(tag, parts).
     and_then (no_more_parts parts) (\<lambda>_.
     and_then (parse_length key_length) (\<lambda>key_length.
     and_then (refuse_if (key_length = 0) EmptyKey) (\<lambda>_.
     let namespace_start = header_end + 1 in
     and_then (field_ends namespace_start [namespace_length, key_length]) (\<lambda>ends.
     let key_start = ends ! 0; key_end = ends ! 1 in
     Inr (key_end, \<lambda>frame.
       Inr (CasDelete (frame_key namespace_start key_start key_end frame) expected_digest, tag))))))))))))"

text \<open>\<^verbatim>\<open>b"t"\<close>\<close>

definition parse_touch :: "bool \<Rightarrow> nat \<Rightarrow> bytes list \<Rightarrow> parse_error + plan" where
  "parse_touch tagged header_end parts =
     and_then (next_length parts) (\<lambda>(namespace_length, parts).
     and_then (next_part parts) (\<lambda>(key_length, parts).
     and_then (parse_touch_tail parts tagged) (\<lambda>(ttl, get, tag).
     and_then (parse_length key_length) (\<lambda>key_length.
     and_then (refuse_if (key_length = 0) EmptyKey) (\<lambda>_.
     let namespace_start = header_end + 1 in
     and_then (field_ends namespace_start [namespace_length, key_length]) (\<lambda>ends.
     let key_start = ends ! 0; key_end = ends ! 1 in
     Inr (key_end, \<lambda>frame.
       Inr (Touch (frame_key namespace_start key_start key_end frame) ttl get, tag))))))))"

text \<open>\<^verbatim>\<open>b"c"\<close>\<close>

definition parse_clear :: "bool \<Rightarrow> nat \<Rightarrow> bytes list \<Rightarrow> parse_error + plan" where
  "parse_clear tagged header_end parts =
     and_then (next_part parts) (\<lambda>(namespace_length, parts).
     and_then (parse_trailing_tag parts tagged) (\<lambda>(tag, parts).
     and_then (no_more_parts parts) (\<lambda>_.
     and_then (parse_length namespace_length) (\<lambda>namespace_length.
     let namespace_start = header_end + 1 in
     and_then (field_ends namespace_start [namespace_length]) (\<lambda>ends.
     let namespace_end = ends ! 0 in
     Inr (namespace_end, \<lambda>frame. Inr (Clear (slice namespace_start namespace_end frame), tag)))))))"

text \<open>\<^verbatim>\<open>b"F"\<close>: consumes the header line alone (\<open>input.advance\<close>).\<close>

definition parse_clear_all :: "bool \<Rightarrow> nat \<Rightarrow> bytes list \<Rightarrow> parse_error + plan" where
  "parse_clear_all tagged header_end parts =
     and_then (parse_trailing_tag parts tagged) (\<lambda>(tag, parts).
     and_then (no_more_parts parts) (\<lambda>_.
     Inr (header_end + 1, \<lambda>frame. Inr (ClearAll, tag))))"

text \<open>\<^verbatim>\<open>b"f"\<close>\<close>

definition parse_handoff_clear :: "bool \<Rightarrow> nat \<Rightarrow> bytes list \<Rightarrow> parse_error + plan" where
  "parse_handoff_clear tagged header_end parts =
     and_then (next_part parts) (\<lambda>(namespace_length, parts).
     and_then (next_part parts) (\<lambda>(token_length, parts).
     and_then (collect_trailing 2 [] parts) (\<lambda>trailing.
     and_then (pop_tag trailing tagged) (\<lambda>(tag, trailing).
     let (all, trailing) = pop_literal ''A'' trailing in
     and_then (refuse_if (trailing \<noteq> []) InvalidLength) (\<lambda>_.
     and_then (parse_length namespace_length) (\<lambda>namespace_length.
     and_then (parse_length token_length) (\<lambda>token_length.
     and_then (refuse_if (token_length = 0) EmptyField) (\<lambda>_.
     and_then (refuse_if (all \<and> namespace_length \<noteq> 0) InvalidLength) (\<lambda>_.
     let token_start = header_end + 1 in
     and_then (field_ends token_start [token_length, namespace_length]) (\<lambda>ends.
     let namespace_start = ends ! 0; namespace_end = ends ! 1 in
     Inr (namespace_end, \<lambda>frame.
       and_then (decode_field frame token_start token_length) (\<lambda>token.
       Inr (HandoffClear all (slice namespace_start namespace_end frame) token, tag)))))))))))))"

text \<open>\<^verbatim>\<open>b"S" | b"s"\<close>\<close>

definition parse_set :: "bytes \<Rightarrow> bool \<Rightarrow> nat \<Rightarrow> bytes list \<Rightarrow> parse_error + plan" where
  "parse_set command tagged header_end parts =
     and_then (if command = ''s'' then next_length parts else Inr (0, parts)) (\<lambda>(namespace_length, parts).
     and_then (next_part parts) (\<lambda>(key_length, parts).
     and_then (next_part parts) (\<lambda>(value_length, parts).
     and_then (parse_ttl_and_tag parts tagged) (\<lambda>(ttl, tag).
     and_then (parse_length key_length) (\<lambda>key_length.
     and_then (parse_length value_length) (\<lambda>value_length.
     and_then (refuse_if (key_length = 0) EmptyKey) (\<lambda>_.
     and_then (transpose_opt parse_ttl ttl) (\<lambda>ttl.
     let namespace_start = header_end + 1 in
     and_then (field_ends namespace_start [namespace_length, key_length, value_length]) (\<lambda>ends.
     let key_start = ends ! 0; key_end = ends ! 1; value_end = ends ! 2 in
     Inr (value_end, \<lambda>frame.
       Inr (SetKey (frame_key namespace_start key_start key_end frame)
              (slice key_end value_end frame) ttl, tag)))))))))))"

text \<open>\<^verbatim>\<open>b"U"\<close>\<close>

definition parse_handoff_set :: "bool \<Rightarrow> nat \<Rightarrow> bytes list \<Rightarrow> parse_error + plan" where
  "parse_handoff_set tagged header_end parts =
     and_then (next_part parts) (\<lambda>(namespace_length, parts).
     and_then (next_part parts) (\<lambda>(key_length, parts).
     and_then (next_part parts) (\<lambda>(value_length, parts).
     and_then (next_part parts) (\<lambda>(token_length, parts).
     and_then (collect_trailing 3 [] parts) (\<lambda>trailing.
     and_then (pop_tag trailing tagged) (\<lambda>(tag, trailing).
     let (if_absent, trailing) = pop_literal ''A'' trailing in
     and_then (refuse_if (length trailing > 1) InvalidLength) (\<lambda>_.
     let ttl = (if trailing = [] then None else Some (last trailing)) in
     and_then (parse_length namespace_length) (\<lambda>namespace_length.
     and_then (parse_length key_length) (\<lambda>key_length.
     and_then (parse_length value_length) (\<lambda>value_length.
     and_then (parse_length token_length) (\<lambda>token_length.
     and_then (refuse_if (key_length = 0) EmptyKey) (\<lambda>_.
     and_then (refuse_if (token_length = 0) EmptyField) (\<lambda>_.
     and_then (transpose_opt parse_ttl ttl) (\<lambda>ttl.
     let token_start = header_end + 1 in
     and_then (field_ends token_start [token_length, namespace_length, key_length, value_length]) (\<lambda>ends.
     let namespace_start = ends ! 0; key_start = ends ! 1; key_end = ends ! 2; value_end = ends ! 3 in
     Inr (value_end, \<lambda>frame.
       and_then (decode_field frame token_start token_length) (\<lambda>token.
       Inr (HandoffSet (frame_key namespace_start key_start key_end frame)
              (slice key_end value_end frame) ttl if_absent token False, tag))))))))))))))))))"

text \<open>\<^verbatim>\<open>b"X"\<close>\<close>

definition parse_cancel_migration :: "nat \<Rightarrow> bytes list \<Rightarrow> parse_error + plan" where
  "parse_cancel_migration header_end parts =
     and_then (next_part parts) (\<lambda>(joining_name_length, parts).
     and_then (next_part parts) (\<lambda>(token_length, parts).
     and_then (no_more_parts parts) (\<lambda>_.
     and_then (parse_length joining_name_length) (\<lambda>joining_name_length.
     and_then (parse_length token_length) (\<lambda>token_length.
     and_then (refuse_if (joining_name_length = 0 \<or> token_length = 0) EmptyField) (\<lambda>_.
     let token_start = header_end + 1 in
     and_then (field_ends token_start [token_length, joining_name_length]) (\<lambda>ends.
     let joining_name_start = ends ! 0; joining_name_end = ends ! 1 in
     Inr (joining_name_end, \<lambda>frame.
       and_then (decode_field frame token_start token_length) (\<lambda>token.
       and_then (decode_field frame joining_name_start joining_name_length) (\<lambda>joining_name.
       Inr (CancelMigration token joining_name, None)))))))))))"

definition run_plan :: "parse_error + plan \<Rightarrow> bytes \<Rightarrow> (parse_error + command \<times> nat option) \<times> bytes" where
  "run_plan p input = (case p of
     Inl e \<Rightarrow> (Inl e, input)
   | Inr (stop, build) \<Rightarrow> (case take_frame input stop of
        Inl e \<Rightarrow> (Inl e, input)
      | Inr (frame, input) \<Rightarrow> (build frame, input)))"

section \<open>Progress\<close>

record migrate_progress =
  mp_header_end :: nat
  mp_joined_count :: nat
  mp_cursor :: nat
  mp_entries_done :: nat
  mp_line_end :: "nat option"
  mp_line_scanned_to :: nat
  mp_frame_end :: "nat option"
  mp_frame_keys :: nat

definition progress_default :: migrate_progress where
  "progress_default = \<lparr>mp_header_end = 0, mp_joined_count = 0, mp_cursor = 0, mp_entries_done = 0,
     mp_line_end = None, mp_line_scanned_to = 0, mp_frame_end = None, mp_frame_keys = 0\<rparr>"

definition find_header_line_end :: "bytes \<Rightarrow> migrate_progress \<Rightarrow> nat option \<times> migrate_progress" where
  "find_header_line_end input progress =
     (if (case mp_line_end progress of None \<Rightarrow> False | Some stop \<Rightarrow> length input > stop)
      then (mp_line_end progress, progress)
      else
        let start = min (mp_line_scanned_to progress) (length input) in
        case find_lf (drop start input) of
          Some relative \<Rightarrow>
            let stop = start + relative in (Some stop, progress\<lparr>mp_line_end := Some stop\<rparr>)
        | None \<Rightarrow> (None, progress\<lparr>mp_line_scanned_to := length input\<rparr>))"

definition multi_frame_gate :: "nat \<Rightarrow> migrate_progress \<Rightarrow> bool \<Rightarrow> bool \<Rightarrow> parse_error + unit" where
  "multi_frame_gate buffered progress frame_charged values =
     (case mp_frame_end progress of
        None \<Rightarrow> Inr ()
      | Some frame_len \<Rightarrow>
          if buffered < frame_len then Inl Incomplete
          else if frame_charged then Inr ()
          else Inl (ChargeRequired (mp_frame_keys progress) values frame_len))"

type_synonym parsed = "(parse_error + command \<times> nat option) \<times> bytes \<times> migrate_progress"

section \<open>The multi-key arms\<close>

fun read_key_lengths :: "nat \<Rightarrow> bytes list \<Rightarrow> parse_error + nat list \<times> bytes list" where
  "read_key_lengths 0 parts = Inr ([], parts)"
| "read_key_lengths (Suc n) parts =
     and_then (next_length parts) (\<lambda>(len, parts).
     and_then (refuse_if (len = 0) EmptyKey) (\<lambda>_.
     and_then (read_key_lengths n parts) (\<lambda>(lens, parts). Inr (len # lens, parts))))"

fun read_pair_lengths :: "nat \<Rightarrow> bytes list \<Rightarrow> parse_error + (nat \<times> nat) list \<times> bytes list" where
  "read_pair_lengths 0 parts = Inr ([], parts)"
| "read_pair_lengths (Suc n) parts =
     and_then (next_length parts) (\<lambda>(key_length, parts).
     and_then (next_length parts) (\<lambda>(value_length, parts).
     and_then (refuse_if (key_length = 0) EmptyKey) (\<lambda>_.
     and_then (read_pair_lengths n parts) (\<lambda>(lens, parts). Inr ((key_length, value_length) # lens, parts)))))"

fun key_spans :: "nat \<Rightarrow> nat list \<Rightarrow> parse_error + nat \<times> (nat \<times> nat) list" where
  "key_spans cursor [] = Inr (cursor, [])"
| "key_spans start (len # lens) =
     and_then (ok_or (checked_add start len) InvalidLength) (\<lambda>cursor.
     and_then (key_spans cursor lens) (\<lambda>(stop, spans). Inr (stop, (start, cursor) # spans)))"

fun pair_spans :: "nat \<Rightarrow> (nat \<times> nat) list \<Rightarrow> parse_error + nat \<times> (nat \<times> nat \<times> nat) list" where
  "pair_spans cursor [] = Inr (cursor, [])"
| "pair_spans key_start ((key_length, value_length) # lens) =
     and_then (field_ends key_start [key_length, value_length]) (\<lambda>ends.
     let value_start = ends ! 0; value_end = ends ! 1 in
     and_then (pair_spans value_end lens) (\<lambda>(stop, spans).
     Inr (stop, (key_start, value_start, value_end) # spans)))"

text \<open>A multi-key frame's header: how many keys, where the frame ends, and the command.\<close>

type_synonym multi_plan = "nat \<times> plan"

text \<open>\<^verbatim>\<open>b"m"\<close>\<close>

definition parse_multi_get :: "bool \<Rightarrow> nat \<Rightarrow> bytes list \<Rightarrow> parse_error + multi_plan" where
  "parse_multi_get tagged header_end parts =
     and_then (next_length parts) (\<lambda>(namespace_length, parts).
     and_then (next_length parts) (\<lambda>(key_count, parts).
     and_then (refuse_if (key_count = 0) InvalidLength) (\<lambda>_.
     and_then (read_key_lengths key_count parts) (\<lambda>(key_lengths, parts).
     and_then (parse_trailing_tag parts tagged) (\<lambda>(tag, parts).
     and_then (no_more_parts parts) (\<lambda>_.
     let namespace_start = header_end + 1 in
     and_then (ok_or (checked_add namespace_start namespace_length) InvalidLength) (\<lambda>cursor.
     and_then (key_spans cursor key_lengths) (\<lambda>(cursor, spans).
     Inr (key_count, cursor, \<lambda>frame.
       Inr (MultiGet (slice namespace_start (namespace_start + namespace_length) frame)
              (map (\<lambda>(start, stop). slice start stop frame) spans), tag))))))))))"

text \<open>\<^verbatim>\<open>b"y"\<close>\<close>

definition parse_multi_touch :: "bool \<Rightarrow> nat \<Rightarrow> bytes list \<Rightarrow> parse_error + multi_plan" where
  "parse_multi_touch tagged header_end parts =
     and_then (next_length parts) (\<lambda>(namespace_length, parts).
     and_then (next_length parts) (\<lambda>(key_count, parts).
     and_then (refuse_if (key_count = 0) InvalidLength) (\<lambda>_.
     and_then (read_key_lengths key_count parts) (\<lambda>(key_lengths, parts).
     and_then (parse_touch_tail parts tagged) (\<lambda>(ttl, get, tag).
     let namespace_start = header_end + 1 in
     and_then (ok_or (checked_add namespace_start namespace_length) InvalidLength) (\<lambda>cursor.
     and_then (key_spans cursor key_lengths) (\<lambda>(cursor, spans).
     Inr (key_count, cursor, \<lambda>frame.
       Inr (MultiTouch (slice namespace_start (namespace_start + namespace_length) frame)
              (map (\<lambda>(start, stop). slice start stop frame) spans) ttl get, tag)))))))))"

text \<open>\<^verbatim>\<open>b"o"\<close>\<close>

definition parse_multi_set :: "bool \<Rightarrow> nat \<Rightarrow> bytes list \<Rightarrow> parse_error + multi_plan" where
  "parse_multi_set tagged header_end parts =
     and_then (next_length parts) (\<lambda>(namespace_length, parts).
     and_then (next_length parts) (\<lambda>(key_count, parts).
     and_then (refuse_if (key_count = 0) InvalidLength) (\<lambda>_.
     and_then (read_pair_lengths key_count parts) (\<lambda>(lengths, parts).
     and_then (parse_ttl_and_tag parts tagged) (\<lambda>(ttl, tag).
     and_then (transpose_opt parse_ttl ttl) (\<lambda>ttl.
     let namespace_start = header_end + 1 in
     and_then (ok_or (checked_add namespace_start namespace_length) InvalidLength) (\<lambda>cursor.
     and_then (pair_spans cursor lengths) (\<lambda>(cursor, spans).
     Inr (key_count, cursor, \<lambda>frame.
       Inr (MultiSet (slice namespace_start (namespace_start + namespace_length) frame)
              (map (\<lambda>(key_start, value_start, value_end). slice key_start value_start frame) spans)
              (map (\<lambda>(key_start, value_start, value_end). slice value_start value_end frame) spans)
              ttl, tag))))))))))"

text \<open>What the three arms do around their headers: the gate before the header is read again, the
  recorded end of the frame, and the gate before the frame is taken.\<close>

definition run_multi_plan ::
    "bool \<Rightarrow> bool \<Rightarrow> (unit \<Rightarrow> parse_error + multi_plan) \<Rightarrow> bytes \<Rightarrow> migrate_progress \<Rightarrow> parsed" where
  "run_multi_plan values frame_charged header input progress =
     (case multi_frame_gate (length input) progress frame_charged values of
        Inl e \<Rightarrow> (Inl e, input, progress)
      | Inr _ \<Rightarrow> (case header () of
          Inl e \<Rightarrow> (Inl e, input, progress)
        | Inr (key_count, cursor, build) \<Rightarrow>
            let progress = progress\<lparr>mp_frame_end := Some cursor, mp_frame_keys := key_count\<rparr> in
            (case multi_frame_gate (length input) progress frame_charged values of
               Inl e \<Rightarrow> (Inl e, input, progress)
             | Inr _ \<Rightarrow>
                 let (r, input) = run_plan (Inr (cursor, build)) input in (r, input, progress))))"

section \<open>The migration frame\<close>

record migrate_header =
  mh_token_length :: nat
  mh_joining_name_length :: nat
  mh_joining_addr_length :: nat
  mh_joining_token_length :: nat
  mh_joined_count :: nat
  mh_replication :: nat
  mh_generation :: "nat option"

record joined_entry =
  je_name_start :: nat
  je_name_length :: nat
  je_addr_start :: nat
  je_addr_length :: nat
  je_end :: nat

definition next_joined_entry :: "bytes \<Rightarrow> nat \<Rightarrow> parse_error + joined_entry" where
  "next_joined_entry input cursor =
     (let window_end = min (length input) (cursor + MAX_ROSTER_LINE_LEN + 1) in
      and_then
        (case find_lf (slice cursor window_end input) of
           Some offset \<Rightarrow> Inr (cursor + offset)
         | None \<Rightarrow> if length input - cursor > MAX_ROSTER_LINE_LEN then Inl InvalidLength else Inl Incomplete)
        (\<lambda>entry_header_end.
     let entry_parts = split_at_byte SP (slice cursor entry_header_end input) in
     and_then (next_part entry_parts) (\<lambda>(name_length, entry_parts).
     and_then (next_part entry_parts) (\<lambda>(addr_length, entry_parts).
     and_then (no_more_parts entry_parts) (\<lambda>_.
     and_then (parse_length name_length) (\<lambda>name_length.
     and_then (parse_length addr_length) (\<lambda>addr_length.
     and_then (refuse_if (name_length = 0 \<or> addr_length = 0) EmptyField) (\<lambda>_.
     let name_start = entry_header_end + 1 in
     and_then (field_ends name_start [name_length, addr_length]) (\<lambda>ends.
     let addr_start = ends ! 0; stop = ends ! 1 in
     and_then (refuse_if (length input < stop) Incomplete) (\<lambda>_.
     Inr \<lparr>je_name_start = name_start, je_name_length = name_length, je_addr_start = addr_start,
          je_addr_length = addr_length, je_end = stop\<rparr>))))))))))"

text \<open>The read-only pass, \<open>n\<close> entries still to go.\<close>

fun scan_entries :: "bytes \<Rightarrow> nat \<Rightarrow> migrate_progress \<Rightarrow> (parse_error + unit) \<times> migrate_progress" where
  "scan_entries input 0 progress = (Inr (), progress)"
| "scan_entries input (Suc n) progress =
     (case next_joined_entry input (mp_cursor progress) of
        Inl e \<Rightarrow> (Inl e, progress)
      | Inr entry \<Rightarrow> scan_entries input n
          (progress\<lparr>mp_cursor := je_end entry, mp_entries_done := mp_entries_done progress + 1\<rparr>))"

fun read_joined :: "bytes \<Rightarrow> nat \<Rightarrow> nat \<Rightarrow> parse_error + (bytes \<times> bytes) list" where
  "read_joined frame 0 at = Inr []"
| "read_joined frame (Suc n) at =
     and_then (next_joined_entry frame at) (\<lambda>entry.
     and_then (decode_field frame (je_name_start entry) (je_name_length entry)) (\<lambda>name.
     and_then (decode_field frame (je_addr_start entry) (je_addr_length entry)) (\<lambda>addr.
     and_then (read_joined frame n (je_end entry)) (\<lambda>joined. Inr ((name, addr) # joined)))))"

definition read_migrate :: "nat \<Rightarrow> migrate_header \<Rightarrow> nat list \<Rightarrow> bytes \<Rightarrow> parse_error + command \<times> nat option" where
  "read_migrate token_start header ends frame =
     and_then (decode_field frame token_start (mh_token_length header)) (\<lambda>token.
     and_then (decode_field frame (ends ! 0) (mh_joining_name_length header)) (\<lambda>joining_name.
     and_then (decode_field frame (ends ! 1) (mh_joining_addr_length header)) (\<lambda>joining_addr.
     and_then (decode_field frame (ends ! 2) (mh_joining_token_length header)) (\<lambda>joining_token.
     and_then (read_joined frame (mh_joined_count header) (ends ! 3)) (\<lambda>joined.
     Inr (Migrate token joining_name joining_addr joining_token joined (mh_replication header)
            (mh_generation header), None))))))"

definition parse_migrate :: "bytes \<Rightarrow> nat \<Rightarrow> migrate_header \<Rightarrow> migrate_progress \<Rightarrow> parsed" where
  "parse_migrate input header_end header progress =
     (if mh_token_length header = 0 \<or> mh_joining_name_length header = 0
         \<or> mh_joining_addr_length header = 0 \<or> mh_joining_token_length header = 0
      then (Inl EmptyField, input, progress)
      else
        let token_start = header_end + 1 in
        case field_ends token_start [mh_token_length header, mh_joining_name_length header,
               mh_joining_addr_length header, mh_joining_token_length header] of
          Inl e \<Rightarrow> (Inl e, input, progress)
        | Inr ends \<Rightarrow>
            let entries_start = ends ! 3 in
            if length input < entries_start then (Inl Incomplete, input, progress)
            else
              let joined_count = mh_joined_count header;
                  resumable = (mp_header_end progress = header_end \<and> mp_joined_count progress = joined_count
                    \<and> mp_cursor progress \<ge> entries_start \<and> mp_entries_done progress \<le> joined_count
                    \<and> length input \<ge> mp_cursor progress);
                  cursor = (if resumable then mp_cursor progress else entries_start);
                  entries_done = (if resumable then mp_entries_done progress else 0);
                  progress = \<lparr>mp_header_end = header_end, mp_joined_count = joined_count, mp_cursor = cursor,
                    mp_entries_done = entries_done, mp_line_end = Some header_end,
                    mp_line_scanned_to = mp_line_scanned_to progress, mp_frame_end = None, mp_frame_keys = 0\<rparr>;
                  (scanned, progress) = scan_entries input (joined_count - entries_done) progress
              in case scanned of
                   Inl e \<Rightarrow> (Inl e, input, progress)
                 | Inr _ \<Rightarrow>
                     let cursor = mp_cursor progress; frame = take cursor input in
                     (read_migrate token_start header ends frame, drop cursor input, progress))"

text \<open>\<^verbatim>\<open>b"M"\<close>, its header\<close>

definition parse_migrate_header :: "bytes list \<Rightarrow> parse_error + migrate_header" where
  "parse_migrate_header parts =
     and_then (next_part parts) (\<lambda>(joining_name_length, parts).
     and_then (next_part parts) (\<lambda>(joining_addr_length, parts).
     and_then (next_part parts) (\<lambda>(joining_token_length, parts).
     and_then (next_part parts) (\<lambda>(joined_count, parts).
     and_then (next_part parts) (\<lambda>(replication, parts).
     and_then (next_part parts) (\<lambda>(token_length, parts).
     let (generation_field, parts) = (case parts of [] \<Rightarrow> (None, []) | p # parts \<Rightarrow> (Some p, parts)) in
     and_then (no_more_parts parts) (\<lambda>_.
     and_then (parse_length joining_name_length) (\<lambda>joining_name_length.
     and_then (parse_length joining_addr_length) (\<lambda>joining_addr_length.
     and_then (parse_length joining_token_length) (\<lambda>joining_token_length.
     and_then (parse_length joined_count) (\<lambda>joined_count.
     and_then (parse_length replication) (\<lambda>replication.
     and_then (parse_length token_length) (\<lambda>token_length.
     and_then (transpose_opt parse_length generation_field) (\<lambda>generation.
     and_then (refuse_if (joined_count > MAX_ROSTER_ENTRIES) InvalidLength) (\<lambda>_.
     and_then (refuse_if (replication = 0) InvalidLength) (\<lambda>_.
     Inr \<lparr>mh_token_length = token_length, mh_joining_name_length = joining_name_length,
          mh_joining_addr_length = joining_addr_length, mh_joining_token_length = joining_token_length,
          mh_joined_count = joined_count, mh_replication = replication, mh_generation = generation\<rparr>))))))))))))))))"

section \<open>The parser\<close>

text \<open>The arms that do not use the progress, by the command letter.\<close>

definition parse_simple :: "bytes \<Rightarrow> bool \<Rightarrow> nat \<Rightarrow> bytes list \<Rightarrow> parse_error + plan" where
  "parse_simple command tagged header_end parts =
     (if command = ''A'' then parse_auth header_end parts
      else if command \<in> {''G'', ''D'', ''g'', ''d''} then parse_get_delete command tagged header_end parts
      else if command = ''u'' then parse_handoff_delete tagged header_end parts
      else if command = ''i'' then parse_incr tagged header_end parts
      else if command = ''k'' then parse_cas_set tagged header_end parts
      else if command = ''x'' then parse_cas_delete tagged header_end parts
      else if command = ''t'' then parse_touch tagged header_end parts
      else if command = ''c'' then parse_clear tagged header_end parts
      else if command = ''F'' then parse_clear_all tagged header_end parts
      else if command = ''f'' then parse_handoff_clear tagged header_end parts
      else if command \<in> {''S'', ''s''} then parse_set command tagged header_end parts
      else if command = ''U'' then parse_handoff_set tagged header_end parts
      else if command = ''X'' then parse_cancel_migration header_end parts
      else Inl InvalidCommand)"

text \<open>The \<^verbatim>\<open>match command\<close> of \<open>parse_with_mode\<close>.\<close>

definition parse_command ::
    "bytes \<Rightarrow> bytes list \<Rightarrow> nat \<Rightarrow> bytes \<Rightarrow> bool \<Rightarrow> migrate_progress \<Rightarrow> bool \<Rightarrow> parsed" where
  "parse_command command parts header_end input tagged progress frame_charged =
     (if command = ''m'' then
        run_multi_plan False frame_charged (\<lambda>_. parse_multi_get tagged header_end parts) input progress
      else if command = ''y'' then
        run_multi_plan False frame_charged (\<lambda>_. parse_multi_touch tagged header_end parts) input progress
      else if command = ''o'' then
        run_multi_plan True frame_charged (\<lambda>_. parse_multi_set tagged header_end parts) input progress
      else if command = ''M'' then
        (case parse_migrate_header parts of
           Inl e \<Rightarrow> (Inl e, input, progress)
         | Inr header \<Rightarrow> parse_migrate input header_end header progress)
      else
        let (r, input) = run_plan (parse_simple command tagged header_end parts) input
        in (r, input, progress))"

definition parse_with_mode :: "bytes \<Rightarrow> bool \<Rightarrow> migrate_progress \<Rightarrow> bool \<Rightarrow> parsed" where
  "parse_with_mode input tagged progress frame_charged =
     (let (line_end, progress) = find_header_line_end input progress in
      case line_end of
        None \<Rightarrow> (Inl Incomplete, input, progress)
      | Some header_end \<Rightarrow>
          (case split_at_byte SP (take header_end input) of
             [] \<Rightarrow> (Inl InvalidCommand, input, progress)
           | command # parts \<Rightarrow> parse_command command parts header_end input tagged progress frame_charged))"

definition parse_resumable :: "bytes \<Rightarrow> bool \<Rightarrow> migrate_progress \<Rightarrow> bool \<Rightarrow> parsed" where
  "parse_resumable input tagged progress frame_charged =
     (let (parsed, input, progress) = parse_with_mode input tagged progress frame_charged in
      if (case parsed of Inl Incomplete \<Rightarrow> True | Inl (ChargeRequired _ _ _) \<Rightarrow> True | _ \<Rightarrow> False)
      then (parsed, input, progress)
      else (parsed, input, progress_default))"

end
