(* ===== verification/Parse_Lemmas.thy ===== *)
theory Parse_Lemmas
  imports Command_Parse
begin

text \<open>
  The facts about fields, offsets and headers that the properties of the parser share: what
  \<open>parse_length\<close> accepts, where the fields of a body lie, and what the parser sees of a frame
  written as a header line and a body.
\<close>

section \<open>Numbers\<close>

lemma foldl_dec_ge: "acc \<le> foldl (\<lambda>acc d. 10 * acc + digit_value d) acc ds"
proof (induction ds arbitrary: acc)
  case (Cons d ds)
  have "acc \<le> 10 * acc + digit_value d" by simp
  also have "\<dots> \<le> foldl (\<lambda>acc d. 10 * acc + digit_value d) (10 * acc + digit_value d) ds"
    by (rule Cons.IH)
  finally show ?case by simp
qed simp

lemma parse_length_loop_eq:
  assumes "acc \<le> U64_MAX"
  shows "parse_length_loop acc ds =
    (if list_all is_ascii_digit ds \<and> foldl (\<lambda>acc d. 10 * acc + digit_value d) acc ds \<le> U64_MAX
     then Inr (foldl (\<lambda>acc d. 10 * acc + digit_value d) acc ds) else Inl InvalidLength)"
  using assms
proof (induction ds arbitrary: acc)
  case (Cons d ds)
  show ?case
  proof (cases "10 * acc + digit_value d \<le> U64_MAX")
    case True
    then show ?thesis
      using Cons.IH [OF True] by (simp add: checked_mul_def checked_add_def mult.commute)
  next
    case False
    then have "\<not> foldl (\<lambda>acc d. 10 * acc + digit_value d) (10 * acc + digit_value d) ds \<le> U64_MAX"
      using foldl_dec_ge [of "10 * acc + digit_value d" ds] by linarith
    with False show ?thesis
      by (auto simp: checked_mul_def checked_add_def mult.commute)
  qed
qed simp

text \<open>A length field is a non-empty run of ASCII digits whose value fits a \<open>usize\<close>.\<close>

lemma parse_length_eq:
  "parse_length s =
    (if s \<noteq> [] \<and> list_all is_ascii_digit s \<and> dec_value s \<le> U64_MAX then Inr (dec_value s)
     else Inl InvalidLength)"
  by (simp add: parse_length_def parse_length_loop_eq dec_value_def)

lemma parse_length_to_dec [simp]: "n \<le> U64_MAX \<Longrightarrow> parse_length (to_dec n) = Inr n"
  by (simp add: parse_length_eq)

lemma parse_length_bound: "parse_length s = Inr n \<Longrightarrow> n \<le> U64_MAX"
  by (auto simp: parse_length_eq split: if_splits)

lemma parse_length_error: "parse_length s = Inl e \<Longrightarrow> e = InvalidLength"
  by (auto simp: parse_length_eq split: if_splits)

lemma U32_le_U64: "n \<le> U32_MAX \<Longrightarrow> n \<le> U64_MAX"
  by (simp add: U32_MAX_def U64_MAX_def)

lemma parse_tag_to_dec [simp]: "n \<le> U32_MAX \<Longrightarrow> parse_tag (to_dec n) = Inr n"
  by (simp add: parse_tag_def U32_le_U64)

lemma parse_tag_bound: "parse_tag s = Inr n \<Longrightarrow> n \<le> U32_MAX"
  by (auto simp: parse_tag_def result_iffs split: if_splits)

lemma parse_ttl_to_dec [simp]: "n \<le> U64_MAX \<Longrightarrow> parse_ttl (to_dec n) = Inr (n * NANOS_PER_SEC)"
  by (simp add: parse_ttl_def)

lemma next_part_simps [simp]: "next_part [] = Inl InvalidLength" "next_part (p # ps) = Inr (p, ps)"
  by (simp_all add: next_part_def)

lemma next_length_Cons [simp]: "next_length (p # ps) = and_then (parse_length p) (\<lambda>n. Inr (n, ps))"
  by (simp add: next_length_def)

lemma no_more_parts_simps [simp]: "no_more_parts [] = Inr ()" "no_more_parts (p # ps) = Inl InvalidLength"
  by (simp_all add: no_more_parts_def)

lemma parse_trailing_tag_simps [simp]:
  "parse_trailing_tag parts False = Inr (None, parts)"
  "parse_trailing_tag [] True = Inl InvalidLength"
  "parse_trailing_tag (p # ps) True = and_then (parse_tag p) (\<lambda>tag. Inr (Some tag, ps))"
  by (simp_all add: parse_trailing_tag_def)

section \<open>Offsets\<close>

lemma field_ends_one:
  "field_ends s [a] = (if s + a \<le> U64_MAX then Inr [s + a] else Inl InvalidLength)"
  by (simp add: checked_add_def)

lemma field_ends_two:
  "field_ends s [a, b] = (if s + a + b \<le> U64_MAX then Inr [s + a, s + a + b] else Inl InvalidLength)"
  by (simp add: checked_add_def)

lemma field_ends_three:
  "field_ends s [a, b, c] =
     (if s + a + b + c \<le> U64_MAX then Inr [s + a, s + a + b, s + a + b + c] else Inl InvalidLength)"
  by (simp add: checked_add_def)

lemma field_ends_four:
  "field_ends s [a, b, c, d] =
     (if s + a + b + c + d \<le> U64_MAX then Inr [s + a, s + a + b, s + a + b + c, s + a + b + c + d]
      else Inl InvalidLength)"
  by (simp add: checked_add_def)

lemmas field_ends_eqs = field_ends_one field_ends_two field_ends_three field_ends_four

declare field_ends.simps(2) [simp del]

lemma slice_append_skip: "length a \<le> s \<Longrightarrow> slice s e (a @ b) = slice (s - length a) (e - length a) b"
  by (simp add: slice_def)

lemma slice_append_head [simp]: "slice 0 (length a) (a @ b) = a" "slice 0 (length a) a = a"
  by (simp_all add: slice_def)

lemma length_slice: "s \<le> e \<Longrightarrow> e \<le> length bs \<Longrightarrow> length (slice s e bs) = e - s"
  by (simp add: slice_def)

lemma slice_take: "e \<le> n \<Longrightarrow> slice s e (take n bs) = slice s e bs"
  by (simp add: slice_def drop_take min_def)

lemma slice_append: "e \<le> length bs \<Longrightarrow> slice s e (bs @ extra) = slice s e bs"
  by (auto simp: slice_def)

lemma decode_field_append:
  "start + len \<le> length frame \<Longrightarrow> decode_field (frame @ extra) start len = decode_field frame start len"
  by (simp add: decode_field_def slice_append)

lemma decode_field_take:
  "start + len \<le> n \<Longrightarrow> decode_field (take n frame) start len = decode_field frame start len"
  by (simp add: decode_field_def slice_take)

lemma decode_field_error: "decode_field frame start len = Inl e \<Longrightarrow> e = InvalidUtf8"
  by (auto simp: decode_field_def Let_def split: if_splits)

section \<open>Headers\<close>

lemma split_at_byte_nonempty [simp]: "split_at_byte s bs \<noteq> []"
  by (induction bs) (auto split: list.splits)

lemma split_at_byte_field [simp]: "s \<notin> set f \<Longrightarrow> split_at_byte s f = [f]"
  by (induction f) auto

lemma split_at_byte_join [simp]: "s \<notin> set f \<Longrightarrow> split_at_byte s (f @ s # rest) = f # split_at_byte s rest"
  by (induction f) auto

text \<open>The fields of a header, joined by single spaces.\<close>

fun join_fields :: "bytes list \<Rightarrow> bytes" where
  "join_fields [] = []"
| "join_fields [f] = f"
| "join_fields (f # g # fs) = f @ SP # join_fields (g # fs)"

lemma split_join_fields:
  "list_all (\<lambda>f. SP \<notin> set f) fs \<Longrightarrow> fs \<noteq> [] \<Longrightarrow> split_at_byte SP (join_fields fs) = fs"
  by (induction fs rule: join_fields.induct) auto

lemma set_join_fields: "set (join_fields fs) \<subseteq> insert SP (\<Union>f\<in>set fs. set f)"
  by (induction fs rule: join_fields.induct) auto

lemma position_append: "position P (xs @ ys) =
  (case position P xs of Some i \<Rightarrow> Some i | None \<Rightarrow> map_option (\<lambda>i. length xs + i) (position P ys))"
  by (induction xs) (auto split: option.splits simp: option.map_comp o_def option.map_id0 [unfolded id_def] fun_eq_iff cong: option.map_cong)

lemma find_lf_line [simp]: "LF \<notin> set h \<Longrightarrow> find_lf (h @ LF # rest) = Some (length h)"
  by (induction h) (auto simp: find_lf_def)

lemma find_lf_append: "find_lf bs = Some i \<Longrightarrow> find_lf (bs @ extra) = Some i"
  by (simp add: find_lf_def position_append)

lemma find_lf_Some: "find_lf bs = Some i \<Longrightarrow> i < length bs \<and> bs ! i = LF \<and> LF \<notin> set (take i bs)"
  by (auto simp: find_lf_def in_set_conv_nth dest!: position_Some)

lemma find_lf_None: "find_lf bs = None \<longleftrightarrow> LF \<notin> set bs"
  by (auto simp: find_lf_def position_None_iff)

text \<open>A byte string that can stand in a header: neither the separator nor the line end.\<close>

definition header_field :: "bytes \<Rightarrow> bool" where
  "header_field f \<longleftrightarrow> SP \<notin> set f \<and> LF \<notin> set f"

lemma digit_header_byte: "is_ascii_digit d \<Longrightarrow> d \<noteq> SP \<and> d \<noteq> LF"
  by (auto simp: is_ascii_digit_def byte_in_def)

lemma header_field_to_dec [simp]: "header_field (to_dec n)"
  using to_dec_digits [of n] digit_header_byte by (auto simp: header_field_def list_all_iff)

lemma header_field_int [simp]: "header_field (int_to_dec i)"
  using header_field_to_dec by (auto simp: int_to_dec_def header_field_def)

text \<open>A request as a peer writes it: the header line and the body.\<close>

definition wire_frame :: "bytes list \<Rightarrow> bytes \<Rightarrow> bytes" where
  "wire_frame fs body = join_fields fs @ LF # body"

lemma wire_header:
  assumes "fs \<noteq> []" and "list_all header_field fs"
  shows "find_lf (wire_frame fs body) = Some (length (join_fields fs))"
    and "split_at_byte SP (take (length (join_fields fs)) (wire_frame fs body)) = fs"
proof -
  have "LF \<notin> set (join_fields fs)"
    using set_join_fields [of fs] assms(2) by (auto simp: list_all_iff header_field_def)
  then show "find_lf (wire_frame fs body) = Some (length (join_fields fs))"
    by (simp add: wire_frame_def)
  show "split_at_byte SP (take (length (join_fields fs)) (wire_frame fs body)) = fs"
    using assms by (simp add: wire_frame_def split_join_fields list_all_iff header_field_def)
qed

lemma progress_default_sel [simp]:
  "mp_header_end progress_default = 0" "mp_joined_count progress_default = 0" "mp_cursor progress_default = 0"
  "mp_entries_done progress_default = 0" "mp_line_end progress_default = None"
  "mp_line_scanned_to progress_default = 0" "mp_frame_end progress_default = None"
  "mp_frame_keys progress_default = 0"
  by (simp_all add: progress_default_def)

lemma find_header_line_end_default:
  "find_lf input = Some e \<Longrightarrow>
     find_header_line_end input progress_default = (Some e, progress_default\<lparr>mp_line_end := Some e\<rparr>)"
  by (simp add: find_header_line_end_def progress_default_def)

text \<open>A buffer whose first line is known goes straight to its arm.\<close>

lemma parse_with_mode_line:
  assumes "find_lf input = Some e" and "split_at_byte SP (take e input) = command # parts"
  shows "parse_with_mode input tagged progress_default charged =
    parse_command command parts e input tagged (progress_default\<lparr>mp_line_end := Some e\<rparr>) charged"
  using assms by (simp add: parse_with_mode_def find_header_line_end_default)

lemma parse_wire:
  assumes "list_all header_field (command # parts)"
  shows "parse_with_mode (wire_frame (command # parts) body @ rest) tagged progress_default charged =
    parse_command command parts (length (join_fields (command # parts)))
      (wire_frame (command # parts) body @ rest) tagged
      (progress_default\<lparr>mp_line_end := Some (length (join_fields (command # parts)))\<rparr>) charged"
proof (rule parse_with_mode_line)
  let ?h = "length (join_fields (command # parts))" and ?w = "wire_frame (command # parts) body"
  show "find_lf (?w @ rest) = Some ?h"
    using wire_header(1) [of "command # parts"] assms by (simp add: find_lf_append)
  have "take ?h (?w @ rest) = take ?h ?w"
    by (simp add: wire_frame_def)
  then show "split_at_byte SP (take ?h (?w @ rest)) = command # parts"
    using wire_header(2) [of "command # parts" body] assms by (simp only: list.distinct) simp
qed

text \<open>What the parser does with a frame of one of the arms without progress.\<close>

lemma parse_wire_simple:
  assumes fs: "list_all header_field (command # parts)"
    and cmd: "command \<notin> {''m'', ''y'', ''o'', ''M''}"
    and plan: "parse_simple command tagged (length (join_fields (command # parts))) parts = Inr (stop, build)"
    and stop: "stop = length (wire_frame (command # parts) body)"
  shows "parse_with_mode (wire_frame (command # parts) body @ rest) tagged progress_default charged =
    (build (wire_frame (command # parts) body), rest,
     progress_default\<lparr>mp_line_end := Some (length (join_fields (command # parts)))\<rparr>)"
  using cmd stop by (simp add: parse_wire [OF fs] parse_command_def run_plan_def plan take_frame_def)

end
