(* ===== verification/Wire_Messages.thy ===== *)
theory Wire_Messages
  imports Parse_Lemmas
begin

text \<open>
  The frames the other processes send a node, and that the node's parser reads them back as they
  were meant: what a node sends a node (\<^verbatim>\<open>src/server.rs\<close>: \<open>set_message\<close> to \<open>ForwardedWrite::send\<close>),
  what discovery sends (\<^verbatim>\<open>src/bin/nanocached-discovery.rs\<close>: \<open>M\<close> and \<open>X\<close>) and what the proxy sends on
  behalf of a client (\<^verbatim>\<open>src/bin/nanocached-proxy.rs\<close>: the \<open>frame_*\<close> builders and \<open>substitute_tag\<close>).
  The \<^verbatim>\<open>trace!\<close> lines of the builders have no counterpart.
\<close>

section \<open>Node to node\<close>

definition opt_ttl_field :: "duration option \<Rightarrow> bytes" where
  "opt_ttl_field ttl = (case ttl of None \<Rightarrow> [] | Some ttl \<Rightarrow> '' '' @ to_dec (ttl_wire_seconds ttl))"

definition set_message :: "key \<Rightarrow> bytes \<Rightarrow> duration option \<Rightarrow> bytes" where
  "set_message k v ttl =
     (let header = (if is_namespaced k
            then ''s '' @ to_dec (length (key_namespace k)) @ '' '' @ to_dec (length (key_name k)) @ '' ''
                   @ to_dec (length v)
            else ''S '' @ to_dec (length (key_name k)) @ '' '' @ to_dec (length v));
          header = header @ opt_ttl_field ttl;
          header = header @ [LF]
      in header @ key_namespace k @ key_name k @ v)"

definition delete_message :: "key \<Rightarrow> bytes" where
  "delete_message k =
     (if is_namespaced k
      then ''d '' @ to_dec (length (key_namespace k)) @ '' '' @ to_dec (length (key_name k)) @ [LF]
      else ''D '' @ to_dec (length (key_name k)) @ [LF])
     @ key_namespace k @ key_name k"

definition handoff_message :: "key \<Rightarrow> bytes \<Rightarrow> duration option \<Rightarrow> bool \<Rightarrow> bytes \<Rightarrow> bytes" where
  "handoff_message k v ttl if_absent token =
     (let header = ''U '' @ to_dec (length (key_namespace k)) @ '' '' @ to_dec (length (key_name k)) @ '' ''
            @ to_dec (length v) @ '' '' @ to_dec (length token);
          header = header @ opt_ttl_field ttl;
          header = header @ (if if_absent then '' A'' else []);
          header = header @ [LF]
      in header @ token @ key_namespace k @ key_name k @ v)"

definition handoff_delete_message :: "key \<Rightarrow> bytes \<Rightarrow> bytes" where
  "handoff_delete_message k token =
     ''u '' @ to_dec (length (key_namespace k)) @ '' '' @ to_dec (length (key_name k)) @ '' ''
       @ to_dec (length token) @ [LF]
     @ token @ key_namespace k @ key_name k"

datatype clear_scope = ScopeNamespace bytes | ScopeAll

definition clear_handoff_message :: "clear_scope \<Rightarrow> bytes \<Rightarrow> bytes" where
  "clear_handoff_message scope token = (case scope of
     ScopeNamespace namespace \<Rightarrow>
       ''f '' @ to_dec (length namespace) @ '' '' @ to_dec (length token) @ [LF] @ token @ namespace
   | ScopeAll \<Rightarrow> ''f 0 '' @ to_dec (length token) @ '' A'' @ [LF] @ token)"

datatype forwarded_write =
    FwdSet key bytes "duration option"
  | FwdDelete key
  | FwdHandoffSet key bytes "duration option" bool bytes
  | FwdHandoffDelete key bytes
  | FwdClear clear_scope bytes

text \<open>\<open>ForwardedWrite::send\<close>: the bytes it writes, and whether it accepts the two bytes it reads back.\<close>

definition forwarded_message :: "forwarded_write \<Rightarrow> bytes" where
  "forwarded_message w = (case w of
     FwdSet k v ttl \<Rightarrow> set_message k v ttl
   | FwdHandoffSet k v ttl if_absent token \<Rightarrow> handoff_message k v ttl if_absent token
   | FwdHandoffDelete k token \<Rightarrow> handoff_delete_message k token
   | FwdDelete k \<Rightarrow> delete_message k
   | FwdClear scope token \<Rightarrow> clear_handoff_message scope token)"

definition forwarded_acked :: "forwarded_write \<Rightarrow> bytes \<Rightarrow> bool" where
  "forwarded_acked w ack = (case w of
     FwdSet _ _ _ \<Rightarrow> ack = ''S'' @ [LF]
   | FwdHandoffSet _ _ _ _ _ \<Rightarrow> ack = ''S'' @ [LF]
   | FwdHandoffDelete _ _ \<Rightarrow> ack = ''D'' @ [LF] \<or> ack = ''N'' @ [LF]
   | FwdDelete _ \<Rightarrow> ack = ''D'' @ [LF] \<or> ack = ''N'' @ [LF]
   | FwdClear _ _ \<Rightarrow> ack = ''C'' @ [LF])"

section \<open>Discovery to node\<close>

definition roster_entry :: "bytes \<times> bytes \<Rightarrow> bytes" where
  "roster_entry = (\<lambda>(name, addr).
     to_dec (length name) @ '' '' @ to_dec (length addr) @ [LF] @ name @ addr)"

definition build_migrate_message ::
    "bytes \<Rightarrow> bytes \<Rightarrow> bytes \<Rightarrow> bytes \<Rightarrow> (bytes \<times> bytes) list \<Rightarrow> nat \<Rightarrow> nat \<Rightarrow> bytes" where
  "build_migrate_message token joining_name joining_addr joining_token joined replication generation =
     (''M '' @ to_dec (length joining_name) @ '' '' @ to_dec (length joining_addr) @ '' ''
        @ to_dec (length joining_token) @ '' '' @ to_dec (length joined) @ '' '' @ to_dec replication @ '' ''
        @ to_dec (length token) @ '' '' @ to_dec generation @ [LF])
     @ token @ joining_name @ joining_addr @ joining_token @ concat (map roster_entry joined)"

definition cancel_message :: "bytes \<Rightarrow> bytes \<Rightarrow> bytes" where
  "cancel_message token joining_name =
     ''X '' @ to_dec (length joining_name) @ '' '' @ to_dec (length token) @ [LF] @ token @ joining_name"

section \<open>Proxy to node\<close>

definition TAG_PLACEHOLDER :: bytes where
  "TAG_PLACEHOLDER = ''{tag}''"

definition frame_get :: "bytes \<Rightarrow> bytes \<Rightarrow> bytes" where
  "frame_get namespace name =
     (if namespace = [] then ''G '' @ to_dec (length name) @ '' '' @ TAG_PLACEHOLDER @ [LF]
      else ''g '' @ to_dec (length namespace) @ '' '' @ to_dec (length name) @ '' '' @ TAG_PLACEHOLDER @ [LF])
     @ namespace @ name"

definition key_length_fields :: "bytes list \<Rightarrow> bytes" where
  "key_length_fields keys = concat (map (\<lambda>k. '' '' @ to_dec (length k)) keys)"

definition frame_multi_get :: "bytes \<Rightarrow> bytes list \<Rightarrow> bytes" where
  "frame_multi_get namespace keys =
     (''m '' @ to_dec (length namespace) @ '' '' @ to_dec (length keys) @ key_length_fields keys @ '' ''
        @ TAG_PLACEHOLDER @ [LF])
     @ namespace @ concat keys"

definition seconds_field :: "nat option \<Rightarrow> bytes" where
  "seconds_field ttl = (case ttl of None \<Rightarrow> [] | Some ttl \<Rightarrow> '' '' @ to_dec ttl)"

definition frame_multi_set :: "bytes \<Rightarrow> bytes list \<Rightarrow> bytes list \<Rightarrow> nat option \<Rightarrow> bytes" where
  "frame_multi_set namespace keys values ttl =
     (let lengths = concat (map (\<lambda>(k, v). '' '' @ to_dec (length k) @ '' '' @ to_dec (length v)) (zip keys values))
      in (''o '' @ to_dec (length namespace) @ '' '' @ to_dec (length keys) @ lengths @ seconds_field ttl @ '' ''
            @ TAG_PLACEHOLDER @ [LF])
         @ namespace @ concat (map (\<lambda>(k, v). k @ v) (zip keys values)))"

definition get_field :: "bool \<Rightarrow> bytes" where
  "get_field get = (if get then '' G'' else [])"

definition frame_multi_touch :: "bytes \<Rightarrow> bytes list \<Rightarrow> nat option \<Rightarrow> bool \<Rightarrow> bytes" where
  "frame_multi_touch namespace keys ttl get =
     (''y '' @ to_dec (length namespace) @ '' '' @ to_dec (length keys) @ key_length_fields keys
        @ seconds_field ttl @ get_field get @ '' '' @ TAG_PLACEHOLDER @ [LF])
     @ namespace @ concat keys"

definition frame_set :: "bytes \<Rightarrow> bytes \<Rightarrow> bytes \<Rightarrow> nat option \<Rightarrow> bytes" where
  "frame_set namespace name v ttl =
     (if namespace = []
      then ''S '' @ to_dec (length name) @ '' '' @ to_dec (length v) @ seconds_field ttl @ '' ''
             @ TAG_PLACEHOLDER @ [LF]
      else ''s '' @ to_dec (length namespace) @ '' '' @ to_dec (length name) @ '' '' @ to_dec (length v)
             @ seconds_field ttl @ '' '' @ TAG_PLACEHOLDER @ [LF])
     @ namespace @ name @ v"

definition frame_delete :: "bytes \<Rightarrow> bytes \<Rightarrow> bytes" where
  "frame_delete namespace name =
     (if namespace = [] then ''D '' @ to_dec (length name) @ '' '' @ TAG_PLACEHOLDER @ [LF]
      else ''d '' @ to_dec (length namespace) @ '' '' @ to_dec (length name) @ '' '' @ TAG_PLACEHOLDER @ [LF])
     @ namespace @ name"

definition frame_touch :: "bytes \<Rightarrow> bytes \<Rightarrow> nat option \<Rightarrow> bool \<Rightarrow> bytes" where
  "frame_touch namespace name ttl get =
     (''t '' @ to_dec (length namespace) @ '' '' @ to_dec (length name) @ seconds_field ttl @ get_field get
        @ '' '' @ TAG_PLACEHOLDER @ [LF])
     @ namespace @ name"

definition frame_incr :: "bytes \<Rightarrow> bytes \<Rightarrow> int \<Rightarrow> bytes" where
  "frame_incr namespace name delta =
     (''i '' @ to_dec (length namespace) @ '' '' @ to_dec (length name) @ '' '' @ int_to_dec delta @ '' ''
        @ TAG_PLACEHOLDER @ [LF])
     @ namespace @ name"

text \<open>\<^verbatim>\<open>format!("{byte:02x}")\<close>.\<close>

definition hex_digit :: "nat \<Rightarrow> byte" where
  "hex_digit n = (if n < 10 then char_of (48 + n) else char_of (87 + n))"

definition hex_byte :: "byte \<Rightarrow> bytes" where
  "hex_byte b = [hex_digit (of_char b div 16), hex_digit (of_char b mod 16)]"

definition cas_condition_field :: "cas_condition \<Rightarrow> bytes" where
  "cas_condition_field condition = (case condition of
     CondAbsent \<Rightarrow> ''A''
   | CondPresent \<Rightarrow> ''P''
   | CondDigest digest \<Rightarrow> concat (map hex_byte digest))"

definition frame_cas_set :: "bytes \<Rightarrow> bytes \<Rightarrow> cas_condition \<Rightarrow> bytes \<Rightarrow> nat option \<Rightarrow> bytes" where
  "frame_cas_set namespace name condition v ttl =
     (''k '' @ to_dec (length namespace) @ '' '' @ to_dec (length name) @ '' '' @ to_dec (length v) @ '' ''
        @ cas_condition_field condition @ seconds_field ttl @ '' '' @ TAG_PLACEHOLDER @ [LF])
     @ namespace @ name @ v"

definition frame_cas_delete :: "bytes \<Rightarrow> bytes \<Rightarrow> bytes \<Rightarrow> bytes" where
  "frame_cas_delete namespace name expected_digest =
     (''x '' @ to_dec (length namespace) @ '' '' @ to_dec (length name) @ '' ''
        @ cas_condition_field (CondDigest expected_digest) @ '' '' @ TAG_PLACEHOLDER @ [LF])
     @ namespace @ name"

definition frame_clear :: "bytes \<Rightarrow> bytes" where
  "frame_clear namespace = ''c '' @ to_dec (length namespace) @ '' '' @ TAG_PLACEHOLDER @ [LF] @ namespace"

definition frame_clear_all :: bytes where
  "frame_clear_all = ''F '' @ TAG_PLACEHOLDER @ [LF]"

text \<open>A client's request as the proxy holds it (\<open>Request\<close>), a TTL in seconds.\<close>

datatype proxy_request =
    ReqGet bytes bytes
  | ReqSet bytes bytes bytes "nat option"
  | ReqDelete bytes bytes
  | ReqIncr bytes bytes int
  | ReqCasSet bytes bytes cas_condition bytes "nat option"
  | ReqCasDelete bytes bytes bytes
  | ReqTouch bytes bytes "nat option" bool
  | ReqClear bytes
  | ReqClearAll
  | ReqMultiGet bytes "bytes list"
  | ReqMultiSet bytes "bytes list" "bytes list" "nat option"
  | ReqMultiTouch bytes "bytes list" "nat option" bool

text \<open>\<^verbatim>\<open>str::replace\<close> of a non-empty pattern: the occurrences from the left, without overlap.\<close>

function str_replace :: "bytes \<Rightarrow> bytes \<Rightarrow> bytes \<Rightarrow> bytes" where
  "str_replace pat new s =
     (if s = [] then []
      else if pat \<noteq> [] \<and> take (length pat) s = pat then new @ str_replace pat new (drop (length pat) s)
      else hd s # str_replace pat new (tl s))"
  by auto

termination
  by (relation "measure (\<lambda>(_, _, s). length s)") auto

definition substitute_tag :: "bytes \<Rightarrow> nat \<Rightarrow> (bytes \<times> bytes) option" where
  "substitute_tag frame tag = do {
     header_end \<leftarrow> position (\<lambda>byte. byte = LF) frame;
     header \<leftarrow> (if valid_utf8 (take header_end frame) then Some (take header_end frame) else None);
     let header = str_replace TAG_PLACEHOLDER (to_dec tag) header;
     Some (header @ [LF], drop (header_end + 1) frame)
   }"

declare str_replace.simps [simp del]

end
