(* ===== verification/Wire_Roundtrip.thy ===== *)
theory Wire_Roundtrip
  imports Wire_Messages
begin

text \<open>
  What a peer writes is what the node reads: every frame of \<open>Wire_Messages\<close>, with anything after it
  in the buffer, parses to the command it stands for and leaves exactly what follows it.
\<close>

section \<open>Node to node\<close>

definition wire_ttl :: "duration \<Rightarrow> duration" where
  "wire_ttl ttl = ttl_wire_seconds ttl * NANOS_PER_SEC"

fun forwarded_command :: "forwarded_write \<Rightarrow> command" where
  "forwarded_command (FwdSet k v ttl) = SetKey k v (map_option wire_ttl ttl)"
| "forwarded_command (FwdDelete k) = Delete k"
| "forwarded_command (FwdHandoffSet k v ttl if_absent token) =
     HandoffSet k v (map_option wire_ttl ttl) if_absent token False"
| "forwarded_command (FwdHandoffDelete k token) = HandoffDelete k token"
| "forwarded_command (FwdClear (ScopeNamespace ns) token) = HandoffClear False ns token"
| "forwarded_command (FwdClear ScopeAll token) = HandoffClear True [] token"

definition good_token :: "bytes \<Rightarrow> bool" where
  "good_token t \<longleftrightarrow> t \<noteq> [] \<and> valid_utf8 t"

definition good_ttl :: "duration option \<Rightarrow> bool" where
  "good_ttl ttl \<longleftrightarrow> (case ttl of None \<Rightarrow> True | Some t \<Rightarrow> ttl_wire_seconds t \<le> U64_MAX)"

fun good_write :: "forwarded_write \<Rightarrow> bool" where
  "good_write (FwdSet k v ttl) = (key_name k \<noteq> [] \<and> good_ttl ttl)"
| "good_write (FwdDelete k) = (key_name k \<noteq> [])"
| "good_write (FwdHandoffSet k v ttl if_absent token) = (key_name k \<noteq> [] \<and> good_ttl ttl \<and> good_token token)"
| "good_write (FwdHandoffDelete k token) = (key_name k \<noteq> [] \<and> good_token token)"
| "good_write (FwdClear scope token) = good_token token"

lemma header_field_literal [simp]:
  "header_field ''A''" "header_field ''G''" "header_field ''P''"
  "header_field ''S''" "header_field ''s''" "header_field ''D''" "header_field ''d''" "header_field ''U''"
  "header_field ''u''" "header_field ''f''" "header_field ''g''" "header_field ''m''" "header_field ''o''"
  "header_field ''y''" "header_field ''t''" "header_field ''i''" "header_field ''k''" "header_field ''x''"
  "header_field ''c''" "header_field ''F''" "header_field ''M''" "header_field ''X''" "header_field ''0''"
  by (simp_all add: header_field_def)

lemma nondigits_not_dec: "\<not> list_all is_ascii_digit s \<Longrightarrow> to_dec n \<noteq> s"
  using to_dec_digits by auto

lemma to_dec_not_literal [simp]: "to_dec n \<noteq> ''A''" "to_dec n \<noteq> ''G''"
  by (rule nondigits_not_dec, simp add: is_ascii_digit_def byte_in_def)+

lemma parse_length_zero [simp]: "parse_length ''0'' = Inr 0"
  by (simp add: parse_length_eq is_ascii_digit_def byte_in_def digit_value_def U64_MAX_def)

lemma key_eta [simp]: "new_key (key_namespace k) (key_name k) = k"
  by (cases k) (simp add: new_key_def)

lemma frame_key_eq:
  assumes "frame = h @ key_namespace k @ key_name k @ rest" and "a = length h"
    and "b = length h + length (key_namespace k)" and "c = b + length (key_name k)"
  shows "frame_key a b c frame = k"
  using assms by (simp add: frame_key_def slice_append_skip)

definition opt_field :: "bytes option \<Rightarrow> bytes list" where
  "opt_field f = (case f of None \<Rightarrow> [] | Some f \<Rightarrow> [f])"

text \<open>The fields of the header and the body, per message.\<close>

lemma set_message_frame:
  "set_message k v ttl = wire_frame
     ((if is_namespaced k then ''s'' else ''S'') #
       (if is_namespaced k then [to_dec (length (key_namespace k))] else [])
       @ [to_dec (length (key_name k)), to_dec (length v)]
       @ opt_field (map_option (\<lambda>t. to_dec (ttl_wire_seconds t)) ttl))
     (key_namespace k @ key_name k @ v)"
  by (cases ttl) (auto simp: set_message_def wire_frame_def opt_ttl_field_def opt_field_def Let_def)

lemma delete_message_frame:
  "delete_message k = wire_frame
     ((if is_namespaced k then ''d'' else ''D'') #
       (if is_namespaced k then [to_dec (length (key_namespace k))] else [])
       @ [to_dec (length (key_name k))])
     (key_namespace k @ key_name k)"
  by (auto simp: delete_message_def wire_frame_def)

lemma handoff_message_frame:
  "handoff_message k v ttl if_absent token = wire_frame
     (''U'' # [to_dec (length (key_namespace k)), to_dec (length (key_name k)), to_dec (length v),
       to_dec (length token)] @ opt_field (map_option (\<lambda>t. to_dec (ttl_wire_seconds t)) ttl)
       @ (if if_absent then [''A''] else []))
     (token @ key_namespace k @ key_name k @ v)"
  by (cases ttl) (auto simp: handoff_message_def wire_frame_def opt_ttl_field_def opt_field_def Let_def)

lemma handoff_delete_message_frame:
  "handoff_delete_message k token = wire_frame
     [''u'', to_dec (length (key_namespace k)), to_dec (length (key_name k)), to_dec (length token)]
     (token @ key_namespace k @ key_name k)"
  by (simp add: handoff_delete_message_def wire_frame_def)

lemma clear_handoff_message_frame:
  "clear_handoff_message (ScopeNamespace ns) token =
     wire_frame [''f'', to_dec (length ns), to_dec (length token)] (token @ ns)"
  "clear_handoff_message ScopeAll token = wire_frame [''f'', ''0'', to_dec (length token), ''A''] token"
  by (simp_all add: clear_handoff_message_def wire_frame_def)

text \<open>A frame that fits in memory has lengths a \<open>usize\<close> holds.\<close>

lemma wire_frame_length: "length (wire_frame fs body) = Suc (length (join_fields fs)) + length body"
  by (simp add: wire_frame_def)

lemmas arm_simps = wire_frame_length field_ends_eqs Let_def parse_simple_def

lemma slice_Cons [simp]: "slice (Suc a) (Suc b) (x # xs) = slice a b xs"
  by (simp add: slice_def)

lemma slice_empty [simp]: "slice a a bs = []"
  by (simp add: slice_def)

text \<open>The parser reads \<open>bs\<close> at the front of any buffer as \<open>r\<close> and leaves what follows.\<close>

definition parses_to :: "bool \<Rightarrow> bool \<Rightarrow> bytes \<Rightarrow> command \<times> nat option \<Rightarrow> bool" where
  "parses_to tagged charged bs r \<longleftrightarrow>
     (\<forall>rest. \<exists>p. parse_with_mode (bs @ rest) tagged progress_default charged = (Inr r, rest, p))"

lemma parses_toI:
  assumes frame: "bs = wire_frame (command # parts) body" and fits: "length bs \<le> U64_MAX"
    and fs: "list_all header_field (command # parts)" and cmd: "command \<notin> {''m'', ''y'', ''o'', ''M''}"
    and plan: "\<And>h. Suc (length h + length body) \<le> U64_MAX \<Longrightarrow>
         (case parse_simple command tagged (length h) parts of
            Inl e \<Rightarrow> False
          | Inr (stop, build) \<Rightarrow> stop = Suc (length h + length body) \<and> build (h @ LF # body) = Inr r)"
  shows "parses_to tagged charged bs r"
proof -
  have len: "length bs = Suc (length (join_fields (command # parts)) + length body)"
    by (simp add: frame wire_frame_length)
  obtain build where "parse_simple command tagged (length (join_fields (command # parts))) parts
      = Inr (length bs, build)" and "build bs = Inr r"
    using plan [of "join_fields (command # parts)"] fits len frame by (auto simp: wire_frame_def split: sum.splits)
  with fs cmd frame show ?thesis
    using parse_wire_simple [of command parts tagged "length bs" build body] by (auto simp: parses_to_def)
qed

text \<open>Cutting the key, the token and the value out of a body.\<close>

lemma slice_parts [simp]:
  "slice (length h + x) (length h + y) (h @ b) = slice x y b"
  "slice (length h) (length h + y) (h @ b) = slice 0 y b"
  "slice 0 (length h) (h @ b) = h"
  by (simp_all add: slice_def)

lemma frame_key_body [simp]:
  "frame_key (Suc (length h)) (Suc (length h + length (key_namespace k)))
     (Suc (length h + length (key_namespace k) + length (key_name k)))
     (h @ LF # key_namespace k @ key_name k @ b) = k"
  "frame_key (Suc (length h)) (Suc (length h + length (key_namespace k)))
     (Suc (length h + length (key_namespace k) + length (key_name k)))
     (h @ LF # key_namespace k @ key_name k) = k"
  "frame_key (Suc (length h + length t)) (Suc (length h + length t + length (key_namespace k)))
     (Suc (length h + length t + length (key_namespace k) + length (key_name k)))
     (h @ LF # t @ key_namespace k @ key_name k @ b) = k"
  "frame_key (Suc (length h + length t)) (Suc (length h + length t + length (key_namespace k)))
     (Suc (length h + length t + length (key_namespace k) + length (key_name k)))
     (h @ LF # t @ key_namespace k @ key_name k) = k"
  by (simp_all add: frame_key_def slice_append_skip)

lemma frame_key_plain [simp]:
  "key_namespace k = [] \<Longrightarrow>
     frame_key (Suc (length h)) (Suc (length h)) (Suc (length h + length (key_name k))) (h @ LF # key_name k @ b) = k"
  "key_namespace k = [] \<Longrightarrow>
     frame_key (Suc (length h)) (Suc (length h)) (Suc (length h + length (key_name k))) (h @ LF # key_name k) = k"
  using frame_key_body(1,2) [of h k] by simp_all

lemma slice_after_key [simp]:
  "slice (Suc (length h + length n + length m)) (Suc (length h + length n + length m + length v))
     (h @ LF # n @ m @ v) = v"
  "slice (Suc (length h + length t + length n + length m)) (Suc (length h + length t + length n + length m + length v))
     (h @ LF # t @ n @ m @ v) = v"
  "slice (Suc (length h + length t)) (Suc (length h + length t + length n)) (h @ LF # t @ n) = n"
  by (simp_all add: slice_append_skip)

lemma decode_body [simp]:
  "valid_utf8 t \<Longrightarrow> decode_field (h @ LF # t @ b) (Suc (length h)) (length t) = Inr t"
  "valid_utf8 t \<Longrightarrow> decode_field (h @ LF # t) (Suc (length h)) (length t) = Inr t"
  "valid_utf8 n \<Longrightarrow> decode_field (h @ LF # t @ n) (Suc (length h + length t)) (length n) = Inr n"
  by (simp_all add: decode_field_def slice_append_skip)

lemma parse_set_message:
  assumes "key_name k \<noteq> []" and "good_ttl ttl" and "length (set_message k v ttl) \<le> U64_MAX"
  shows "parses_to False charged (set_message k v ttl) (SetKey k v (map_option wire_ttl ttl), None)"
  using assms
  by (cases ttl; cases "is_namespaced k"; intro parses_toI [OF set_message_frame])
    (auto simp: arm_simps parse_set_def parse_ttl_and_tag_def opt_field_def good_ttl_def wire_ttl_def
      is_namespaced_def)

lemma parse_delete_message:
  assumes "key_name k \<noteq> []" and "length (delete_message k) \<le> U64_MAX"
  shows "parses_to False charged (delete_message k) (Delete k, None)"
  using assms
  by (cases "is_namespaced k"; intro parses_toI [OF delete_message_frame])
    (auto simp: arm_simps parse_get_delete_def is_namespaced_def)

lemma collect_trailing_eq:
  "length trailing \<le> n \<Longrightarrow> collect_trailing n trailing parts =
     (if length trailing + length parts \<le> n then Inr (trailing @ parts) else Inl InvalidLength)"
  by (induction parts arbitrary: trailing) (auto simp: Let_def)

lemma parse_handoff_message:
  assumes "key_name k \<noteq> []" and "good_ttl ttl" and "good_token token"
    and "length (handoff_message k v ttl if_absent token) \<le> U64_MAX"
  shows "parses_to False charged (handoff_message k v ttl if_absent token)
    (HandoffSet k v (map_option wire_ttl ttl) if_absent token False, None)"
  using assms
  by (cases ttl; cases if_absent; intro parses_toI [OF handoff_message_frame])
    (auto simp: arm_simps parse_handoff_set_def collect_trailing_eq pop_tag_def pop_literal_def opt_field_def
      good_ttl_def wire_ttl_def good_token_def)

lemma parse_handoff_delete_message:
  assumes "key_name k \<noteq> []" and "good_token token" and "length (handoff_delete_message k token) \<le> U64_MAX"
  shows "parses_to False charged (handoff_delete_message k token) (HandoffDelete k token, None)"
  using assms
  by (intro parses_toI [OF handoff_delete_message_frame])
    (auto simp: arm_simps parse_handoff_delete_def good_token_def)

lemma parse_clear_handoff_message:
  assumes "good_token token" and "length (clear_handoff_message scope token) \<le> U64_MAX"
  shows "parses_to False charged (clear_handoff_message scope token) (forwarded_command (FwdClear scope token), None)"
  using assms
  by (cases scope; simp only:; intro parses_toI [OF clear_handoff_message_frame(1)] parses_toI [OF clear_handoff_message_frame(2)])
    (auto simp: arm_simps parse_handoff_clear_def collect_trailing_eq pop_tag_def pop_literal_def good_token_def)

lemma parse_cancel_message:
  assumes "good_token token" and "good_token joining_name" and "length (cancel_message token joining_name) \<le> U64_MAX"
  shows "parses_to tagged charged (cancel_message token joining_name) (CancelMigration token joining_name, None)"
  using assms
  by (intro parses_toI [where command = "''X''" and parts = "[to_dec (length joining_name), to_dec (length token)]"
        and body = "token @ joining_name"])
    (auto simp: cancel_message_def wire_frame_def arm_simps parse_cancel_migration_def good_token_def)

section \<open>Proxy to node\<close>

text \<open>What the proxy's connection writes for a frame: the header with its tag, and the body.\<close>

definition tagged_frame :: "bytes \<Rightarrow> nat \<Rightarrow> bytes option" where
  "tagged_frame frame tag = map_option (\<lambda>(header, body). header @ body) (substitute_tag frame tag)"

definition plain_field :: "bytes \<Rightarrow> bool" where
  "plain_field f \<longleftrightarrow> header_field f \<and> list_all (byte_in 0 127) f \<and> CHR ''{'' \<notin> set f"

lemma plain_to_dec [simp]: "plain_field (to_dec n)"
proof -
  have "CHR ''{'' \<notin> set (to_dec n)"
    using to_dec_digits [of n] by (auto simp: list_all_iff is_ascii_digit_def byte_in_def)
  then show ?thesis by (simp add: plain_field_def)
qed

lemma plain_int [simp]: "plain_field (int_to_dec i)"
  using plain_to_dec by (auto simp: int_to_dec_def plain_field_def header_field_def byte_in_def)

lemma plain_literal [simp]:
  "plain_field ''A''" "plain_field ''G''" "plain_field ''P''" "plain_field ''S''" "plain_field ''s''"
  "plain_field ''D''" "plain_field ''d''" "plain_field ''g''" "plain_field ''m''" "plain_field ''o''"
  "plain_field ''y''" "plain_field ''t''" "plain_field ''i''" "plain_field ''k''" "plain_field ''x''"
  "plain_field ''c''" "plain_field ''F''"
  by (simp_all add: plain_field_def byte_in_def)

lemma str_replace_none: "CHR ''{'' \<notin> set s \<Longrightarrow> str_replace TAG_PLACEHOLDER new (s @ TAG_PLACEHOLDER) = s @ new"
proof (induction s)
  case Nil
  then show ?case by (subst (1) str_replace.simps) (simp add: str_replace.simps [of _ _ "[]"] TAG_PLACEHOLDER_def)
next
  case (Cons c s)
  have "str_replace TAG_PLACEHOLDER new ((c # s) @ TAG_PLACEHOLDER) = c # str_replace TAG_PLACEHOLDER new (s @ TAG_PLACEHOLDER)"
    using Cons.prems by (subst str_replace.simps) (auto simp: TAG_PLACEHOLDER_def)
  with Cons show ?case by simp
qed

lemma join_fields_snoc: "fs \<noteq> [] \<Longrightarrow> join_fields (fs @ [f]) = join_fields fs @ SP # f"
  by (induction fs rule: join_fields.induct) auto

lemma valid_utf8_ascii_append: "list_all (byte_in 0 127) a \<Longrightarrow> valid_utf8 b \<Longrightarrow> valid_utf8 (a @ b)"
  by (simp add: valid_utf8_append_ascii)

lemma plain_join: "list_all plain_field fs \<Longrightarrow> list_all (byte_in 0 127) (join_fields fs) \<and> CHR ''{'' \<notin> set (join_fields fs)"
  by (induction fs rule: join_fields.induct) (auto simp: plain_field_def byte_in_def)

lemma tagged_frame_eq:
  assumes "fs \<noteq> []" and "list_all plain_field fs" and "frame = wire_frame (fs @ [TAG_PLACEHOLDER]) body"
  shows "tagged_frame frame tag = Some (wire_frame (fs @ [to_dec tag]) body)"
proof -
  let ?pre = "join_fields fs @ [SP]"
  have frame: "frame = (?pre @ TAG_PLACEHOLDER) @ LF # body"
    using assms(1,3) by (simp add: wire_frame_def join_fields_snoc)
  have plain: "list_all (byte_in 0 127) ?pre" "CHR ''{'' \<notin> set ?pre"
    using plain_join [OF assms(2)] by (auto simp: byte_in_def)
  have lf: "LF \<notin> set (?pre @ TAG_PLACEHOLDER)"
    using set_join_fields [of fs] assms(2)
    by (auto simp: TAG_PLACEHOLDER_def list_all_iff plain_field_def header_field_def)
  have "valid_utf8 (?pre @ TAG_PLACEHOLDER)"
    by (rule valid_utf8_ascii) (use plain in \<open>auto simp: TAG_PLACEHOLDER_def byte_in_def\<close>)
  moreover have "position (\<lambda>byte. byte = LF) frame = Some (length (?pre @ TAG_PLACEHOLDER))"
    using find_lf_line [OF lf] by (simp only: frame find_lf_def)
  moreover have "str_replace TAG_PLACEHOLDER (to_dec tag) (?pre @ TAG_PLACEHOLDER) = ?pre @ to_dec tag"
    using plain(2) by (rule str_replace_none)
  ultimately have "substitute_tag frame tag = Some ((?pre @ to_dec tag) @ [LF], body)"
    by (simp add: substitute_tag_def frame del: append_assoc)
  then show ?thesis
    using assms(1) by (simp add: tagged_frame_def wire_frame_def join_fields_snoc)
qed

text \<open>The frame of a request and the command it stands for.\<close>

fun request_frame :: "proxy_request \<Rightarrow> bytes" where
  "request_frame (ReqGet ns k) = frame_get ns k"
| "request_frame (ReqSet ns k v ttl) = frame_set ns k v ttl"
| "request_frame (ReqDelete ns k) = frame_delete ns k"
| "request_frame (ReqIncr ns k delta) = frame_incr ns k delta"
| "request_frame (ReqCasSet ns k cond v ttl) = frame_cas_set ns k cond v ttl"
| "request_frame (ReqCasDelete ns k digest) = frame_cas_delete ns k digest"
| "request_frame (ReqTouch ns k ttl get) = frame_touch ns k ttl get"
| "request_frame (ReqClear ns) = frame_clear ns"
| "request_frame ReqClearAll = frame_clear_all"
| "request_frame (ReqMultiGet ns keys) = frame_multi_get ns keys"
| "request_frame (ReqMultiSet ns keys values ttl) = frame_multi_set ns keys values ttl"
| "request_frame (ReqMultiTouch ns keys ttl get) = frame_multi_touch ns keys ttl get"

abbreviation seconds :: "nat option \<Rightarrow> duration option" where
  "seconds ttl \<equiv> map_option (\<lambda>s. s * NANOS_PER_SEC) ttl"

fun request_command :: "proxy_request \<Rightarrow> command" where
  "request_command (ReqGet ns k) = Get (new_key ns k)"
| "request_command (ReqSet ns k v ttl) = SetKey (new_key ns k) v (seconds ttl)"
| "request_command (ReqDelete ns k) = Delete (new_key ns k)"
| "request_command (ReqIncr ns k delta) = Incr (new_key ns k) delta"
| "request_command (ReqCasSet ns k cond v ttl) = CasSet (new_key ns k) cond v (seconds ttl)"
| "request_command (ReqCasDelete ns k digest) = CasDelete (new_key ns k) digest"
| "request_command (ReqTouch ns k ttl get) = Touch (new_key ns k) (seconds ttl) get"
| "request_command (ReqClear ns) = Clear ns"
| "request_command ReqClearAll = ClearAll"
| "request_command (ReqMultiGet ns keys) = MultiGet ns keys"
| "request_command (ReqMultiSet ns keys values ttl) = MultiSet ns keys values (seconds ttl)"
| "request_command (ReqMultiTouch ns keys ttl get) = MultiTouch ns keys (seconds ttl) get"

definition good_seconds :: "nat option \<Rightarrow> bool" where
  "good_seconds ttl \<longleftrightarrow> (case ttl of None \<Rightarrow> True | Some s \<Rightarrow> s \<le> U64_MAX)"

definition good_keys :: "bytes list \<Rightarrow> bool" where
  "good_keys keys \<longleftrightarrow> keys \<noteq> [] \<and> [] \<notin> set keys"

definition good_condition :: "cas_condition \<Rightarrow> bool" where
  "good_condition c \<longleftrightarrow> (case c of CondDigest d \<Rightarrow> length d = 16 | _ \<Rightarrow> True)"

fun good_request :: "proxy_request \<Rightarrow> bool" where
  "good_request (ReqGet ns k) = (k \<noteq> [])"
| "good_request (ReqSet ns k v ttl) = (k \<noteq> [] \<and> good_seconds ttl)"
| "good_request (ReqDelete ns k) = (k \<noteq> [])"
| "good_request (ReqIncr ns k delta) = (k \<noteq> [] \<and> I64_MIN \<le> delta \<and> delta \<le> I64_MAX)"
| "good_request (ReqCasSet ns k cond v ttl) = (k \<noteq> [] \<and> good_condition cond \<and> good_seconds ttl)"
| "good_request (ReqCasDelete ns k digest) = (k \<noteq> [] \<and> length digest = 16)"
| "good_request (ReqTouch ns k ttl get) = (k \<noteq> [] \<and> good_seconds ttl)"
| "good_request (ReqClear ns) = True"
| "good_request ReqClearAll = True"
| "good_request (ReqMultiGet ns keys) = good_keys keys"
| "good_request (ReqMultiSet ns keys values ttl) =
     (good_keys keys \<and> length values = length keys \<and> good_seconds ttl)"
| "good_request (ReqMultiTouch ns keys ttl get) = (good_keys keys \<and> good_seconds ttl)"

text \<open>The header fields of each frame but for the tag, and the body.\<close>

fun request_fields :: "proxy_request \<Rightarrow> bytes list" where
  "request_fields (ReqGet ns k) =
     (if ns = [] then ''G'' else ''g'') # (if ns = [] then [] else [to_dec (length ns)]) @ [to_dec (length k)]"
| "request_fields (ReqSet ns k v ttl) =
     (if ns = [] then ''S'' else ''s'') # (if ns = [] then [] else [to_dec (length ns)])
       @ [to_dec (length k), to_dec (length v)] @ opt_field (map_option to_dec ttl)"
| "request_fields (ReqDelete ns k) =
     (if ns = [] then ''D'' else ''d'') # (if ns = [] then [] else [to_dec (length ns)]) @ [to_dec (length k)]"
| "request_fields (ReqIncr ns k delta) = [''i'', to_dec (length ns), to_dec (length k), int_to_dec delta]"
| "request_fields (ReqCasSet ns k cond v ttl) =
     ''k'' # [to_dec (length ns), to_dec (length k), to_dec (length v), cas_condition_field cond]
       @ opt_field (map_option to_dec ttl)"
| "request_fields (ReqCasDelete ns k digest) =
     [''x'', to_dec (length ns), to_dec (length k), cas_condition_field (CondDigest digest)]"
| "request_fields (ReqTouch ns k ttl get) =
     ''t'' # [to_dec (length ns), to_dec (length k)] @ opt_field (map_option to_dec ttl)
       @ (if get then [''G''] else [])"
| "request_fields (ReqClear ns) = [''c'', to_dec (length ns)]"
| "request_fields ReqClearAll = [''F'']"
| "request_fields (ReqMultiGet ns keys) =
     ''m'' # [to_dec (length ns), to_dec (length keys)] @ map (\<lambda>k. to_dec (length k)) keys"
| "request_fields (ReqMultiSet ns keys values ttl) =
     ''o'' # [to_dec (length ns), to_dec (length keys)]
       @ concat (map (\<lambda>(k, v). [to_dec (length k), to_dec (length v)]) (zip keys values))
       @ opt_field (map_option to_dec ttl)"
| "request_fields (ReqMultiTouch ns keys ttl get) =
     ''y'' # [to_dec (length ns), to_dec (length keys)] @ map (\<lambda>k. to_dec (length k)) keys
       @ opt_field (map_option to_dec ttl) @ (if get then [''G''] else [])"

fun request_body :: "proxy_request \<Rightarrow> bytes" where
  "request_body (ReqGet ns k) = ns @ k"
| "request_body (ReqSet ns k v ttl) = ns @ k @ v"
| "request_body (ReqDelete ns k) = ns @ k"
| "request_body (ReqIncr ns k delta) = ns @ k"
| "request_body (ReqCasSet ns k cond v ttl) = ns @ k @ v"
| "request_body (ReqCasDelete ns k digest) = ns @ k"
| "request_body (ReqTouch ns k ttl get) = ns @ k"
| "request_body (ReqClear ns) = ns"
| "request_body ReqClearAll = []"
| "request_body (ReqMultiGet ns keys) = ns @ concat keys"
| "request_body (ReqMultiSet ns keys values ttl) = ns @ concat (map (\<lambda>(k, v). k @ v) (zip keys values))"
| "request_body (ReqMultiTouch ns keys ttl get) = ns @ concat keys"

lemma join_fields_Cons: "fs \<noteq> [] \<Longrightarrow> join_fields (f # fs) = f @ SP # join_fields fs"
  by (cases fs) auto

lemma join_append_fields:
  "fs \<noteq> [] \<Longrightarrow> join_fields (map f xs @ fs) = concat (map (\<lambda>x. f x @ [SP]) xs) @ join_fields fs"
  by (induction xs) (auto simp: join_fields_Cons)

lemma shift_space: "s # concat (map (\<lambda>x. f x @ [s]) xs) @ b = concat (map (\<lambda>x. s # f x) xs) @ s # b"
  by (induction xs) auto

lemma join_pair_fields:
  "fs \<noteq> [] \<Longrightarrow> SP # join_fields (concat (map (\<lambda>(k, v). [f k, f v]) ps) @ fs)
     = concat (map (\<lambda>(k, v). SP # f k @ SP # f v) ps) @ SP # join_fields fs"
  by (induction ps) (auto simp: join_fields_Cons)

lemma request_frame_wire: "request_frame r = wire_frame (request_fields r @ [TAG_PLACEHOLDER]) (request_body r)"
  by (cases r)
    (auto simp: wire_frame_def frame_get_def frame_set_def frame_delete_def frame_incr_def frame_cas_set_def
      frame_cas_delete_def frame_touch_def frame_clear_def frame_clear_all_def seconds_field_def get_field_def
      opt_field_def frame_multi_get_def frame_multi_set_def frame_multi_touch_def key_length_fields_def
      join_append_fields shift_space join_fields_Cons join_pair_fields Let_def split: option.splits)

text \<open>Digests in hexadecimal.\<close>

lemma hex_nibble_digit [simp]: "n < 16 \<Longrightarrow> hex_nibble (hex_digit n) = Inr n"
  by (auto simp: hex_nibble_def hex_digit_def byte_in_def)

lemma nibbles_or: "(l::nat) < 16 \<Longrightarrow> push_bit 4 h OR l = 16 * h + l"
proof -
  assume "l < 16"
  then have l: "take_bit 4 l = l" by (simp add: take_bit_nat_eq_self_iff)
  have "\<not> bit (push_bit 4 h) n \<or> \<not> bit l n" for n
    by (subst l [symmetric]) (auto simp: bit_push_bit_iff bit_take_bit_iff)
  then have "push_bit 4 h + l = push_bit 4 h OR l"
    by (rule disjunctive_add)
  then show ?thesis by (simp add: push_bit_eq_mult mult.commute)
qed

lemma high_nibble [simp]: "(of_char c :: nat) div 16 < 16"
  using nat_of_char_less_256 [of c] by (simp add: less_mult_imp_div_less)

lemma parse_hex_digest: "parse_hex (concat (map hex_byte ds)) = Inr ds"
  by (induction ds) (simp_all add: hex_byte_def nibbles_or)

lemma length_hex: "length (concat (map hex_byte ds)) = 2 * length ds"
  by (induction ds) (auto simp: hex_byte_def)

lemma hex_not_literal: "length ds = 16 \<Longrightarrow> concat (map hex_byte ds) \<noteq> [c]"
  using length_hex [of ds] by auto

lemma parse_condition_field:
  assumes "good_condition c"
  shows "parse_cas_condition (cas_condition_field c) True = Inr c"
    and "c = CondDigest d \<Longrightarrow> parse_cas_condition (cas_condition_field c) False = Inr c"
  using assms hex_not_literal
  by (auto simp: parse_cas_condition_def cas_condition_field_def good_condition_def parse_hex_digest length_hex
      split: cas_condition.splits)

lemma plain_hex_digit:
  assumes "n < 16"
  shows "hex_digit n \<noteq> SP" "hex_digit n \<noteq> LF" "hex_digit n \<noteq> CHR ''{''" "byte_in 0 127 (hex_digit n)"
proof -
  have of: "(of_char (hex_digit n) :: nat) = (if n < 10 then 48 + n else 87 + n)"
    using assms by (auto simp: hex_digit_def)
  have "hex_digit n \<noteq> c" if "(of_char c :: nat) \<in> {32, 10, 123}" for c
  proof
    assume "hex_digit n = c"
    with that of have "(if n < 10 then 48 + n else 87 + n) \<in> {32, 10, 123}" by simp
    then show False using assms by (auto split: if_splits)
  qed
  then show "hex_digit n \<noteq> SP" "hex_digit n \<noteq> LF" "hex_digit n \<noteq> CHR ''{''" by simp_all
  show "byte_in 0 127 (hex_digit n)"
    using of assms by (simp add: byte_in_def)
qed

lemma plain_condition [simp]: "plain_field (cas_condition_field c)"
  by (cases c; simp add: cas_condition_field_def)
    (auto simp: plain_field_def header_field_def list_all_iff hex_byte_def plain_hex_digit dest: sym)

lemma plain_opt_field [simp]: "f \<in> set (opt_field (map_option to_dec ttl)) \<Longrightarrow> plain_field f"
  by (cases ttl) (auto simp: opt_field_def)

lemma plain_request_fields: "list_all plain_field (request_fields r)"
  by (cases r) (auto simp: list_all_iff plain_to_dec)

lemma plain_header: "plain_field f \<Longrightarrow> header_field f"
  by (simp add: plain_field_def)

lemma tagged_request_frame:
  "tagged_frame (request_frame r) tag = Some (wire_frame (request_fields r @ [to_dec tag]) (request_body r))"
  by (rule tagged_frame_eq [OF _ plain_request_fields request_frame_wire]) (cases r; simp)

text \<open>The single-key frames.\<close>

lemma parse_decimal_int_to_dec:
  assumes "I64_MIN \<le> i" and "i \<le> I64_MAX"
  shows "parse_decimal_i64 (int_to_dec i) = Some i"
proof -
  define n where "n = nat \<bar>i\<bar>"
  have n: "n \<le> U64_MAX"
    using assms by (auto simp: n_def I64_MIN_def I64_MAX_def U64_MAX_def)
  have digits: "to_dec n \<noteq> []" "list_all is_ascii_digit (to_dec n)" "list_all (byte_in 0 127) (to_dec n)"
    by simp_all
  obtain d ds where dec: "to_dec n = d # ds" by (cases "to_dec n") auto
  have sign: "d \<noteq> CHR ''-''"
    using digits(2) digit_not_sign(2) by (simp add: dec)
  have lead: "\<not> (1 < length (to_dec n) \<and> hd (to_dec n) = CHR ''0'')"
    using to_dec_no_leading_zero by blast
  show ?thesis
  proof (cases "i < 0")
    case True
    then have "int_to_dec i = CHR ''-'' # to_dec n"
      by (simp add: int_to_dec_def n_def)
    moreover have "valid_utf8 (CHR ''-'' # to_dec n)"
      by (rule valid_utf8_ascii) (simp add: byte_in_def)
    ultimately show ?thesis
      using True assms n lead
      by (auto simp: parse_decimal_i64_def Let_def i64_try_from_def n_def I64_MIN_def I64_MAX_def)
  next
    case False
    then have "int_to_dec i = to_dec n"
      by (simp add: int_to_dec_def n_def)
    moreover have "valid_utf8 (to_dec n)"
      by (rule valid_utf8_ascii) simp
    moreover have "(case to_dec n of [] \<Rightarrow> (False, to_dec n) | c # rest \<Rightarrow> if c = CHR ''-'' then (True, rest)
        else (False, to_dec n)) = (False, to_dec n)"
      using sign by (simp add: dec)
    moreover have "int n = i" using False by (simp add: n_def)
    ultimately show ?thesis
      using assms n lead by (auto simp: parse_decimal_i64_def i64_try_from_def)
  qed
qed

lemma frame_key_new [simp]:
  "frame_key (Suc (length h)) (Suc (length h + length ns)) (Suc (length h + length ns + length k))
     (h @ LF # ns @ k @ b) = new_key ns k"
  "frame_key (Suc (length h)) (Suc (length h + length ns)) (Suc (length h + length ns + length k))
     (h @ LF # ns @ k) = new_key ns k"
  "frame_key (Suc (length h)) (Suc (length h)) (Suc (length h + length k)) (h @ LF # k @ b) = new_key [] k"
  "frame_key (Suc (length h)) (Suc (length h)) (Suc (length h + length k)) (h @ LF # k) = new_key [] k"
  by (simp_all add: frame_key_def slice_append_skip)

fun single_key :: "proxy_request \<Rightarrow> bool" where
  "single_key (ReqMultiGet _ _) = False"
| "single_key (ReqMultiSet _ _ _ _) = False"
| "single_key (ReqMultiTouch _ _ _ _) = False"
| "single_key _ = True"

lemma header_request_fields: "list_all header_field (request_fields r @ [to_dec tag])"
  using plain_request_fields [of r] plain_header by (auto simp: list_all_iff)

lemma slice_body [simp]:
  "slice (Suc (length h)) (Suc (length h + length n)) (h @ LF # n) = n"
  "slice (Suc (length h)) (Suc (length h + length n)) (h @ LF # n @ b) = n"
  "slice (Suc (length h + length k)) (Suc (length h + length k + length v)) (h @ LF # k @ v) = v"
  by (simp_all add: slice_append_skip)

lemma parse_single_request:
  assumes good: "good_request r" and tag: "tag \<le> U32_MAX" and single: "single_key r"
    and fits: "length (wire_frame (request_fields r @ [to_dec tag]) (request_body r)) \<le> U64_MAX"
  shows "parses_to True charged (wire_frame (request_fields r @ [to_dec tag]) (request_body r))
    (request_command r, Some tag)"
proof -
  have fs: "request_fields r @ [to_dec tag] = hd (request_fields r) # (tl (request_fields r) @ [to_dec tag])"
    by (cases r) auto
  show ?thesis
  proof (rule parses_toI [OF arg_cong [OF fs] fits])
    show "list_all header_field (hd (request_fields r) # tl (request_fields r) @ [to_dec tag])"
      using header_request_fields [of r tag] by (simp only: fs)
    show "hd (request_fields r) \<notin> {''m'', ''y'', ''o'', ''M''}"
      using single by (cases r) auto
    fix h :: bytes
    assume "Suc (length h + length (request_body r)) \<le> U64_MAX"
    then show "case parse_simple (hd (request_fields r)) True (length h) (tl (request_fields r) @ [to_dec tag]) of
          Inl e \<Rightarrow> False
        | Inr (stop, build) \<Rightarrow> stop = Suc (length h + length (request_body r))
            \<and> build (h @ LF # request_body r) = Inr (request_command r, Some tag)"
      using good tag single parse_condition_field
      by (cases r)
        (auto simp: arm_simps parse_get_delete_def parse_set_def parse_incr_def parse_cas_set_def parse_cas_delete_def
          parse_touch_def parse_clear_def parse_clear_all_def parse_ttl_and_tag_def opt_field_def good_seconds_def
          parse_touch_tail_def parse_decimal_int_to_dec good_condition_def split: option.splits)
  qed
qed

section \<open>Multi-key frames\<close>

lemma read_key_lengths_eq:
  assumes "[] \<notin> set keys" and "\<And>k. k \<in> set keys \<Longrightarrow> length k \<le> U64_MAX"
  shows "read_key_lengths (length keys) (map (\<lambda>k. to_dec (length k)) keys @ tail) = Inr (map length keys, tail)"
  using assms by (induction keys) auto

lemma read_pair_lengths_eq:
  assumes "[] \<notin> fst ` set ps" and "\<And>p. p \<in> set ps \<Longrightarrow> length (fst p) \<le> U64_MAX \<and> length (snd p) \<le> U64_MAX"
  shows "read_pair_lengths (length ps)
      (concat (map (\<lambda>(k, v). [to_dec (length k), to_dec (length v)]) ps) @ tail)
    = Inr (map (\<lambda>(k, v). (length k, length v)) ps, tail)"
  using assms
proof (induction ps)
  case (Cons p ps)
  then show ?case
    by (cases p) (fastforce simp: image_iff)
qed simp

lemma key_spans_eq:
  assumes "start + length (concat keys) \<le> U64_MAX" and "length pre = start"
  shows "\<exists>spans. key_spans start (map length keys) = Inr (start + length (concat keys), spans)
    \<and> map (\<lambda>(a, b). slice a b (pre @ concat keys)) spans = keys"
  using assms
proof (induction keys arbitrary: start pre)
  case (Cons k keys)
  then obtain spans where
    "key_spans (start + length k) (map length keys) = Inr (start + length k + length (concat keys), spans)"
    "map (\<lambda>(a, b). slice a b ((pre @ k) @ concat keys)) spans = keys"
    using Cons.IH [of "start + length k" "pre @ k"] by auto
  moreover have "slice start (start + length k) (pre @ k @ concat keys) = k"
    using Cons.prems(2) by (simp add: slice_append_skip)
  ultimately show ?case
    using Cons.prems(1) by (auto simp: checked_add_def)
qed simp

lemma pair_spans_eq:
  assumes "start + length (concat (map (\<lambda>(k, v). k @ v) ps)) \<le> U64_MAX" and "length pre = start"
  shows "\<exists>spans. pair_spans start (map (\<lambda>(k, v). (length k, length v)) ps)
      = Inr (start + length (concat (map (\<lambda>(k, v). k @ v) ps)), spans)
    \<and> map (\<lambda>(a, b, c). slice a b (pre @ concat (map (\<lambda>(k, v). k @ v) ps))) spans = map fst ps
    \<and> map (\<lambda>(a, b, c). slice b c (pre @ concat (map (\<lambda>(k, v). k @ v) ps))) spans = map snd ps"
  using assms
proof (induction ps arbitrary: start pre)
  case (Cons p ps)
  obtain k v where p: "p = (k, v)" by (cases p)
  let ?rest = "concat (map (\<lambda>(k, v). k @ v) ps)"
  obtain spans where
    "pair_spans (start + length k + length v) (map (\<lambda>(k, v). (length k, length v)) ps)
      = Inr (start + length k + length v + length ?rest, spans)"
    "map (\<lambda>(a, b, c). slice a b ((pre @ k @ v) @ ?rest)) spans = map fst ps"
    "map (\<lambda>(a, b, c). slice b c ((pre @ k @ v) @ ?rest)) spans = map snd ps"
    using Cons.IH [of "start + length k + length v" "pre @ k @ v"] Cons.prems by (auto simp: p)
  moreover have "slice start (start + length k) (pre @ k @ v @ ?rest) = k"
    "slice (start + length k) (start + length k + length v) (pre @ k @ v @ ?rest) = v"
    using Cons.prems(2) by (simp_all add: slice_append_skip)
  ultimately show ?case
    using Cons.prems(1) by (auto simp: p field_ends_two add.assoc)
qed simp

text \<open>What the parser does with a charged multi-key frame.\<close>

lemma parse_wire_multi:
  assumes fs: "list_all header_field (command # parts)" and cmd: "command \<in> {''m'', ''y'', ''o''}"
    and plan: "(if command = ''m'' then parse_multi_get else if command = ''y'' then parse_multi_touch
        else parse_multi_set) tagged (length (join_fields (command # parts))) parts = Inr (n, stop, build)"
    and stop: "stop = length (wire_frame (command # parts) body)"
  shows "\<exists>p. parse_with_mode (wire_frame (command # parts) body @ rest) tagged progress_default True =
    (build (wire_frame (command # parts) body), rest, p)"
proof -
  have "take stop (wire_frame (command # parts) body @ rest) = wire_frame (command # parts) body"
    and "drop stop (wire_frame (command # parts) body @ rest) = rest"
    and "stop \<le> length (wire_frame (command # parts) body @ rest)"
    using stop by simp_all
  with cmd plan show ?thesis
    by (auto simp: parse_wire [OF fs] parse_command_def run_multi_plan_def multi_frame_gate_def run_plan_def
        take_frame_def Let_def split: if_splits)
qed

lemma parses_to_multiI:
  assumes frame: "bs = wire_frame (command # parts) body" and fits: "length bs \<le> U64_MAX"
    and fs: "list_all header_field (command # parts)" and cmd: "command \<in> {''m'', ''y'', ''o''}"
    and plan: "\<And>h. Suc (length h + length body) \<le> U64_MAX \<Longrightarrow>
         (case (if command = ''m'' then parse_multi_get else if command = ''y'' then parse_multi_touch
            else parse_multi_set) tagged (length h) parts of
            Inl e \<Rightarrow> False
          | Inr (n, stop, build) \<Rightarrow> stop = Suc (length h + length body) \<and> build (h @ LF # body) = Inr r)"
  shows "parses_to tagged True bs r"
proof -
  have len: "length bs = Suc (length (join_fields (command # parts)) + length body)"
    by (simp add: frame wire_frame_length)
  obtain n build where "(if command = ''m'' then parse_multi_get else if command = ''y'' then parse_multi_touch
        else parse_multi_set) tagged (length (join_fields (command # parts))) parts
      = Inr (n, length bs, build)" and "build bs = Inr r"
    using plan [of "join_fields (command # parts)"] fits len frame by (auto simp: wire_frame_def split: sum.splits)
  then show ?thesis
    using parse_wire_multi [OF fs cmd, of tagged n "length bs" build body] by (simp add: frame parses_to_def)
qed

lemma member_length_le: "k \<in> set keys \<Longrightarrow> length k \<le> length (concat keys)"
  by (induction keys) auto

lemma length_le_concat: "[] \<notin> set keys \<Longrightarrow> length keys \<le> length (concat keys)"
proof (induction keys)
  case (Cons k keys)
  then show ?case by (cases k) auto
qed simp

lemma multi_get_plan:
  assumes "good_keys keys" and "tag \<le> U32_MAX" and fit: "Suc (length h + (length ns + length (concat keys))) \<le> U64_MAX"
  shows "\<exists>build. parse_multi_get True (length h)
      (to_dec (length ns) # to_dec (length keys) # map (\<lambda>k. to_dec (length k)) keys @ [to_dec tag])
      = Inr (length keys, Suc (length h + (length ns + length (concat keys))), build)
    \<and> build (h @ LF # ns @ concat keys) = Inr (MultiGet ns keys, Some tag)"
proof -
  obtain spans where spans: "key_spans (Suc (length h + length ns)) (map length keys)
        = Inr (Suc (length h + length ns + length (concat keys)), spans)"
      "map (\<lambda>(a, b). slice a b (h @ LF # ns @ concat keys)) spans = keys"
    using key_spans_eq [of "Suc (length h + length ns)" keys "h @ LF # ns"] fit by auto
  have "\<And>k. k \<in> set keys \<Longrightarrow> length k \<le> U64_MAX" and "length keys \<le> U64_MAX" "length ns \<le> U64_MAX"
    using member_length_le [of _ keys] length_le_concat [of keys] fit assms(1)
    by (fastforce simp: good_keys_def)+
  with assms spans show ?thesis
    by (auto simp: parse_multi_get_def read_key_lengths_eq checked_add_def Let_def good_keys_def add.assoc)
qed

lemma touch_tail_eq:
  assumes "tag \<le> U32_MAX" and "good_seconds ttl"
  shows "parse_touch_tail (opt_field (map_option to_dec ttl) @ (if get then [''G''] else []) @ [to_dec tag]) True
    = Inr (seconds ttl, get, Some tag)"
  using assms by (cases ttl; cases get) (auto simp: parse_touch_tail_def opt_field_def good_seconds_def Let_def)

lemma multi_touch_plan:
  assumes "good_keys keys" and "good_seconds ttl" and "tag \<le> U32_MAX"
    and fit: "Suc (length h + (length ns + length (concat keys))) \<le> U64_MAX"
  shows "\<exists>build. parse_multi_touch True (length h)
      (to_dec (length ns) # to_dec (length keys) # map (\<lambda>k. to_dec (length k)) keys
        @ opt_field (map_option to_dec ttl) @ (if get then [''G''] else []) @ [to_dec tag])
      = Inr (length keys, Suc (length h + (length ns + length (concat keys))), build)
    \<and> build (h @ LF # ns @ concat keys) = Inr (MultiTouch ns keys (seconds ttl) get, Some tag)"
proof -
  obtain spans where spans: "key_spans (Suc (length h + length ns)) (map length keys)
        = Inr (Suc (length h + length ns + length (concat keys)), spans)"
      "map (\<lambda>(a, b). slice a b (h @ LF # ns @ concat keys)) spans = keys"
    using key_spans_eq [of "Suc (length h + length ns)" keys "h @ LF # ns"] fit by auto
  have "\<And>k. k \<in> set keys \<Longrightarrow> length k \<le> U64_MAX" and "length keys \<le> U64_MAX" "length ns \<le> U64_MAX"
    using member_length_le [of _ keys] length_le_concat [of keys] fit assms(1)
    by (fastforce simp: good_keys_def)+
  with assms spans show ?thesis
    by (auto simp: parse_multi_touch_def read_key_lengths_eq touch_tail_eq checked_add_def Let_def good_keys_def
        add.assoc)
qed

lemma ttl_and_tag_eq:
  assumes "tag \<le> U32_MAX"
  shows "parse_ttl_and_tag (opt_field (map_option to_dec ttl) @ [to_dec tag]) True
    = Inr (map_option to_dec ttl, Some tag)"
  using assms by (cases ttl) (auto simp: parse_ttl_and_tag_def opt_field_def)

lemma transpose_seconds: "good_seconds ttl \<Longrightarrow> transpose_opt parse_ttl (map_option to_dec ttl) = Inr (seconds ttl)"
  by (cases ttl) (auto simp: good_seconds_def)

lemma multi_set_plan:
  fixes ps :: "(bytes \<times> bytes) list"
  defines "body \<equiv> concat (map (\<lambda>(k, v). k @ v) ps)"
  assumes "good_keys (map fst ps)" and "good_seconds ttl" and "tag \<le> U32_MAX"
    and fit: "Suc (length h + (length ns + length body)) \<le> U64_MAX"
  shows "\<exists>build. parse_multi_set True (length h)
      (to_dec (length ns) # to_dec (length ps)
        # concat (map (\<lambda>(k, v). [to_dec (length k), to_dec (length v)]) ps)
        @ opt_field (map_option to_dec ttl) @ [to_dec tag])
      = Inr (length ps, Suc (length h + (length ns + length body)), build)
    \<and> build (h @ LF # ns @ body) = Inr (MultiSet ns (map fst ps) (map snd ps) (seconds ttl), Some tag)"
proof -
  obtain spans where spans: "pair_spans (Suc (length h + length ns)) (map (\<lambda>(k, v). (length k, length v)) ps)
        = Inr (Suc (length h + length ns + length body), spans)"
      "map (\<lambda>(a, b, c). slice a b (h @ LF # ns @ body)) spans = map fst ps"
      "map (\<lambda>(a, b, c). slice b c (h @ LF # ns @ body)) spans = map snd ps"
    using pair_spans_eq [of "Suc (length h + length ns)" ps "h @ LF # ns"] fit by (auto simp: body_def)
  have member: "length (fst p) + length (snd p) \<le> length body" if "p \<in> set ps" for p
    using that member_length_le [of "fst p @ snd p" "map (\<lambda>(k, v). k @ v) ps"]
    by (force simp: body_def case_prod_beta)
  then have lens: "\<And>p. p \<in> set ps \<Longrightarrow> length (fst p) \<le> U64_MAX \<and> length (snd p) \<le> U64_MAX"
    using fit by fastforce
  have "[] \<notin> set (map (\<lambda>(k, v). k @ v) ps)"
    using assms(2) by (auto simp: good_keys_def image_iff)
  then have "length ps \<le> length body"
    using length_le_concat by (fastforce simp: body_def)
  moreover have "[] \<notin> fst ` set ps"
    using assms(2) by (simp add: good_keys_def)
  ultimately show ?thesis
    using assms(2-) spans lens
    by (auto simp: parse_multi_set_def read_pair_lengths_eq ttl_and_tag_eq transpose_seconds checked_add_def
        Let_def good_keys_def add.assoc)
qed

lemma parse_multi_request:
  assumes good: "good_request r" and tag: "tag \<le> U32_MAX" and multi: "\<not> single_key r"
    and fits: "length (wire_frame (request_fields r @ [to_dec tag]) (request_body r)) \<le> U64_MAX"
  shows "parses_to True True (wire_frame (request_fields r @ [to_dec tag]) (request_body r))
    (request_command r, Some tag)"
proof -
  have fs: "request_fields r @ [to_dec tag] = hd (request_fields r) # (tl (request_fields r) @ [to_dec tag])"
    by (cases r) auto
  show ?thesis
  proof (rule parses_to_multiI [OF arg_cong [OF fs] fits])
    show "list_all header_field (hd (request_fields r) # tl (request_fields r) @ [to_dec tag])"
      using header_request_fields [of r tag] by (simp only: fs)
    show "hd (request_fields r) \<in> {''m'', ''y'', ''o''}"
      using multi by (cases r) auto
    fix h :: bytes
    assume fit: "Suc (length h + length (request_body r)) \<le> U64_MAX"
    show "case (if hd (request_fields r) = ''m'' then parse_multi_get
          else if hd (request_fields r) = ''y'' then parse_multi_touch else parse_multi_set)
          True (length h) (tl (request_fields r) @ [to_dec tag]) of
          Inl e \<Rightarrow> False
        | Inr (n, stop, build) \<Rightarrow> stop = Suc (length h + length (request_body r))
            \<and> build (h @ LF # request_body r) = Inr (request_command r, Some tag)"
    proof (cases r)
      case (ReqMultiGet ns keys)
      then show ?thesis
        using good tag fit multi_get_plan [of keys tag h ns] by auto
    next
      case (ReqMultiSet ns keys vals ttl)
      then have "map fst (zip keys vals) = keys" "map snd (zip keys vals) = vals" "length (zip keys vals) = length keys"
        using good by auto
      then show ?thesis
        using good tag fit ReqMultiSet multi_set_plan [of "zip keys vals" ttl tag h ns] by auto
    next
      case (ReqMultiTouch ns keys ttl get)
      then show ?thesis
        using good tag fit multi_touch_plan [of keys ttl tag h ns get] by auto
    qed (use multi in simp_all)
  qed
qed

section \<open>Discovery to node\<close>

lemma length_to_dec_le: "n < 10 ^ k \<Longrightarrow> 0 < k \<Longrightarrow> length (to_dec n) \<le> k"
proof (induction k arbitrary: n)
  case (Suc k)
  show ?case
  proof (cases "n < 10")
    case False
    then have "n div 10 < 10 ^ k" and "0 < k"
      using Suc.prems by (auto simp: less_mult_imp_div_less mult.commute intro!: gr0I)
    then have "length (to_dec (n div 10)) \<le> k"
      by (rule Suc.IH)
    then show ?thesis
      using False by (subst to_dec.simps) simp
  qed (simp add: to_dec_eq_iff_digit)
qed simp

lemma length_to_dec_usize: "n \<le> U64_MAX \<Longrightarrow> length (to_dec n) \<le> 20"
  by (rule length_to_dec_le) (simp_all add: U64_MAX_def)

definition good_entry :: "bytes \<times> bytes \<Rightarrow> bool" where
  "good_entry e \<longleftrightarrow> good_token (fst e) \<and> good_token (snd e)"

definition entry_line :: "bytes \<times> bytes \<Rightarrow> bytes" where
  "entry_line e = join_fields [to_dec (length (fst e)), to_dec (length (snd e))]"

lemma roster_entry_eq: "roster_entry e = entry_line e @ LF # fst e @ snd e"
  by (cases e) (simp add: roster_entry_def entry_line_def)

lemma next_joined_entry_wire:
  assumes e: "good_entry e" and input: "input = pre @ roster_entry e @ post"
    and fits: "length pre + length (roster_entry e) \<le> U64_MAX"
  shows "next_joined_entry input (length pre) = Inr
    \<lparr>je_name_start = Suc (length pre + length (entry_line e)), je_name_length = length (fst e),
     je_addr_start = Suc (length pre + length (entry_line e) + length (fst e)), je_addr_length = length (snd e),
     je_end = length pre + length (roster_entry e)\<rparr>"
proof -
  have lens: "length (fst e) \<le> U64_MAX" "length (snd e) \<le> U64_MAX"
    using fits by (auto simp: roster_entry_eq)
  have short: "length (entry_line e) < MAX_ROSTER_LINE_LEN + 1"
    using length_to_dec_usize [OF lens(1)] length_to_dec_usize [OF lens(2)]
    by (simp add: entry_line_def MAX_ROSTER_LINE_LEN_def)
  have fs: "LF \<notin> set (entry_line e)"
    using set_join_fields [of "[to_dec (length (fst e)), to_dec (length (snd e))]"] header_field_to_dec
    by (fastforce simp: entry_line_def header_field_def)
  let ?w = "slice (length pre) (min (length input) (length pre + MAX_ROSTER_LINE_LEN + 1)) input"
  have "?w = take (min (length input) (length pre + MAX_ROSTER_LINE_LEN + 1) - length pre)
      (entry_line e @ LF # fst e @ snd e @ post)"
    by (simp add: slice_def input roster_entry_eq)
  moreover have "Suc (length (entry_line e)) \<le> min (length input) (length pre + MAX_ROSTER_LINE_LEN + 1) - length pre"
    using short by (simp add: input roster_entry_eq)
  ultimately have "\<exists>r. ?w = entry_line e @ LF # r"
    by (auto simp: take_Cons' take_append not_less_eq_eq)
  then have find: "find_lf ?w = Some (length (entry_line e))"
    using fs by auto
  have line: "slice (length pre) (length pre + length (entry_line e)) input = entry_line e"
    by (simp add: slice_def input roster_entry_eq)
  have parts: "split_at_byte SP (entry_line e) = [to_dec (length (fst e)), to_dec (length (snd e))]"
    unfolding entry_line_def by (rule split_join_fields) (use header_field_to_dec in \<open>auto simp: header_field_def\<close>)
  have "length input = Suc (length pre + length (entry_line e) + length (fst e) + length (snd e) + length post)"
    by (simp add: input roster_entry_eq)
  with e lens fits show ?thesis
    unfolding next_joined_entry_def Let_def find
    by (simp add: line parts field_ends_two good_entry_def good_token_def roster_entry_eq)
qed

lemma roster_entry_nonempty: "roster_entry e \<noteq> []"
  by (simp add: roster_entry_eq)

lemma scan_entries_wire:
  assumes "list_all good_entry joined" and "input = pre @ concat (map roster_entry joined) @ post"
    and "length pre + length (concat (map roster_entry joined)) \<le> U64_MAX" and "mp_cursor p = length pre"
  shows "scan_entries input (length joined) p = (Inr (), p\<lparr>
      mp_cursor := length pre + length (concat (map roster_entry joined)),
      mp_entries_done := mp_entries_done p + length joined\<rparr>)"
  using assms
proof (induction joined arbitrary: pre p)
  case (Cons e joined)
  have "next_joined_entry input (length pre) = Inr
    \<lparr>je_name_start = Suc (length pre + length (entry_line e)), je_name_length = length (fst e),
     je_addr_start = Suc (length pre + length (entry_line e) + length (fst e)), je_addr_length = length (snd e),
     je_end = length pre + length (roster_entry e)\<rparr>"
    using Cons.prems
    by (intro next_joined_entry_wire [where post = "concat (map roster_entry joined) @ post"]) auto
  moreover have "scan_entries input (length joined)
      (p\<lparr>mp_cursor := length pre + length (roster_entry e), mp_entries_done := mp_entries_done p + 1\<rparr>)
    = (Inr (), p\<lparr>mp_cursor := length pre + length (roster_entry e) + length (concat (map roster_entry joined)),
        mp_entries_done := mp_entries_done p + 1 + length joined\<rparr>)"
    using Cons.prems by (subst Cons.IH [where pre = "pre @ roster_entry e"]) auto
  ultimately show ?case
    using Cons.prems(4) by (simp add: add.assoc)
qed simp

lemma read_joined_wire:
  assumes "list_all good_entry joined" and "frame = pre @ concat (map roster_entry joined)"
    and "length frame \<le> U64_MAX"
  shows "read_joined frame (length joined) (length pre) = Inr joined"
  using assms
proof (induction joined arbitrary: pre)
  case (Cons e joined)
  have entry: "next_joined_entry frame (length pre) = Inr
    \<lparr>je_name_start = Suc (length pre + length (entry_line e)), je_name_length = length (fst e),
     je_addr_start = Suc (length pre + length (entry_line e) + length (fst e)), je_addr_length = length (snd e),
     je_end = length pre + length (roster_entry e)\<rparr>"
    using Cons.prems by (intro next_joined_entry_wire [where post = "concat (map roster_entry joined)"]) auto
  have rest: "read_joined frame (length joined) (length pre + length (roster_entry e)) = Inr joined"
    using Cons.IH [of "pre @ roster_entry e"] Cons.prems by simp
  have frame: "frame = (pre @ entry_line e) @ LF # fst e @ snd e @ concat (map roster_entry joined)"
    using Cons.prems(2) roster_entry_eq [of e] by simp
  have utf8: "valid_utf8 (fst e)" "valid_utf8 (snd e)"
    using Cons.prems(1) by (simp_all add: good_entry_def good_token_def)
  have "slice (Suc (length pre + length (entry_line e))) (Suc (length pre + length (entry_line e) + length (fst e))) frame = fst e"
    "slice (Suc (length pre + length (entry_line e) + length (fst e)))
      (Suc (length pre + length (entry_line e) + length (fst e) + length (snd e))) frame = snd e"
    by (simp_all add: frame slice_append_skip)
  then have "decode_field frame (Suc (length pre + length (entry_line e))) (length (fst e)) = Inr (fst e)"
    and "decode_field frame (Suc (length pre + length (entry_line e) + length (fst e))) (length (snd e)) = Inr (snd e)"
    using utf8 by (simp_all add: decode_field_def)
  then show ?case
    using entry rest by simp
qed simp

definition good_migrate :: "bytes \<Rightarrow> bytes \<Rightarrow> bytes \<Rightarrow> bytes \<Rightarrow> (bytes \<times> bytes) list \<Rightarrow> nat \<Rightarrow> nat \<Rightarrow> bool" where
  "good_migrate token name addr jtoken joined replication generation \<longleftrightarrow>
     list_all good_token [token, name, addr, jtoken] \<and> list_all good_entry joined
     \<and> length joined \<le> MAX_ROSTER_ENTRIES \<and> 1 \<le> replication \<and> replication \<le> U64_MAX \<and> generation \<le> U64_MAX"

lemma parse_migrate_body:
  fixes h :: bytes and rest :: bytes
  assumes good: "good_migrate token name addr jtoken joined replication generation"
    and h: "h \<noteq> []" and frame: "frame = h @ LF # token @ name @ addr @ jtoken @ concat (map roster_entry joined)"
    and fits: "length frame \<le> U64_MAX"
    and hdr: "hdr = \<lparr>mh_token_length = length token, mh_joining_name_length = length name,
          mh_joining_addr_length = length addr, mh_joining_token_length = length jtoken,
          mh_joined_count = length joined, mh_replication = replication, mh_generation = Some generation\<rparr>"
  shows "\<exists>p. parse_migrate (frame @ rest) (length h) hdr (progress_default\<lparr>mp_line_end := l\<rparr>)
      = (Inr (Migrate token name addr jtoken joined replication (Some generation), None), rest, p)"
proof -
  define pre where "pre = h @ LF # token @ name @ addr @ jtoken"
  have frame': "frame = pre @ concat (map roster_entry joined)"
    by (simp add: frame pre_def)
  define ends where "ends = [length h + 1 + length token, length h + 1 + length token + length name,
      length h + 1 + length token + length name + length addr, length pre]"
  have ends: "field_ends (length h + 1) [length token, length name, length addr, length jtoken] = Inr ends"
    using fits by (simp add: frame pre_def ends_def field_ends_four)
  have slices: "slice (length h + 1) (length h + 1 + length token) frame = token"
      "slice (length h + 1 + length token) (length h + 1 + length token + length name) frame = name"
      "slice (length h + 1 + length token + length name)
        (length h + 1 + length token + length name + length addr) frame = addr"
      "slice (length h + 1 + length token + length name + length addr)
        (length h + 1 + length token + length name + length addr + length jtoken) frame = jtoken"
    by (simp_all add: frame slice_append_skip)
  have "read_joined frame (length joined) (length pre) = Inr joined"
    using good fits by (intro read_joined_wire) (auto simp: frame' good_migrate_def)
  then have read: "read_migrate (length h + 1) hdr ends frame
      = Inr (Migrate token name addr jtoken joined replication (Some generation), None)"
    using good slices
    by (simp add: read_migrate_def hdr ends_def decode_field_def good_migrate_def good_token_def)
  have scan: "scan_entries (frame @ rest) (length joined) p = (Inr (), p\<lparr>mp_cursor := length frame,
      mp_entries_done := mp_entries_done p + length joined\<rparr>)" if "mp_cursor p = length pre" for p
    using scan_entries_wire [of joined "frame @ rest" pre rest p] that good fits by (simp add: frame' good_migrate_def)
  have sizes: "length frame = length pre + length (concat (map roster_entry joined))" "ends ! 3 = length pre"
    by (simp_all add: frame' ends_def)
  have nonempty: "token \<noteq> []" "name \<noteq> []" "addr \<noteq> []" "jtoken \<noteq> []"
    using good by (simp_all add: good_migrate_def good_token_def)
  have lens: "mh_token_length hdr = length token" "mh_joining_name_length hdr = length name"
    "mh_joining_addr_length hdr = length addr" "mh_joining_token_length hdr = length jtoken"
    "mh_joined_count hdr = length joined"
    by (simp_all add: hdr)
  show ?thesis
    using read ends nonempty h sizes by (simp add: parse_migrate_def lens Let_def scan)
qed

lemma parse_migrate_message:
  assumes good: "good_migrate token name addr jtoken joined replication generation"
    and fits: "length (build_migrate_message token name addr jtoken joined replication generation) \<le> U64_MAX"
  shows "parses_to tagged charged (build_migrate_message token name addr jtoken joined replication generation)
    (Migrate token name addr jtoken joined replication (Some generation), None)"
proof -
  let ?parts = "[to_dec (length name), to_dec (length addr), to_dec (length jtoken), to_dec (length joined),
      to_dec replication, to_dec (length token), to_dec generation]"
  let ?body = "token @ name @ addr @ jtoken @ concat (map roster_entry joined)"
  let ?m = "build_migrate_message token name addr jtoken joined replication generation"
  have m: "?m = wire_frame (''M'' # ?parts) ?body"
    by (simp add: build_migrate_message_def wire_frame_def)
  have fs: "list_all header_field (''M'' # ?parts)" by simp
  have "length name \<le> U64_MAX" "length addr \<le> U64_MAX" "length jtoken \<le> U64_MAX" "length token \<le> U64_MAX"
    "length joined \<le> U64_MAX"
    using fits good by (auto simp: m wire_frame_length good_migrate_def MAX_ROSTER_ENTRIES_def U64_MAX_def)
  then have hdr: "parse_migrate_header ?parts = Inr \<lparr>mh_token_length = length token,
      mh_joining_name_length = length name, mh_joining_addr_length = length addr,
      mh_joining_token_length = length jtoken, mh_joined_count = length joined, mh_replication = replication,
      mh_generation = Some generation\<rparr>"
    using good by (simp add: parse_migrate_header_def good_migrate_def)
  define h where "h = join_fields (''M'' # ?parts)"
  have h: "h \<noteq> []" "?m = h @ LF # ?body"
    by (simp_all add: h_def m wire_frame_def)
  have "\<exists>p. parse_with_mode (?m @ rest) tagged progress_default charged
      = (Inr (Migrate token name addr jtoken joined replication (Some generation), None), rest, p)" for rest
  proof -
    have "parse_with_mode (?m @ rest) tagged progress_default charged =
        parse_command ''M'' ?parts (length h) (?m @ rest) tagged
          (progress_default\<lparr>mp_line_end := Some (length h)\<rparr>) charged"
      unfolding m h_def by (rule parse_wire [OF fs])
    then show ?thesis
      using parse_migrate_body [OF good h fits refl] by (simp add: parse_command_def hdr)
  qed
  then show ?thesis by (simp add: parses_to_def)
qed

section \<open>Properties\<close>

text \<open>C5. Every write one node forwards to another (the plain and the handoff forms of set and delete,
  and a clear) is read by the receiving node as exactly that command, its TTL rounded up to whole
  seconds, and the bytes that follow it in the buffer are left untouched.\<close>

theorem forwarded_write_parses:
  assumes "good_write w" and "length (forwarded_message w) \<le> U64_MAX"
  shows "\<exists>p. parse_with_mode (forwarded_message w @ rest) False progress_default charged
    = (Inr (forwarded_command w, None), rest, p)"
proof -
  have "parses_to False charged (forwarded_message w) (forwarded_command w, None)"
    using assms parse_set_message parse_delete_message parse_handoff_message parse_handoff_delete_message
      parse_clear_handoff_message
    by (cases w) (simp_all add: forwarded_message_def del: forwarded_command.simps(5,6))
  then show ?thesis by (simp add: parses_to_def)
qed

theorem forwarded_write_parses_witness:
  "\<exists>p. parse_with_mode
      (forwarded_message (FwdHandoffSet (new_key ''ns'' ''k'') ''v'' (Some 1500000000) True ''tok'') @ ''F'')
      False progress_default False
    = (Inr (HandoffSet (new_key ''ns'' ''k'') ''v'' (Some 2000000000) True ''tok'' False, None), ''F'', p)"
proof -
  let ?w = "FwdHandoffSet (new_key ''ns'' ''k'') ''v'' (Some 1500000000) True ''tok''"
  have "good_write ?w"
    by (simp add: new_key_def good_ttl_def ttl_wire_seconds_def NANOS_PER_SEC_def U64_MAX_def good_token_def
        byte_in_def)
  moreover have "length (forwarded_message ?w) \<le> U64_MAX"
    by (simp add: forwarded_message_def handoff_message_def new_key_def opt_ttl_field_def ttl_wire_seconds_def
        NANOS_PER_SEC_def to_dec.simps U64_MAX_def)
  ultimately have "\<exists>p. parse_with_mode (forwarded_message ?w @ ''F'') False progress_default False
      = (Inr (forwarded_command ?w, None), ''F'', p)"
    by (rule forwarded_write_parses)
  then show ?thesis
    by (simp add: wire_ttl_def ttl_wire_seconds_def NANOS_PER_SEC_def)
qed

text \<open>C6. Every frame the proxy builds for a client's request, with its placeholder replaced by the
  connection's tag, is read by the node (on a tagged connection, the frame charged) as the same request
  with that tag: namespace, keys, values, conditional digest in hexadecimal, signed delta and TTL all
  survive, for the single-key and for the batched commands.\<close>

theorem proxy_frame_parses:
  assumes "good_request r" and "tag \<le> U32_MAX"
    and "length (wire_frame (request_fields r @ [to_dec tag]) (request_body r)) \<le> U64_MAX"
  shows "\<exists>bs. tagged_frame (request_frame r) tag = Some bs \<and>
    (\<forall>rest. \<exists>p. parse_with_mode (bs @ rest) True progress_default True
       = (Inr (request_command r, Some tag), rest, p))"
proof -
  have "parses_to True True (wire_frame (request_fields r @ [to_dec tag]) (request_body r))
      (request_command r, Some tag)"
    using assms by (cases "single_key r") (auto intro: parse_single_request parse_multi_request)
  then show ?thesis
    by (simp add: tagged_request_frame parses_to_def)
qed

theorem proxy_frame_parses_witness:
  "\<exists>bs. tagged_frame (request_frame (ReqMultiTouch ''n'' [''a'', ''bc''] (Some 3) True)) 7 = Some bs \<and>
    (\<forall>rest. \<exists>p. parse_with_mode (bs @ rest) True progress_default True
       = (Inr (MultiTouch ''n'' [''a'', ''bc''] (Some (3 * NANOS_PER_SEC)) True, Some 7), rest, p))"
proof -
  let ?r = "ReqMultiTouch ''n'' [''a'', ''bc''] (Some 3) True"
  have "good_request ?r"
    by (simp add: good_keys_def good_seconds_def U64_MAX_def)
  moreover have "(7::nat) \<le> U32_MAX" by (simp add: U32_MAX_def)
  moreover have "length (wire_frame (request_fields ?r @ [to_dec 7]) (request_body ?r)) \<le> U64_MAX"
    by (simp add: wire_frame_def opt_field_def to_dec.simps U64_MAX_def)
  ultimately have "\<exists>bs. tagged_frame (request_frame ?r) 7 = Some bs \<and>
      (\<forall>rest. \<exists>p. parse_with_mode (bs @ rest) True progress_default True
         = (Inr (request_command ?r, Some 7), rest, p))"
    by (rule proxy_frame_parses)
  then show ?thesis by simp
qed

text \<open>C7. The migration order discovery sends a node (the joining node's name, address and token, the
  roster, the replication factor and the join's generation) is read back field by field, roster
  included, whatever follows it.\<close>

theorem migrate_message_parses:
  assumes "good_migrate token name addr jtoken joined replication generation"
    and "length (build_migrate_message token name addr jtoken joined replication generation) \<le> U64_MAX"
  shows "\<exists>p. parse_with_mode (build_migrate_message token name addr jtoken joined replication generation @ rest)
      tagged progress_default charged
    = (Inr (Migrate token name addr jtoken joined replication (Some generation), None), rest, p)"
  using parse_migrate_message [OF assms] by (simp add: parses_to_def)

theorem migrate_message_parses_witness:
  "\<exists>p. parse_with_mode (build_migrate_message ''t'' ''n3'' ''h:3'' ''j'' [(''n1'', ''h:1''), (''n2'', ''h:2'')] 2 9
      @ ''rest'') False progress_default False
    = (Inr (Migrate ''t'' ''n3'' ''h:3'' ''j'' [(''n1'', ''h:1''), (''n2'', ''h:2'')] 2 (Some 9), None), ''rest'', p)"
proof (rule migrate_message_parses)
  show "good_migrate ''t'' ''n3'' ''h:3'' ''j'' [(''n1'', ''h:1''), (''n2'', ''h:2'')] 2 9"
    by (simp add: good_migrate_def good_token_def good_entry_def byte_in_def MAX_ROSTER_ENTRIES_def U64_MAX_def)
  show "length (build_migrate_message ''t'' ''n3'' ''h:3'' ''j'' [(''n1'', ''h:1''), (''n2'', ''h:2'')] 2 9) \<le> U64_MAX"
    by (simp add: build_migrate_message_def roster_entry_def to_dec.simps U64_MAX_def)
qed

end
