(* ===== verification/Parse_Safety.thy ===== *)
theory Parse_Safety
  imports Parse_Lemmas
begin

text \<open>
  What the parser guarantees on arbitrary bytes: which commands can come off the wire and with which
  bounds, that a buffer it does not accept is left as it was, that an accepted frame is a prefix of
  the buffer, and that a multi-key frame is not built before it is charged.
\<close>

section \<open>Commands off the wire\<close>

definition wire_key :: "nat \<Rightarrow> key \<Rightarrow> bool" where
  "wire_key n k \<longleftrightarrow> key_name k \<noteq> [] \<and> length (key_namespace k) + length (key_name k) < n"

definition wire_token :: "bytes \<Rightarrow> bool" where
  "wire_token t \<longleftrightarrow> t \<noteq> [] \<and> valid_utf8 t"

text \<open>
  What holds of a command read from a frame of \<open>n\<close> bytes. The internal commands, which only the
  node itself constructs, are never read.
\<close>

fun wire_ok :: "nat \<Rightarrow> command \<Rightarrow> bool" where
  "wire_ok n (Auth secret _ _) \<longleftrightarrow> secret \<noteq> [] \<and> length secret < n"
| "wire_ok n (Get k) \<longleftrightarrow> wire_key n k"
| "wire_ok n (Delete k) \<longleftrightarrow> wire_key n k"
| "wire_ok n (MultiGet ns keys) \<longleftrightarrow> keys \<noteq> [] \<and> [] \<notin> set keys \<and> length ns + length (concat keys) < n"
| "wire_ok n (MultiTouch ns keys _ _) \<longleftrightarrow> keys \<noteq> [] \<and> [] \<notin> set keys \<and> length ns + length (concat keys) < n"
| "wire_ok n (MultiSet ns keys values _) \<longleftrightarrow> keys \<noteq> [] \<and> [] \<notin> set keys \<and> length values = length keys
     \<and> length ns + length (concat keys) + length (concat values) < n"
| "wire_ok n (SetKey k v _) \<longleftrightarrow> wire_key n k \<and> length v < n"
| "wire_ok n (Incr k delta) \<longleftrightarrow> wire_key n k \<and> I64_MIN \<le> delta \<and> delta \<le> I64_MAX"
| "wire_ok n (CasSet k condition v _) \<longleftrightarrow> wire_key n k \<and> length v < n
     \<and> (case condition of CondDigest d \<Rightarrow> length d = 16 | _ \<Rightarrow> True)"
| "wire_ok n (CasDelete k digest) \<longleftrightarrow> wire_key n k \<and> length digest = 16"
| "wire_ok n (Touch k _ _) \<longleftrightarrow> wire_key n k"
| "wire_ok n (Clear ns) \<longleftrightarrow> length ns < n"
| "wire_ok n ClearAll \<longleftrightarrow> True"
| "wire_ok n (HandoffClear all ns token) \<longleftrightarrow> wire_token token \<and> length ns < n \<and> (all \<longrightarrow> ns = [])"
| "wire_ok n (HandoffSet k v _ _ token ahead) \<longleftrightarrow> wire_key n k \<and> length v < n \<and> wire_token token \<and> \<not> ahead"
| "wire_ok n (HandoffDelete k token) \<longleftrightarrow> wire_key n k \<and> wire_token token"
| "wire_ok n (Migrate token name addr jtoken joined replication _) \<longleftrightarrow>
     list_all wire_token [token, name, addr, jtoken] \<and> list_all (\<lambda>(a, b). wire_token a \<and> wire_token b) joined
     \<and> length joined \<le> MAX_ROSTER_ENTRIES \<and> 1 \<le> replication"
| "wire_ok n (CancelMigration token name) \<longleftrightarrow> wire_token token \<and> wire_token name"
| "wire_ok n _ \<longleftrightarrow> False"

text \<open>The commands that carry no tag.\<close>

fun untagged_command :: "command \<Rightarrow> bool" where
  "untagged_command (Auth _ _ _) = True"
| "untagged_command (Migrate _ _ _ _ _ _ _) = True"
| "untagged_command (CancelMigration _ _) = True"
| "untagged_command _ = False"

definition read_ok :: "bool \<Rightarrow> nat \<Rightarrow> parse_error + command \<times> nat option \<Rightarrow> bool" where
  "read_ok tagged n r \<longleftrightarrow> (case r of
     Inl e \<Rightarrow> e = InvalidUtf8
   | Inr (cmd, tag) \<Rightarrow> wire_ok n cmd \<and> (\<forall>t. tag = Some t \<longrightarrow> t \<le> U32_MAX)
       \<and> (tag \<noteq> None \<longleftrightarrow> tagged \<and> \<not> untagged_command cmd))"

definition plan_ok :: "bool \<Rightarrow> nat \<Rightarrow> plan \<Rightarrow> bool" where
  "plan_ok tagged header_end = (\<lambda>(stop, build).
     header_end < stop \<and> (\<forall>frame. length frame = stop \<longrightarrow> read_ok tagged stop (build frame)))"

section \<open>The arms\<close>

lemma trailing_tag_ok:
  "parse_trailing_tag parts tagged = Inr (tag, parts') \<Longrightarrow>
     (\<forall>t. tag = Some t \<longrightarrow> t \<le> U32_MAX) \<and> (tag \<noteq> None \<longleftrightarrow> tagged)"
  by (auto simp: parse_trailing_tag_def result_iffs split: if_splits dest: parse_tag_bound)

lemma ttl_and_tag_ok:
  "parse_ttl_and_tag parts tagged = Inr (ttl, tag) \<Longrightarrow>
     (\<forall>t. tag = Some t \<longrightarrow> t \<le> U32_MAX) \<and> (tag \<noteq> None \<longleftrightarrow> tagged)"
  by (cases parts; cases "tl parts")
    (auto simp: parse_ttl_and_tag_def result_iffs split: if_splits dest: parse_tag_bound)

lemma touch_tail_ok:
  "parse_touch_tail parts tagged = Inr (ttl, get, tag) \<Longrightarrow>
     (\<forall>t. tag = Some t \<longrightarrow> t \<le> U32_MAX) \<and> (tag \<noteq> None \<longleftrightarrow> tagged)"
  by (auto simp: parse_touch_tail_def result_iffs Let_def split: if_splits list.splits dest: parse_tag_bound)

lemma pop_tag_ok:
  "pop_tag trailing tagged = Inr (tag, rest) \<Longrightarrow>
     (\<forall>t. tag = Some t \<longrightarrow> t \<le> U32_MAX) \<and> (tag \<noteq> None \<longleftrightarrow> tagged)"
  by (auto simp: pop_tag_def result_iffs split: if_splits dest: parse_tag_bound)

lemma decode_ok:
  assumes "decode_field frame start len = Inr t" and "0 < len" and "start + len \<le> length frame"
  shows "wire_token t"
  using assms by (auto simp: decode_field_def wire_token_def Let_def slice_def split: if_splits)

lemma frame_key_ok:
  assumes "length frame = n" and "a \<le> b" and "b < c" and "c \<le> n" and "0 < a"
  shows "wire_key n (frame_key a b c frame)"
  using assms by (auto simp: wire_key_def frame_key_def new_key_def slice_def)

lemma parse_hex_length: "parse_hex s = Inr d \<Longrightarrow> length d = length s div 2"
  by (induction s arbitrary: d rule: parse_hex.induct) (auto simp: result_iffs)

lemma parse_cas_condition_ok:
  "parse_cas_condition f b = Inr c \<Longrightarrow> (case c of CondDigest d \<Rightarrow> length d = 16 | _ \<Rightarrow> b)"
  by (auto simp: parse_cas_condition_def result_iffs split: if_splits dest: parse_hex_length)

lemma i64_try_from_bounds: "i64_try_from m = Some i \<Longrightarrow> 0 \<le> i \<and> i \<le> I64_MAX"
  by (auto simp: i64_try_from_def split: if_splits)

lemma parse_decimal_bounds: "parse_decimal_i64 s = Some i \<Longrightarrow> I64_MIN \<le> i \<and> i \<le> I64_MAX"
  by (fastforce simp: parse_decimal_i64_def Let_def I64_MIN_def I64_MAX_def
      split: if_splits list.splits option.splits prod.splits dest!: i64_try_from_bounds)

lemma length_slice_min: "length (slice a b bs) = min (b - a) (length bs - a)"
  by (simp add: slice_def)

lemma slice_empty_iff: "slice a b bs = [] \<longleftrightarrow> b \<le> a \<or> length bs \<le> a"
  by (simp add: slice_def)

lemma read_ok_Inr [simp]:
  "read_ok tagged n (Inr (cmd, tag)) \<longleftrightarrow> wire_ok n cmd \<and> (\<forall>t. tag = Some t \<longrightarrow> t \<le> U32_MAX)
       \<and> (tag \<noteq> None \<longleftrightarrow> tagged \<and> \<not> untagged_command cmd)"
  by (simp add: read_ok_def)

lemma read_ok_decode:
  assumes "\<And>t. decode_field frame start len = Inr t \<Longrightarrow> wire_token t \<Longrightarrow> read_ok tagged n (f t)"
    and "0 < len" and "start + len \<le> length frame"
  shows "read_ok tagged n (and_then (decode_field frame start len) f)"
  using assms decode_ok [OF _ assms(2,3)]
  by (cases "decode_field frame start len") (auto simp: read_ok_def dest: decode_field_error)

lemmas plan_simps = plan_ok_def result_iffs field_ends_eqs Let_def slice_empty_iff length_slice_min

lemma parse_auth_ok: "parse_auth he parts = Inr p \<Longrightarrow> plan_ok tagged he p"
  by (auto simp: parse_auth_def plan_simps split: if_splits)

lemma parse_get_delete_ok: "parse_get_delete c tagged he parts = Inr p \<Longrightarrow> plan_ok tagged he p"
  by (auto simp: parse_get_delete_def plan_simps split: if_splits dest!: trailing_tag_ok intro!: frame_key_ok)

lemma parse_handoff_delete_ok: "parse_handoff_delete tagged he parts = Inr p \<Longrightarrow> plan_ok tagged he p"
  by (auto simp: parse_handoff_delete_def plan_simps split: if_splits
      dest!: trailing_tag_ok intro!: read_ok_decode frame_key_ok)

lemma parse_incr_ok: "parse_incr tagged he parts = Inr p \<Longrightarrow> plan_ok tagged he p"
  by (auto simp: parse_incr_def plan_simps split: if_splits dest!: trailing_tag_ok parse_decimal_bounds
      intro!: frame_key_ok)

lemma parse_cas_set_ok: "parse_cas_set tagged he parts = Inr p \<Longrightarrow> plan_ok tagged he p"
  by (auto simp: parse_cas_set_def plan_simps split: if_splits cas_condition.splits
      dest!: ttl_and_tag_ok parse_cas_condition_ok intro!: frame_key_ok)

lemma parse_cas_delete_ok: "parse_cas_delete tagged he parts = Inr p \<Longrightarrow> plan_ok tagged he p"
  by (auto simp: parse_cas_delete_def plan_simps split: if_splits cas_condition.splits
      dest!: trailing_tag_ok parse_cas_condition_ok intro!: frame_key_ok)

lemma parse_touch_ok: "parse_touch tagged he parts = Inr p \<Longrightarrow> plan_ok tagged he p"
  by (auto simp: parse_touch_def plan_simps split: if_splits dest!: touch_tail_ok intro!: frame_key_ok)

lemma parse_clear_ok: "parse_clear tagged he parts = Inr p \<Longrightarrow> plan_ok tagged he p"
  by (auto simp: parse_clear_def plan_simps split: if_splits dest!: trailing_tag_ok)

lemma parse_clear_all_ok: "parse_clear_all tagged he parts = Inr p \<Longrightarrow> plan_ok tagged he p"
  by (auto simp: parse_clear_all_def plan_simps split: if_splits dest!: trailing_tag_ok)

lemma parse_handoff_clear_ok: "parse_handoff_clear tagged he parts = Inr p \<Longrightarrow> plan_ok tagged he p"
  by (auto simp: parse_handoff_clear_def plan_simps case_prod_beta split: if_splits
      dest!: pop_tag_ok intro!: read_ok_decode)

lemma parse_set_ok: "parse_set c tagged he parts = Inr p \<Longrightarrow> plan_ok tagged he p"
  by (auto simp: parse_set_def plan_simps split: if_splits dest!: ttl_and_tag_ok intro!: frame_key_ok)

lemma parse_handoff_set_ok: "parse_handoff_set tagged he parts = Inr p \<Longrightarrow> plan_ok tagged he p"
  by (auto simp: parse_handoff_set_def plan_simps case_prod_beta split: if_splits
      dest!: pop_tag_ok intro!: read_ok_decode frame_key_ok)

lemma parse_cancel_migration_ok: "parse_cancel_migration he parts = Inr p \<Longrightarrow> plan_ok tagged he p"
  by (auto simp: parse_cancel_migration_def plan_simps split: if_splits intro!: read_ok_decode)

lemmas arm_oks = parse_auth_ok parse_get_delete_ok parse_handoff_delete_ok parse_incr_ok parse_cas_set_ok
  parse_cas_delete_ok parse_touch_ok parse_clear_ok parse_clear_all_ok parse_handoff_clear_ok parse_set_ok
  parse_handoff_set_ok parse_cancel_migration_ok

lemma parse_simple_ok: "parse_simple c tagged he parts = Inr p \<Longrightarrow> plan_ok tagged he p"
  unfolding parse_simple_def
  by (simp only: split: if_split_asm) (erule arm_oks | simp only: sum.distinct)+

section \<open>The multi-key arms\<close>

fun multi_count :: "command \<Rightarrow> nat option" where
  "multi_count (MultiGet _ keys) = Some (length keys)"
| "multi_count (MultiTouch _ keys _ _) = Some (length keys)"
| "multi_count (MultiSet _ keys _ _) = Some (length keys)"
| "multi_count _ = None"

definition multi_plan_ok :: "bool \<Rightarrow> nat \<Rightarrow> multi_plan \<Rightarrow> bool" where
  "multi_plan_ok tagged header_end = (\<lambda>(n, stop, build). plan_ok tagged header_end (stop, build)
     \<and> (\<forall>frame. length frame = stop \<longrightarrow> (\<exists>cmd tag. build frame = Inr (cmd, tag) \<and> multi_count cmd = Some n)))"

lemma read_key_lengths_ok: "read_key_lengths n parts = Inr (lens, parts') \<Longrightarrow> length lens = n \<and> 0 \<notin> set lens"
  by (induction n arbitrary: parts lens) (auto simp: result_iffs)

lemma read_pair_lengths_ok:
  "read_pair_lengths n parts = Inr (lens, parts') \<Longrightarrow> length lens = n \<and> 0 \<notin> set (map fst lens)"
proof (induction n arbitrary: parts lens)
  case (Suc n)
  then obtain l v parts2 rest where "l \<noteq> 0" "read_pair_lengths n parts2 = Inr (rest, parts')" "lens = (l, v) # rest"
    by (auto simp: result_iffs)
  then show ?case using Suc.IH by auto
qed simp

lemma key_spans_ok:
  assumes "key_spans start lens = Inr (stop, spans)" and "stop \<le> length frame"
  shows "stop = start + sum_list lens \<and> map length (map (\<lambda>(a, b). slice a b frame) spans) = lens"
  using assms
proof (induction lens arbitrary: start spans)
  case (Cons l lens)
  then obtain spans' where "key_spans (start + l) lens = Inr (stop, spans')" "spans = (start, start + l) # spans'"
    by (auto simp: result_iffs checked_add_def split: if_splits)
  with Cons show ?case by (fastforce simp: length_slice_min)
qed simp

lemma pair_spans_ok:
  assumes "pair_spans start lens = Inr (stop, spans)" and "stop \<le> length frame"
  shows "stop = start + sum_list (map fst lens) + sum_list (map snd lens)
    \<and> map length (map (\<lambda>(a, b, c). slice a b frame) spans) = map fst lens
    \<and> map length (map (\<lambda>(a, b, c). slice b c frame) spans) = map snd lens"
  using assms
proof (induction lens arbitrary: start spans)
  case (Cons l lens)
  then obtain spans' where "pair_spans (start + fst l + snd l) lens = Inr (stop, spans')"
      "spans = (start, start + fst l, start + fst l + snd l) # spans'"
    by (cases l) (auto simp: result_iffs field_ends_two Let_def split: if_splits)
  with Cons show ?case by (fastforce simp: length_slice_min)
qed simp

lemma keys_ok:
  assumes "map length keys = lens"
  shows "length keys = length lens" and "length (concat keys) = sum_list lens"
    and "0 \<notin> set lens \<Longrightarrow> [] \<notin> set keys"
  using assms by (auto simp: length_concat image_iff)

lemma multi_plan_okI:
  assumes "header_end < stop" and "\<And>frame. length frame = stop \<Longrightarrow> build frame = Inr (cmd frame, tag)"
    and "\<And>frame. length frame = stop \<Longrightarrow> wire_ok stop (cmd frame) \<and> multi_count (cmd frame) = Some n"
    and "(\<forall>t. tag = Some t \<longrightarrow> t \<le> U32_MAX) \<and> (tag \<noteq> None \<longleftrightarrow> tagged)"
  shows "multi_plan_ok tagged header_end (n, stop, build)"
proof -
  have "\<not> untagged_command c" if "multi_count c = Some n" for c
    using that by (cases c) auto
  then show ?thesis
    using assms by (auto simp: multi_plan_ok_def plan_ok_def)
qed

lemma multi_get_frame:
  assumes "n \<noteq> 0" and "read_key_lengths n parts1 = Inr (lens, parts2)"
    and "parse_trailing_tag parts2 tagged = Inr (tag, q)" and "key_spans (Suc (he + nl)) lens = Inr (stop, spans)"
  shows "multi_plan_ok tagged he (n, stop, \<lambda>frame. Inr (MultiGet (slice (Suc he) (Suc (he + nl)) frame)
    (map (\<lambda>(a, b). slice a b frame) spans), tag))"
proof (rule multi_plan_okI)
  have read: "length lens = n" "0 \<notin> set lens"
    using read_key_lengths_ok [OF assms(2)] by auto
  have stop: "stop = Suc (he + nl) + sum_list lens"
    using key_spans_ok [OF assms(4), of "replicate stop undefined"] by simp
  then show "he < stop" by simp
  fix frame :: bytes
  assume len: "length frame = stop"
  define keys where "keys = map (\<lambda>(a, b). slice a b frame) spans"
  have "map length keys = lens"
    using key_spans_ok [OF assms(4)] len by (simp add: keys_def)
  from keys_ok [OF this] show "wire_ok stop (MultiGet (slice (Suc he) (Suc (he + nl)) frame)
        (map (\<lambda>(a, b). slice a b frame) spans)) \<and>
      multi_count (MultiGet (slice (Suc he) (Suc (he + nl)) frame) (map (\<lambda>(a, b). slice a b frame) spans)) = Some n"
    unfolding keys_def [symmetric] using read assms(1) stop len by (auto simp: length_slice_min)
qed (use trailing_tag_ok [OF assms(3)] in auto)

lemma multi_touch_frame:
  assumes "n \<noteq> 0" and "read_key_lengths n parts1 = Inr (lens, parts2)"
    and "parse_touch_tail parts2 tagged = Inr (ttl, get, tag)" and "key_spans (Suc (he + nl)) lens = Inr (stop, spans)"
  shows "multi_plan_ok tagged he (n, stop, \<lambda>frame. Inr (MultiTouch (slice (Suc he) (Suc (he + nl)) frame)
    (map (\<lambda>(a, b). slice a b frame) spans) ttl get, tag))"
proof (rule multi_plan_okI)
  have read: "length lens = n" "0 \<notin> set lens"
    using read_key_lengths_ok [OF assms(2)] by auto
  have stop: "stop = Suc (he + nl) + sum_list lens"
    using key_spans_ok [OF assms(4), of "replicate stop undefined"] by simp
  then show "he < stop" by simp
  fix frame :: bytes
  assume len: "length frame = stop"
  define keys where "keys = map (\<lambda>(a, b). slice a b frame) spans"
  have "map length keys = lens"
    using key_spans_ok [OF assms(4)] len by (simp add: keys_def)
  from keys_ok [OF this] show "wire_ok stop (MultiTouch (slice (Suc he) (Suc (he + nl)) frame)
        (map (\<lambda>(a, b). slice a b frame) spans) ttl get) \<and>
      multi_count (MultiTouch (slice (Suc he) (Suc (he + nl)) frame) (map (\<lambda>(a, b). slice a b frame) spans) ttl get)
        = Some n"
    unfolding keys_def [symmetric] using read assms(1) stop len by (auto simp: length_slice_min)
qed (use touch_tail_ok [OF assms(3)] in auto)

lemma multi_set_frame:
  assumes "n \<noteq> 0" and "read_pair_lengths n parts1 = Inr (lens, parts2)"
    and "parse_ttl_and_tag parts2 tagged = Inr (ttl0, tag)" and "pair_spans (Suc (he + nl)) lens = Inr (stop, spans)"
  shows "multi_plan_ok tagged he (n, stop, \<lambda>frame. Inr (MultiSet (slice (Suc he) (Suc (he + nl)) frame)
    (map (\<lambda>(a, b, c). slice a b frame) spans) (map (\<lambda>(a, b, c). slice b c frame) spans) ttl, tag))"
proof (rule multi_plan_okI)
  have read: "length lens = n" "0 \<notin> set (map fst lens)"
    using read_pair_lengths_ok [OF assms(2)] by auto
  have stop: "stop = Suc (he + nl) + sum_list (map fst lens) + sum_list (map snd lens)"
    using pair_spans_ok [OF assms(4), of "replicate stop undefined"] by simp
  then show "he < stop" by simp
  fix frame :: bytes
  assume len: "length frame = stop"
  define keys where "keys = map (\<lambda>(a, b, c). slice a b frame) spans"
  define vals where "vals = map (\<lambda>(a, b, c). slice b c frame) spans"
  have "map length keys = map fst lens" "map length vals = map snd lens"
    using pair_spans_ok [OF assms(4)] len by (simp_all add: keys_def vals_def)
  from keys_ok [OF this(1)] keys_ok [OF this(2)]
  show "wire_ok stop (MultiSet (slice (Suc he) (Suc (he + nl)) frame)
        (map (\<lambda>(a, b, c). slice a b frame) spans) (map (\<lambda>(a, b, c). slice b c frame) spans) ttl) \<and>
      multi_count (MultiSet (slice (Suc he) (Suc (he + nl)) frame)
        (map (\<lambda>(a, b, c). slice a b frame) spans) (map (\<lambda>(a, b, c). slice b c frame) spans) ttl) = Some n"
    unfolding keys_def [symmetric] vals_def [symmetric] using read assms(1) stop len by (auto simp: length_slice_min)
qed (use ttl_and_tag_ok [OF assms(3)] in auto)

lemma parse_multi_get_ok: "parse_multi_get tagged he parts = Inr p \<Longrightarrow> multi_plan_ok tagged he p"
  by (auto simp: parse_multi_get_def result_iffs Let_def checked_add_def split: if_splits)
     (rule multi_get_frame; assumption?; simp)

lemma parse_multi_touch_ok: "parse_multi_touch tagged he parts = Inr p \<Longrightarrow> multi_plan_ok tagged he p"
  by (auto simp: parse_multi_touch_def result_iffs Let_def checked_add_def split: if_splits)
     (rule multi_touch_frame; assumption?; simp)

lemma parse_multi_set_ok: "parse_multi_set tagged he parts = Inr p \<Longrightarrow> multi_plan_ok tagged he p"
  by (auto simp: parse_multi_set_def result_iffs Let_def checked_add_def split: if_splits)
     (rule multi_set_frame; assumption?; simp)

section \<open>The migration frame\<close>

text \<open>The roster scan without its progress: where \<open>n\<close> entries from \<open>cursor\<close> on end.\<close>

fun scan_from :: "bytes \<Rightarrow> nat \<Rightarrow> nat \<Rightarrow> parse_error + nat" where
  "scan_from input 0 cursor = Inr cursor"
| "scan_from input (Suc n) cursor = and_then (next_joined_entry input cursor) (\<lambda>e. scan_from input n (je_end e))"

definition migrate_result :: "bytes \<Rightarrow> nat \<Rightarrow> migrate_header \<Rightarrow> (parse_error + command \<times> nat option) \<times> bytes" where
  "migrate_result input header_end header =
     (if mh_token_length header = 0 \<or> mh_joining_name_length header = 0
         \<or> mh_joining_addr_length header = 0 \<or> mh_joining_token_length header = 0
      then (Inl EmptyField, input)
      else case field_ends (header_end + 1) [mh_token_length header, mh_joining_name_length header,
               mh_joining_addr_length header, mh_joining_token_length header] of
          Inl e \<Rightarrow> (Inl e, input)
        | Inr ends \<Rightarrow>
            if length input < ends ! 3 then (Inl Incomplete, input)
            else case scan_from input (mh_joined_count header) (ends ! 3) of
                Inl e \<Rightarrow> (Inl e, input)
              | Inr cursor \<Rightarrow> (read_migrate (header_end + 1) header ends (take cursor input), drop cursor input))"

lemma next_joined_entry_ok:
  assumes "next_joined_entry input cursor = Inr e"
  shows "cursor < je_end e" and "je_end e \<le> length input" and "0 < je_name_length e" and "0 < je_addr_length e"
    and "je_name_start e + je_name_length e = je_addr_start e" and "je_addr_start e + je_addr_length e = je_end e"
  using assms by (auto simp: next_joined_entry_def result_iffs Let_def field_ends_two split: if_splits option.splits)

lemma scan_from_bounds:
  "scan_from input n cursor = Inr stop \<Longrightarrow> cursor \<le> stop \<and> (cursor \<le> length input \<longrightarrow> stop \<le> length input)"
proof (induction n arbitrary: cursor)
  case (Suc n)
  then obtain e where "next_joined_entry input cursor = Inr e" "scan_from input n (je_end e) = Inr stop"
    by (auto simp: result_iffs)
  then show ?case using Suc.IH next_joined_entry_ok(1,2) by fastforce
qed simp

lemma read_joined_ok:
  "read_joined frame n at = Inr joined \<Longrightarrow>
     length joined = n \<and> list_all (\<lambda>(a, b). wire_token a \<and> wire_token b) joined"
proof (induction n arbitrary: at joined)
  case (Suc n)
  then obtain e name addr rest where e: "next_joined_entry frame at = Inr e"
    and t: "decode_field frame (je_name_start e) (je_name_length e) = Inr name"
      "decode_field frame (je_addr_start e) (je_addr_length e) = Inr addr"
    and rest: "read_joined frame n (je_end e) = Inr rest" "joined = (name, addr) # rest"
    by (auto simp: result_iffs)
  note k = next_joined_entry_ok [OF e]
  have "wire_token name" "wire_token addr"
    by (rule decode_ok [OF t(1)], use k in auto) (rule decode_ok [OF t(2)], use k in auto)
  then show ?case using Suc.IH [OF rest(1)] rest(2) by simp
qed simp

lemma migrate_result_ok:
  assumes "migrate_result input he header = (Inr (cmd, tag), rest)"
    and "mh_joined_count header \<le> MAX_ROSTER_ENTRIES" and "mh_replication header \<noteq> 0"
  shows "\<exists>n \<le> length input. he < n \<and> rest = drop n input \<and> read_ok tagged n (Inr (cmd, tag))"
proof -
  let ?t = "mh_token_length header" and ?n = "mh_joining_name_length header"
    and ?a = "mh_joining_addr_length header" and ?j = "mh_joining_token_length header"
  obtain cursor where len: "?t \<noteq> 0" "?n \<noteq> 0" "?a \<noteq> 0" "?j \<noteq> 0"
    and fits: "he + 1 + ?t + ?n + ?a + ?j \<le> length input"
    and scan: "scan_from input (mh_joined_count header) (he + 1 + ?t + ?n + ?a + ?j) = Inr cursor"
    and read: "read_migrate (he + 1) header [he + 1 + ?t, he + 1 + ?t + ?n, he + 1 + ?t + ?n + ?a, he + 1 + ?t + ?n + ?a + ?j]
        (take cursor input) = Inr (cmd, tag)"
    and rest: "rest = drop cursor input"
    using assms(1) by (auto simp: migrate_result_def field_ends_four split: if_splits sum.splits)
  have cursor: "he + 1 + ?t + ?n + ?a + ?j \<le> cursor" "cursor \<le> length input"
    using scan_from_bounds [OF scan] fits by auto
  let ?frame = "take cursor input"
  obtain token name addr jtoken joined where
    t: "decode_field ?frame (he + 1) ?t = Inr token" "decode_field ?frame (he + 1 + ?t) ?n = Inr name"
      "decode_field ?frame (he + 1 + ?t + ?n) ?a = Inr addr" "decode_field ?frame (he + 1 + ?t + ?n + ?a) ?j = Inr jtoken"
    and joined: "read_joined ?frame (mh_joined_count header) (he + 1 + ?t + ?n + ?a + ?j) = Inr joined"
    and cmd: "cmd = Migrate token name addr jtoken joined (mh_replication header) (mh_generation header)" "tag = None"
    using read by (auto simp: read_migrate_def result_iffs)
  have "wire_token token" "wire_token name" "wire_token addr" "wire_token jtoken"
    using decode_ok [OF t(1)] decode_ok [OF t(2)] decode_ok [OF t(3)] decode_ok [OF t(4)] len cursor by simp_all
  then show ?thesis
    using read_joined_ok [OF joined] assms(2,3) cursor cmd rest by (intro exI [of _ cursor]) auto
qed

end
