(* ===== verification/Parse_Resume.thy ===== *)
theory Parse_Resume
  imports Parse_Safety
begin

text \<open>
  The parser reads a connection's buffer again each time more bytes have arrived, and carries what it
  has learnt of an unfinished frame in \<^verbatim>\<open>MigrateProgress\<close>. \<open>parse_once\<close> is the parser without that
  memory. The memory is never wrong (\<open>prog_ok\<close>), so resuming gives what reading from scratch
  gives, and what is read does not change when more bytes follow: however the network cuts a request into
  pieces, the same command is read.
\<close>

section \<open>The parser without progress\<close>

definition multi_header :: "bytes \<Rightarrow> bool \<Rightarrow> nat \<Rightarrow> bytes list \<Rightarrow> (bool \<times> (parse_error + multi_plan)) option" where
  "multi_header command tagged header_end parts =
     (if command = ''m'' then Some (False, parse_multi_get tagged header_end parts)
      else if command = ''y'' then Some (False, parse_multi_touch tagged header_end parts)
      else if command = ''o'' then Some (True, parse_multi_set tagged header_end parts)
      else None)"

definition run_multi_once ::
    "bool \<Rightarrow> bool \<Rightarrow> parse_error + multi_plan \<Rightarrow> bytes \<Rightarrow> (parse_error + command \<times> nat option) \<times> bytes" where
  "run_multi_once values charged header input =
     (case header of
        Inl e \<Rightarrow> (Inl e, input)
      | Inr (key_count, stop, build) \<Rightarrow>
          if length input < stop then (Inl Incomplete, input)
          else if \<not> charged then (Inl (ChargeRequired key_count values stop), input)
          else (build (take stop input), drop stop input))"

definition parse_once :: "bytes \<Rightarrow> bool \<Rightarrow> bool \<Rightarrow> (parse_error + command \<times> nat option) \<times> bytes" where
  "parse_once input tagged charged =
     (case find_lf input of
        None \<Rightarrow> (Inl Incomplete, input)
      | Some e \<Rightarrow>
          (case split_at_byte SP (take e input) of
             [] \<Rightarrow> (Inl InvalidCommand, input)
           | command # parts \<Rightarrow>
               (case multi_header command tagged e parts of
                  Some (values, header) \<Rightarrow> run_multi_once values charged header input
                | None \<Rightarrow>
                    if command = ''M'' then
                      (case parse_migrate_header parts of
                         Inl err \<Rightarrow> (Inl err, input) | Inr header \<Rightarrow> migrate_result input e header)
                    else run_plan (parse_simple command tagged e parts) input)))"

text \<open>The results after which the parser is called again with more bytes, or with the frame charged.\<close>

definition waits :: "parse_error + command \<times> nat option \<Rightarrow> bool" where
  "waits r \<longleftrightarrow> (case r of Inl Incomplete \<Rightarrow> True | Inl (ChargeRequired _ _ _) \<Rightarrow> True | _ \<Rightarrow> False)"

section \<open>More bytes change nothing\<close>

lemma slice_split:
  assumes "a \<le> b" and "b \<le> c"
  shows "slice a c bs = slice a b bs @ slice b c bs"
proof -
  have c: "c - a = (b - a) + (c - b)" using assms by simp
  show ?thesis unfolding slice_def c take_add using assms by simp
qed

lemma find_lf_slice:
  assumes "find_lf (slice a b bs) = Some i"
  shows "a + i < length bs" and "a + i < b"
  using find_lf_Some [OF assms] by (auto simp: slice_def)

lemma next_joined_entry_append:
  assumes "cursor \<le> length input" and "next_joined_entry input cursor \<noteq> Inl Incomplete"
  shows "next_joined_entry (input @ extra) cursor = next_joined_entry input cursor"
proof -
  let ?w = "\<lambda>bs. min (length bs) (cursor + MAX_ROSTER_LINE_LEN + 1)"
  show ?thesis
  proof (cases "find_lf (slice cursor (?w input) input)")
    case None
    then have long: "length input - cursor > MAX_ROSTER_LINE_LEN"
      using assms(2) by (auto simp: next_joined_entry_def Let_def split: if_splits)
    then have "?w input = cursor + MAX_ROSTER_LINE_LEN + 1" "?w (input @ extra) = cursor + MAX_ROSTER_LINE_LEN + 1"
      by auto
    moreover from this have "slice cursor (cursor + MAX_ROSTER_LINE_LEN + 1) (input @ extra)
        = slice cursor (cursor + MAX_ROSTER_LINE_LEN + 1) input"
      using long by (intro slice_append) simp
    ultimately show ?thesis using None long by (simp add: next_joined_entry_def Let_def)
  next
    case (Some i)
    have i: "cursor + i < length input" using find_lf_slice(1) [OF Some] .
    have "slice cursor (?w (input @ extra)) (input @ extra)
        = slice cursor (?w input) input @ slice (?w input) (?w (input @ extra)) (input @ extra)"
      using assms(1) slice_append [of "?w input" input cursor extra]
      by (subst slice_split [of cursor "?w input"]) auto
    then have lf: "find_lf (slice cursor (?w (input @ extra)) (input @ extra)) = Some i"
      using find_lf_append [OF Some] by simp
    have line: "slice cursor (cursor + i) (input @ extra) = slice cursor (cursor + i) input"
      using i by (intro slice_append) simp
    show ?thesis
      using assms(2) unfolding next_joined_entry_def Let_def lf Some option.case and_then_simps line
      by (auto simp: and_then_def refuse_if_def split: sum.splits)
  qed
qed

lemma scan_from_append:
  "cursor \<le> length input \<Longrightarrow> scan_from input n cursor \<noteq> Inl Incomplete \<Longrightarrow>
     scan_from (input @ extra) n cursor = scan_from input n cursor"
proof (induction n arbitrary: cursor)
  case (Suc n)
  have step: "next_joined_entry (input @ extra) cursor = next_joined_entry input cursor"
    by (rule next_joined_entry_append) (use Suc.prems in auto)
  show ?case
  proof (cases "next_joined_entry input cursor")
    case (Inr e)
    then show ?thesis
      using Suc.IH [OF next_joined_entry_ok(2) [OF Inr]] Suc.prems(2) step by simp
  qed (simp add: step)
qed simp

lemma migrate_result_append:
  assumes "migrate_result input he header = (r, rest)" and "r \<noteq> Inl Incomplete"
  shows "migrate_result (input @ extra) he header = (r, rest @ extra)"
proof -
  let ?ends = "field_ends (he + 1) [mh_token_length header, mh_joining_name_length header,
               mh_joining_addr_length header, mh_joining_token_length header]"
  show ?thesis
  proof (cases ?ends)
    case (Inl e)
    then show ?thesis using assms by (auto simp: migrate_result_def)
  next
    case (Inr ends)
    show ?thesis
    proof (cases "length input < ends ! 3")
      case True
      then show ?thesis using assms Inr by (auto simp: migrate_result_def split: if_splits)
    next
      case False
      have scan: "scan_from (input @ extra) (mh_joined_count header) (ends ! 3)
          = scan_from input (mh_joined_count header) (ends ! 3)
        \<or> 0 \<in> {mh_token_length header, mh_joining_name_length header, mh_joining_addr_length header,
            mh_joining_token_length header}"
        using scan_from_append [of "ends ! 3" input "mh_joined_count header" extra] False assms Inr
        by (cases "scan_from input (mh_joined_count header) (ends ! 3)") (auto simp: migrate_result_def split: if_splits)
      show ?thesis
      proof (cases "scan_from input (mh_joined_count header) (ends ! 3)")
        case (Inr c)
        then have "c \<le> length input" using scan_from_bounds [OF Inr] False by simp
        then show ?thesis
          using assms \<open>?ends = Inr ends\<close> False scan Inr by (auto simp: migrate_result_def split: if_splits)
      qed (use assms Inr False scan in \<open>auto simp: migrate_result_def split: if_splits\<close>)
    qed
  qed
qed

lemma run_plan_append:
  assumes "run_plan p input = (r, rest)" and "r \<noteq> Inl Incomplete"
  shows "run_plan p (input @ extra) = (r, rest @ extra)"
  using assms by (auto simp: run_plan_def take_frame_def split: sum.splits if_splits)

lemma run_multi_append:
  assumes "run_multi_once values charged header input = (r, rest)" and "r \<noteq> Inl Incomplete"
  shows "run_multi_once values charged header (input @ extra) = (r, rest @ extra)"
  using assms by (auto simp: run_multi_once_def split: sum.splits if_splits)

lemma parse_once_append:
  assumes "parse_once input tagged charged = (r, rest)" and "r \<noteq> Inl Incomplete"
  shows "parse_once (input @ extra) tagged charged = (r, rest @ extra)"
proof (cases "find_lf input")
  case None
  then show ?thesis using assms by (simp add: parse_once_def)
next
  case (Some e)
  have e: "find_lf (input @ extra) = Some e" "take e (input @ extra) = take e input"
    using find_lf_append [OF Some] find_lf_Some [OF Some] by auto
  obtain command parts where f: "split_at_byte SP (take e input) = command # parts"
    by (cases "split_at_byte SP (take e input)") auto
  show ?thesis
  proof (cases "multi_header command tagged e parts")
    case (Some m)
    then show ?thesis
      using assms run_multi_append [OF _ assms(2)] e f \<open>find_lf input = Some e\<close>
      by (auto simp: parse_once_def split: prod.splits)
  next
    case None
    then show ?thesis
      using assms run_plan_append [OF _ assms(2)] migrate_result_append [OF _ assms(2)] e f \<open>find_lf input = Some e\<close>
      by (auto simp: parse_once_def split: if_splits sum.splits)
  qed
qed

section \<open>The progress is never wrong\<close>

text \<open>
  What the progress says of the buffer: where the first line ends or how much of it has been searched
  for its end; where a multi-key frame ends and how many keys it has; where the roster entries already
  scanned end.
\<close>

definition line_ok :: "bytes \<Rightarrow> migrate_progress \<Rightarrow> bool" where
  "line_ok input progress \<longleftrightarrow> (case mp_line_end progress of
     Some e \<Rightarrow> find_lf input = Some e
   | None \<Rightarrow> mp_line_scanned_to progress \<le> length input \<and> LF \<notin> set (take (mp_line_scanned_to progress) input))"

definition frame_ok :: "bool \<Rightarrow> bytes \<Rightarrow> migrate_progress \<Rightarrow> bool" where
  "frame_ok tagged input progress \<longleftrightarrow> (\<forall>stop. mp_frame_end progress = Some stop \<longrightarrow>
     (\<exists>e command parts values build. find_lf input = Some e \<and> split_at_byte SP (take e input) = command # parts
        \<and> multi_header command tagged e parts = Some (values, Inr (mp_frame_keys progress, stop, build))))"

definition roster_ok :: "bytes \<Rightarrow> migrate_progress \<Rightarrow> bool" where
  "roster_ok input progress \<longleftrightarrow> (\<forall>e parts header ends.
     find_lf input = Some e \<longrightarrow> split_at_byte SP (take e input) = ''M'' # parts \<longrightarrow>
     parse_migrate_header parts = Inr header \<longrightarrow>
     field_ends (e + 1) [mh_token_length header, mh_joining_name_length header,
        mh_joining_addr_length header, mh_joining_token_length header] = Inr ends \<longrightarrow>
     mp_header_end progress = e \<longrightarrow>
     mp_entries_done progress \<le> mh_joined_count header
     \<and> ends ! 3 \<le> length input \<and> scan_from input (mp_entries_done progress) (ends ! 3) = Inr (mp_cursor progress))"

text \<open>A scan of roster entries may only begin once the line is known.\<close>

definition prog_ok :: "bool \<Rightarrow> bytes \<Rightarrow> migrate_progress \<Rightarrow> bool" where
  "prog_ok tagged input progress \<longleftrightarrow> line_ok input progress \<and> frame_ok tagged input progress \<and> roster_ok input progress
     \<and> (mp_line_end progress = None \<longrightarrow> mp_header_end progress = 0)"

lemma migrate_line_nonempty:
  assumes "find_lf input = Some e" and "split_at_byte SP (take e input) = ''M'' # parts"
  shows "e \<noteq> 0"
  using assms by (cases e) auto

lemma prog_ok_default [simp]: "prog_ok tagged input progress_default"
  using migrate_line_nonempty by (fastforce simp: prog_ok_def line_ok_def frame_ok_def roster_ok_def)

lemma prog_ok_append:
  assumes "prog_ok tagged input progress"
  shows "prog_ok tagged (input @ extra) progress"
proof -
  have line: "find_lf (input @ extra) = Some e \<and> take e (input @ extra) = take e input" if "find_lf input = Some e" for e
    using find_lf_append [OF that] find_lf_Some [OF that] by auto
  have known: "find_lf input \<noteq> None \<or> mp_header_end progress = 0"
    using assms by (auto simp: prog_ok_def line_ok_def split: option.splits)
  have "line_ok (input @ extra) progress"
    using assms line by (auto simp: prog_ok_def line_ok_def split: option.splits)
  moreover have "frame_ok tagged (input @ extra) progress"
    using assms line unfolding prog_ok_def frame_ok_def by metis
  moreover have "roster_ok (input @ extra) progress"
    unfolding roster_ok_def
  proof (intro allI impI)
    fix e parts header ends
    assume e: "find_lf (input @ extra) = Some e" "split_at_byte SP (take e (input @ extra)) = ''M'' # parts"
      and h: "parse_migrate_header parts = Inr header"
        "field_ends (e + 1) [mh_token_length header, mh_joining_name_length header,
          mh_joining_addr_length header, mh_joining_token_length header] = Inr ends"
        "mp_header_end progress = e"
    have "find_lf input = Some e"
      using known h(3) migrate_line_nonempty [OF e] e(1) line by (cases "find_lf input") auto
    then have "mp_entries_done progress \<le> mh_joined_count header" "ends ! 3 \<le> length input"
        "scan_from input (mp_entries_done progress) (ends ! 3) = Inr (mp_cursor progress)"
      using assms e(2) h line unfolding prog_ok_def roster_ok_def by metis+
    then show "mp_entries_done progress \<le> mh_joined_count header \<and> ends ! 3 \<le> length (input @ extra)
        \<and> scan_from (input @ extra) (mp_entries_done progress) (ends ! 3) = Inr (mp_cursor progress)"
      using scan_from_append [of "ends ! 3" input "mp_entries_done progress" extra] by simp
  qed
  ultimately show ?thesis using assms by (simp add: prog_ok_def)
qed

lemma find_header_line_end_ok:
  assumes "line_ok input progress"
  shows "\<exists>p. find_header_line_end input progress = (find_lf input, p) \<and> line_ok input p
    \<and> (find_lf input \<noteq> None \<longrightarrow> mp_line_end p = find_lf input)
    \<and> (find_lf input = None \<longrightarrow> mp_line_end p = None)
    \<and> mp_header_end p = mp_header_end progress \<and> mp_joined_count p = mp_joined_count progress
    \<and> mp_cursor p = mp_cursor progress \<and> mp_entries_done p = mp_entries_done progress
    \<and> mp_frame_end p = mp_frame_end progress \<and> mp_frame_keys p = mp_frame_keys progress"
proof (cases "mp_line_end progress")
  case (Some e)
  then have "find_lf input = Some e" using assms by (simp add: line_ok_def)
  then show ?thesis
    using Some assms find_lf_Some [of input e] by (simp add: find_header_line_end_def)
next
  case None
  let ?n = "mp_line_scanned_to progress"
  have n: "?n \<le> length input" "LF \<notin> set (take ?n input)" using assms None by (simp_all add: line_ok_def)
  have "position (\<lambda>b. b = LF) (take ?n input) = None" using n(2) by (auto simp: position_None_iff)
  then have lf: "find_lf input = map_option (\<lambda>i. ?n + i) (find_lf (drop ?n input))"
    using position_append [of "\<lambda>b. b = LF" "take ?n input" "drop ?n input"] n(1) by (simp add: find_lf_def min_def)
  show ?thesis
  proof (cases "find_lf (drop ?n input)")
    case none: None
    then have "LF \<notin> set input" using lf by (simp add: find_lf_None [symmetric])
    then show ?thesis
      using None none lf n by (auto simp: find_header_line_end_def line_ok_def Let_def)
  next
    case (Some i)
    then show ?thesis
      using None lf n by (auto simp: find_header_line_end_def line_ok_def Let_def)
  qed
qed

text \<open>The multi-key arms: the gate only repeats what reading the header again would say.\<close>

lemma run_multi_plan_ok:
  assumes "\<And>stop. mp_frame_end p = Some stop \<Longrightarrow> \<exists>build. header = Inr (mp_frame_keys p, stop, build)"
  shows "\<exists>p'. run_multi_plan values charged (\<lambda>_. header) input p
        = (fst (run_multi_once values charged header input), snd (run_multi_once values charged header input), p')
    \<and> (p' = p \<or> (\<exists>n stop build. header = Inr (n, stop, build) \<and> p' = p\<lparr>mp_frame_end := Some stop, mp_frame_keys := n\<rparr>))"
proof (cases header)
  case (Inl e)
  then have "mp_frame_end p = None" using assms by (cases "mp_frame_end p") auto
  then show ?thesis using Inl by (simp add: run_multi_plan_def run_multi_once_def multi_frame_gate_def)
next
  case (Inr h)
  obtain n stop build where h: "h = (n, stop, build)" by (cases h) auto
  have "mp_frame_end p = None \<or> mp_frame_end p = Some stop \<and> mp_frame_keys p = n"
    using assms Inr h by (cases "mp_frame_end p") auto
  then show ?thesis
    using Inr h
    by (auto simp: run_multi_plan_def run_multi_once_def multi_frame_gate_def run_plan_def take_frame_def Let_def)
qed

text \<open>The roster scan, with and without its progress.\<close>

lemma scan_entries_ok:
  "\<exists>p'. scan_entries input n p = (and_then (scan_from input n (mp_cursor p)) (\<lambda>_. Inr ()), p')
    \<and> (\<exists>i \<le> n. scan_from input i (mp_cursor p) = Inr (mp_cursor p')
        \<and> p' = p\<lparr>mp_cursor := mp_cursor p', mp_entries_done := mp_entries_done p + i\<rparr>
        \<and> (\<forall>c. scan_from input n (mp_cursor p) = Inr c \<longrightarrow> i = n))"
proof (induction n arbitrary: p)
  case 0
  then show ?case by auto
next
  case (Suc n)
  show ?case
  proof (cases "next_joined_entry input (mp_cursor p)")
    case (Inl e)
    then show ?thesis by (auto intro: exI [of _ 0])
  next
    case (Inr e)
    let ?p = "p\<lparr>mp_cursor := je_end e, mp_entries_done := mp_entries_done p + 1\<rparr>"
    obtain p' i where "scan_entries input n ?p = (and_then (scan_from input n (je_end e)) (\<lambda>_. Inr ()), p')"
        "i \<le> n" "scan_from input i (je_end e) = Inr (mp_cursor p')"
        "p' = ?p\<lparr>mp_cursor := mp_cursor p', mp_entries_done := mp_entries_done ?p + i\<rparr>"
        "\<forall>c. scan_from input n (je_end e) = Inr c \<longrightarrow> i = n"
      using Suc.IH [of ?p] by auto
    then show ?thesis using Inr by (intro exI [of _ p'] conjI exI [of _ "Suc i"]) auto
  qed
qed

lemma scan_from_add:
  "scan_from input (m + n) cursor = and_then (scan_from input m cursor) (scan_from input n)"
  by (induction m arbitrary: cursor) (auto simp: and_then_def split: sum.splits)

lemma parse_migrate_ok:
  assumes "\<And>ends. field_ends (he + 1) [mh_token_length header, mh_joining_name_length header,
        mh_joining_addr_length header, mh_joining_token_length header] = Inr ends \<Longrightarrow> mp_header_end p = he \<Longrightarrow>
      mp_entries_done p \<le> mh_joined_count header \<and> ends ! 3 \<le> length input
      \<and> scan_from input (mp_entries_done p) (ends ! 3) = Inr (mp_cursor p)"
  shows "\<exists>p'. parse_migrate input he header p = (fst (migrate_result input he header), snd (migrate_result input he header), p')
    \<and> (p' = p \<or> (mp_header_end p' = he \<and> mp_line_end p' = Some he \<and> mp_frame_end p' = None \<and>
        (\<forall>ends. field_ends (he + 1) [mh_token_length header, mh_joining_name_length header,
            mh_joining_addr_length header, mh_joining_token_length header] = Inr ends \<longrightarrow>
          mp_entries_done p' \<le> mh_joined_count header \<and> ends ! 3 \<le> length input
          \<and> scan_from input (mp_entries_done p') (ends ! 3) = Inr (mp_cursor p'))))"
proof -
  let ?ends = "field_ends (he + 1) [mh_token_length header, mh_joining_name_length header,
        mh_joining_addr_length header, mh_joining_token_length header]"
  let ?zero = "mh_token_length header = 0 \<or> mh_joining_name_length header = 0
         \<or> mh_joining_addr_length header = 0 \<or> mh_joining_token_length header = 0"
  show ?thesis
  proof (cases "?zero \<or> (\<exists>e. ?ends = Inl e) \<or> (\<exists>ends. ?ends = Inr ends \<and> length input < ends ! 3)")
    case True
    then show ?thesis by (auto simp: parse_migrate_def migrate_result_def Let_def)
  next
    case False
    then obtain ends where ends: "?ends = Inr ends" "ends ! 3 \<le> length input" by (cases ?ends) auto
    let ?count = "mh_joined_count header"
    define resumable where "resumable = (mp_header_end p = he \<and> mp_joined_count p = ?count
        \<and> mp_cursor p \<ge> ends ! 3 \<and> mp_entries_done p \<le> ?count \<and> length input \<ge> mp_cursor p)"
    define cursor where "cursor = (if resumable then mp_cursor p else ends ! 3)"
    define i where "i = (if resumable then mp_entries_done p else 0)"
    have i: "i \<le> ?count" "scan_from input i (ends ! 3) = Inr cursor"
      using assms [OF ends(1)] by (auto simp: i_def cursor_def resumable_def)
    define q where "q = \<lparr>mp_header_end = he, mp_joined_count = ?count, mp_cursor = cursor,
        mp_entries_done = i, mp_line_end = Some he, mp_line_scanned_to = mp_line_scanned_to p,
        mp_frame_end = None, mp_frame_keys = 0\<rparr>"
    have whole: "scan_from input ?count (ends ! 3) = scan_from input (?count - i) cursor"
      using scan_from_add [of input i "?count - i" "ends ! 3"] i by simp
    obtain q' j where q': "scan_entries input (?count - i) q = (and_then (scan_from input (?count - i) cursor) (\<lambda>_. Inr ()), q')"
        "j \<le> ?count - i" "scan_from input j cursor = Inr (mp_cursor q')"
        "q' = q\<lparr>mp_cursor := mp_cursor q', mp_entries_done := mp_entries_done q + j\<rparr>"
        "\<forall>c. scan_from input (?count - i) cursor = Inr c \<longrightarrow> j = ?count - i"
      using scan_entries_ok [of input "?count - i" q] by (auto simp: q_def)
    have fields: "mp_header_end q' = he" "mp_line_end q' = Some he" "mp_frame_end q' = None" "mp_entries_done q' = i + j"
      by (subst q'(4), simp add: q_def)+
    have part: "scan_from input (i + j) (ends ! 3) = Inr (mp_cursor q')"
      using scan_from_add [of input i j "ends ! 3"] i q'(3) by simp
    have run: "parse_migrate input he header p = (case and_then (scan_from input (?count - i) cursor) (\<lambda>_. Inr ()) of
        Inl e \<Rightarrow> (Inl e, input, q')
      | Inr _ \<Rightarrow> (read_migrate (he + 1) header ends (take (mp_cursor q') input), drop (mp_cursor q') input, q'))"
      using False ends q'(1)
      by (cases "scan_from input (?count - i) cursor") (simp_all add: parse_migrate_def Let_def resumable_def [symmetric] cursor_def [symmetric] i_def [symmetric] q_def [symmetric])
    have "parse_migrate input he header p = (fst (migrate_result input he header), snd (migrate_result input he header), q')"
      using False ends whole q'(3, 5) unfolding run
      by (cases "scan_from input (?count - i) cursor") (auto simp: migrate_result_def)
    then show ?thesis
      using fields part ends i(1) q'(2) by (intro exI [of _ q'] conjI disjI2) auto
  qed
qed

section \<open>What is read\<close>

lemma find_lf_take: "find_lf bs = Some i \<Longrightarrow> i < n \<Longrightarrow> find_lf (take n bs) = Some i"
  using find_lf_append [of "take n bs" _ "drop n bs"] find_lf_Some [of bs i]
  by (cases "find_lf (take n bs)") (auto simp: find_lf_None in_set_conv_nth)

lemma next_joined_entry_take:
  assumes e: "next_joined_entry input cursor = Inr e" and c: "je_end e \<le> c" "c \<le> length input"
  shows "next_joined_entry (take c input) cursor = Inr e"
proof -
  let ?w = "\<lambda>bs. min (length bs) (cursor + MAX_ROSTER_LINE_LEN + 1)"
  obtain i where i: "find_lf (slice cursor (?w input) input) = Some i" "je_name_start e = cursor + i + 1"
    using e by (auto simp: next_joined_entry_def result_iffs Let_def field_ends_two split: if_splits option.splits)
  have le: "cursor + i < c" using next_joined_entry_ok [OF e] i(2) c by simp
  have "slice cursor (?w (take c input)) (take c input) = take (?w (take c input) - cursor) (slice cursor (?w input) input)"
    using c by (auto simp: slice_def drop_take min_def)
  moreover have "i < ?w (take c input) - cursor"
    using le c find_lf_slice [OF i(1)] by auto
  ultimately have lf: "find_lf (slice cursor (?w (take c input)) (take c input)) = Some i"
    using find_lf_take [OF i(1)] by simp
  have line: "slice cursor (cursor + i) (take c input) = slice cursor (cursor + i) input"
    using le by (intro slice_take) simp
  show ?thesis
    using e c unfolding next_joined_entry_def Let_def lf i(1) option.case and_then_simps line
    by (auto simp: result_iffs field_ends_two split: if_splits)
qed

lemma read_joined_error:
  assumes "scan_from input n at = Inr c" and "c \<le> length input" and "read_joined (take c input) n at = Inl e"
  shows "e = InvalidUtf8"
  using assms
proof (induction n arbitrary: at)
  case (Suc n)
  then obtain j where j: "next_joined_entry input at = Inr j" "scan_from input n (je_end j) = Inr c"
    by (auto simp: result_iffs)
  have "je_end j \<le> c" using scan_from_bounds [OF j(2)] by simp
  then show ?case
    using Suc next_joined_entry_take [OF j(1)] j(2) by (auto simp: and_then_Inl_iff dest: decode_field_error)
qed simp

lemma migrate_waits:
  assumes "migrate_result input he header = (r, rest)" and "waits r"
  shows "rest = input"
proof (rule ccontr)
  assume "rest \<noteq> input"
  then obtain ends c where scan: "scan_from input (mh_joined_count header) (ends ! 3) = Inr c" "ends ! 3 \<le> length input"
    and r: "r = read_migrate (he + 1) header ends (take c input)"
    using assms(1) by (auto simp: migrate_result_def split: if_splits sum.splits)
  have "c \<le> length input" using scan_from_bounds [OF scan(1)] scan(2) by simp
  then have "e = InvalidUtf8" if "r = Inl e" for e
    using that r read_joined_error [OF scan(1)] unfolding read_migrate_def
    by (auto simp: and_then_Inl_iff dest: decode_field_error)
  then show False using assms(2) by (cases r) (auto simp: waits_def)
qed

lemma run_plan_once_ok:
  assumes "run_plan p input = (r, rest)" and "\<And>x. p = Inr x \<Longrightarrow> plan_ok tagged he x"
  shows "(waits r \<longrightarrow> rest = input)
    \<and> (\<forall>cmd tag. r = Inr (cmd, tag) \<longrightarrow> (\<exists>n \<le> length input. rest = drop n input \<and> read_ok tagged n r))"
proof (cases "\<exists>stop build. p = Inr (stop, build) \<and> stop \<le> length input")
  case True
  then obtain stop build where p: "p = Inr (stop, build)" "stop \<le> length input" by blast
  then have r: "r = build (take stop input)" "rest = drop stop input"
    using assms(1) by (simp_all add: run_plan_def take_frame_def)
  have ok: "read_ok tagged stop r" using assms(2) [OF p(1)] p(2) r(1) by (simp add: plan_ok_def)
  then have "\<not> waits r" by (cases r) (auto simp: read_ok_def waits_def)
  then show ?thesis using ok p(2) r(2) by blast
next
  case False
  then show ?thesis using assms(1) by (auto simp: run_plan_def take_frame_def split: sum.splits)
qed

lemma run_multi_once_ok:
  assumes "run_multi_once values charged header input = (r, rest)" and "\<And>x. header = Inr x \<Longrightarrow> multi_plan_ok tagged he x"
  shows "(waits r \<longrightarrow> rest = input)
    \<and> (\<forall>cmd tag. r = Inr (cmd, tag) \<longrightarrow> charged \<and> (\<exists>n \<le> length input. rest = drop n input \<and> read_ok tagged n r))"
proof (cases "charged \<and> (\<exists>k stop build. header = Inr (k, stop, build) \<and> stop \<le> length input)")
  case True
  then obtain k stop build where p: "header = Inr (k, stop, build)" "stop \<le> length input" "charged" by blast
  then have r: "r = build (take stop input)" "rest = drop stop input"
    using assms(1) by (simp_all add: run_multi_once_def)
  have ok: "read_ok tagged stop r"
    using assms(2) [OF p(1)] p(2) r(1) by (simp add: multi_plan_ok_def plan_ok_def)
  then have "\<not> waits r" by (cases r) (auto simp: read_ok_def waits_def)
  then show ?thesis using ok p(2, 3) r(2) by blast
next
  case False
  then show ?thesis using assms(1) by (auto simp: run_multi_once_def split: sum.splits if_splits)
qed

lemma multi_header_ok:
  "multi_header command tagged he parts = Some (values, Inr x) \<Longrightarrow> multi_plan_ok tagged he x"
  by (auto simp: multi_header_def parse_multi_get_ok parse_multi_touch_ok parse_multi_set_ok split: if_splits)

lemma migrate_header_ok:
  "parse_migrate_header parts = Inr header \<Longrightarrow> mh_joined_count header \<le> MAX_ROSTER_ENTRIES \<and> mh_replication header \<noteq> 0"
  by (auto simp: parse_migrate_header_def result_iffs Let_def case_prod_unfold)

text \<open>A request that is read is a prefix of the buffer and holds what \<open>wire_ok\<close> says; one that waits leaves
  the buffer as it was.\<close>

lemma parse_once_ok:
  assumes "parse_once input tagged charged = (r, rest)"
  shows "(waits r \<longrightarrow> rest = input)
    \<and> (\<forall>cmd tag. r = Inr (cmd, tag) \<longrightarrow> (\<exists>n \<le> length input. rest = drop n input \<and> read_ok tagged n r))"
proof (cases "find_lf input")
  case None
  then show ?thesis using assms by (auto simp: parse_once_def)
next
  case (Some e)
  obtain command parts where f: "split_at_byte SP (take e input) = command # parts"
    by (cases "split_at_byte SP (take e input)") auto
  consider (multi) vs header where "multi_header command tagged e parts = Some (vs, header)"
    | (migrate) "multi_header command tagged e parts = None" "command = ''M''"
    | (simple) "multi_header command tagged e parts = None" "command \<noteq> ''M''"
    by (metis not_None_eq surj_pair)
  then show ?thesis
  proof cases
    case multi
    then have "run_multi_once vs charged header input = (r, rest)" using assms Some f by (simp add: parse_once_def)
    moreover have "multi_plan_ok tagged e x" if "header = Inr x" for x
      using multi_header_ok multi that by simp
    ultimately show ?thesis using run_multi_once_ok by blast
  next
    case simple
    then have "run_plan (parse_simple command tagged e parts) input = (r, rest)" using assms Some f by (simp add: parse_once_def)
    then show ?thesis by (rule run_plan_once_ok) (rule parse_simple_ok)
  next
    case migrate
    show ?thesis
    proof (cases "parse_migrate_header parts")
      case (Inr header)
      then have m: "migrate_result input e header = (r, rest)" using migrate assms Some f by (simp add: parse_once_def)
      show ?thesis
        using migrate_waits [OF m] migrate_result_ok [of input e header _ _ rest tagged] m migrate_header_ok [OF Inr] by blast
    qed (use migrate assms Some f in \<open>auto simp: parse_once_def multi_header_def\<close>)
  qed
qed

section \<open>Resuming\<close>

lemma multi_header_M [simp]: "multi_header ''M'' tagged e parts = None"
  by (simp add: multi_header_def)

lemma parse_command_multi:
  "multi_header command tagged e parts = Some (vs, header) \<Longrightarrow>
     parse_command command parts e input tagged q charged = run_multi_plan vs charged (\<lambda>_. header) input q"
  unfolding multi_header_def parse_command_def
  by (cases "command = ''m''"; cases "command = ''y''"; cases "command = ''o''") simp_all

lemma parse_command_simple:
  assumes "multi_header command tagged e parts = None" and "command \<noteq> ''M''"
  shows "parse_command command parts e input tagged q charged = (fst (run_plan (parse_simple command tagged e parts) input),
     snd (run_plan (parse_simple command tagged e parts) input), q)"
proof -
  have "command \<noteq> ''m''" "command \<noteq> ''y''" "command \<noteq> ''o''" using assms(1) by (auto simp: multi_header_def)
  then show ?thesis using assms(2) by (simp add: parse_command_def case_prod_unfold Let_def)
qed

text \<open>One call, by the kind of the command: the result is that of \<open>parse_once\<close>, the progress stays right.\<close>

definition resumes :: "bool \<Rightarrow> bool \<Rightarrow> bytes \<Rightarrow> parsed \<Rightarrow> bool" where
  "resumes tagged charged input r \<longleftrightarrow> (\<exists>p. r = (fst (parse_once input tagged charged), snd (parse_once input tagged charged), p)
     \<and> prog_ok tagged input p)"

lemma prog_okI:
  assumes "find_lf input = Some e" and "mp_line_end p = Some e" and "frame_ok tagged input p" and "roster_ok input p"
  shows "prog_ok tagged input p"
  using assms by (simp add: prog_ok_def line_ok_def)

lemma resumes_multi:
  assumes e: "find_lf input = Some e" and f: "split_at_byte SP (take e input) = command # parts"
    and m: "multi_header command tagged e parts = Some (vs, header)"
    and q: "mp_line_end q = Some e" "frame_ok tagged input q"
  shows "resumes tagged charged input (parse_command command parts e input tagged q charged)"
proof -
  have once: "parse_once input tagged charged = run_multi_once vs charged header input"
    using m e f by (simp add: parse_once_def)
  have known: "\<exists>build. header = Inr (mp_frame_keys q, stop, build)" if "mp_frame_end q = Some stop" for stop
    using q(2) that m e f by (auto simp: frame_ok_def)
  obtain q' where q': "run_multi_plan vs charged (\<lambda>_. header) input q = (fst (run_multi_once vs charged header input),
        snd (run_multi_once vs charged header input), q')"
      "q' = q \<or> (\<exists>n stop build. header = Inr (n, stop, build) \<and> q' = q\<lparr>mp_frame_end := Some stop, mp_frame_keys := n\<rparr>)"
    using run_multi_plan_ok [OF known, of vs charged input] by blast
  have "command \<noteq> ''M''" using m by auto
  then have "roster_ok input q'" using e f by (auto simp: roster_ok_def)
  moreover have "frame_ok tagged input q'" using q'(2) q(2) m e f by (auto simp: frame_ok_def)
  ultimately have "prog_ok tagged input q'"
    using q'(2) q(1) by (intro prog_okI [OF e]) auto
  then show ?thesis by (simp add: resumes_def once parse_command_multi [OF m] q'(1))
qed

lemma resumes_migrate:
  assumes e: "find_lf input = Some e" and f: "split_at_byte SP (take e input) = ''M'' # parts"
    and h: "parse_migrate_header parts = Inr header"
    and q: "mp_line_end q = Some e" "frame_ok tagged input q" "roster_ok input q"
  shows "resumes tagged charged input (parse_migrate input e header q)"
proof -
  let ?ends = "field_ends (e + 1) [mh_token_length header, mh_joining_name_length header,
    mh_joining_addr_length header, mh_joining_token_length header]"
  have once: "parse_once input tagged charged = migrate_result input e header"
    using h e f by (simp add: parse_once_def)
  have pre: "mp_entries_done q \<le> mh_joined_count header \<and> ends ! 3 \<le> length input
      \<and> scan_from input (mp_entries_done q) (ends ! 3) = Inr (mp_cursor q)"
    if "?ends = Inr ends" "mp_header_end q = e" for ends
    using q(3) that h e f unfolding roster_ok_def by blast
  obtain q' where q': "parse_migrate input e header q
        = (fst (migrate_result input e header), snd (migrate_result input e header), q')"
      "q' = q \<or> (mp_header_end q' = e \<and> mp_line_end q' = Some e \<and> mp_frame_end q' = None \<and>
        (\<forall>ends. ?ends = Inr ends \<longrightarrow> mp_entries_done q' \<le> mh_joined_count header \<and> ends ! 3 \<le> length input
          \<and> scan_from input (mp_entries_done q') (ends ! 3) = Inr (mp_cursor q')))"
    using parse_migrate_ok [OF pre] by blast
  from q'(2) have "prog_ok tagged input q'"
  proof
    assume "q' = q"
    then show ?thesis using prog_okI [OF e q] by simp
  next
    assume new: "mp_header_end q' = e \<and> mp_line_end q' = Some e \<and> mp_frame_end q' = None \<and>
        (\<forall>ends. ?ends = Inr ends \<longrightarrow> mp_entries_done q' \<le> mh_joined_count header \<and> ends ! 3 \<le> length input
          \<and> scan_from input (mp_entries_done q') (ends ! 3) = Inr (mp_cursor q'))"
    have "roster_ok input q'" using new e f h by (auto simp: roster_ok_def)
    then show ?thesis using new by (intro prog_okI [OF e]) (auto simp: frame_ok_def)
  qed
  then show ?thesis by (simp add: resumes_def once q'(1))
qed

lemma resumes_command:
  assumes e: "find_lf input = Some e" and f: "split_at_byte SP (take e input) = command # parts"
    and q: "mp_line_end q = Some e" "frame_ok tagged input q" "roster_ok input q"
  shows "resumes tagged charged input (parse_command command parts e input tagged q charged)"
proof -
  note okq = prog_okI [OF e q]
  consider (multi) vs header where "multi_header command tagged e parts = Some (vs, header)"
    | (migrate) "multi_header command tagged e parts = None" "command = ''M''"
    | (simple) "multi_header command tagged e parts = None" "command \<noteq> ''M''"
    by (metis not_None_eq surj_pair)
  then show ?thesis
  proof cases
    case multi
    then show ?thesis using resumes_multi [OF e f _ q(1,2)] by blast
  next
    case simple
    have "parse_once input tagged charged = run_plan (parse_simple command tagged e parts) input"
      using simple e f by (simp add: parse_once_def)
    then show ?thesis using okq by (simp add: resumes_def parse_command_simple [OF simple])
  next
    case migrate
    show ?thesis
    proof (cases "parse_migrate_header parts")
      case (Inl err)
      then show ?thesis
        using migrate okq e f by (simp add: resumes_def parse_command_def parse_once_def)
    next
      case (Inr header)
      have "parse_command command parts e input tagged q charged = parse_migrate input e header q"
        using migrate Inr by (simp add: parse_command_def)
      then show ?thesis using resumes_migrate [OF e _ Inr q] f migrate(2) by simp
    qed
  qed
qed

lemma parse_with_mode_once:
  assumes ok: "prog_ok tagged input p"
  shows "resumes tagged charged input (parse_with_mode input tagged p charged)"
proof -
  obtain q where q: "find_header_line_end input p = (find_lf input, q)" "line_ok input q"
      "find_lf input \<noteq> None \<longrightarrow> mp_line_end q = find_lf input"
    and same: "mp_header_end q = mp_header_end p" "mp_joined_count q = mp_joined_count p" "mp_cursor q = mp_cursor p"
      "mp_entries_done q = mp_entries_done p" "mp_frame_end q = mp_frame_end p" "mp_frame_keys q = mp_frame_keys p"
    using find_header_line_end_ok [of input p] ok unfolding prog_ok_def by blast
  have okq: "frame_ok tagged input q" "roster_ok input q"
    using ok same by (simp_all add: prog_ok_def frame_ok_def roster_ok_def)
  show ?thesis
  proof (cases "find_lf input")
    case None
    then have "mp_header_end q = 0"
      using ok same(1) by (auto simp: prog_ok_def line_ok_def split: option.splits)
    then have "prog_ok tagged input q" using q(2) okq by (simp add: prog_ok_def)
    then show ?thesis using None q(1) by (simp add: resumes_def parse_with_mode_def parse_once_def)
  next
    case (Some e)
    obtain command parts where f: "split_at_byte SP (take e input) = command # parts"
      by (cases "split_at_byte SP (take e input)") auto
    have "parse_with_mode input tagged p charged = parse_command command parts e input tagged q charged"
      using q(1) Some f by (simp add: parse_with_mode_def)
    then show ?thesis using resumes_command [OF Some f _ okq] q(3) Some by simp
  qed
qed

end
