(* ===== verification/Parse_Props.thy ===== *)
theory Parse_Props
  imports Parse_Resume
begin

text \<open>
  The properties of the request parser on arbitrary bytes: framing does not depend on how the bytes
  arrive, what is accepted is bounded, an unfinished request is left alone, and a multi-key frame is
  announced with its exact size before it is built.
\<close>

section \<open>Who asks for a charge\<close>

text \<open>Only the gate of the multi-key frames does: no other step of the parser returns \<open>ChargeRequired\<close>.\<close>

definition chargeless :: "parse_error + 'a \<Rightarrow> bool" where
  "chargeless r \<longleftrightarrow> (\<forall>n values len. r \<noteq> Inl (ChargeRequired n values len))"

lemma chargeless_simps [simp]:
  "chargeless (Inr x)" "chargeless (Inl InvalidCommand)" "chargeless (Inl InvalidLength)" "chargeless (Inl EmptyKey)"
  "chargeless (Inl EmptySecret)" "chargeless (Inl EmptyField)" "chargeless (Inl InvalidUtf8)"
  "chargeless (Inl Incomplete)"
  by (simp_all add: chargeless_def)

lemma chargeless_and_then: "chargeless a \<Longrightarrow> (\<And>x. chargeless (f x)) \<Longrightarrow> chargeless (and_then a f)"
  by (cases a) (auto simp: chargeless_def)

lemma chargeless_pair:
  "(\<And>a b. p = (a, b) \<Longrightarrow> chargeless (f a b)) \<Longrightarrow> chargeless (case p of (a, b) \<Rightarrow> f a b)"
  by (cases p) auto

lemmas chargeless_intros = chargeless_and_then chargeless_pair

lemma chargeless_choices [simp]:
  "chargeless (Inl e) \<Longrightarrow> chargeless (refuse_if b e)" "chargeless (Inl e) \<Longrightarrow> chargeless (ok_or x e)"
  by (cases b; simp add: chargeless_def) (cases x; simp add: chargeless_def)

lemma chargeless_basics [simp]:
  "chargeless (parse_length s)" "chargeless (next_part ps)" "chargeless (no_more_parts ps)" "chargeless (decode_field f a b)"
proof -
  show "chargeless (parse_length s)" by (auto simp: chargeless_def dest: parse_length_error)
  show "chargeless (next_part ps)" by (cases ps) simp_all
  show "chargeless (no_more_parts ps)" by (cases ps) simp_all
  show "chargeless (decode_field f a b)" by (auto simp: chargeless_def dest: decode_field_error)
qed

lemma chargeless_fields [simp]:
  "chargeless (next_length ps)" "chargeless (parse_tag s)" "chargeless (parse_ttl s)" "chargeless (field_ends c ls)"
proof -
  show "chargeless (next_length ps)" "chargeless (parse_tag s)" "chargeless (parse_ttl s)"
    by (auto simp: next_length_def parse_tag_def parse_ttl_def intro!: chargeless_intros)
  show "chargeless (field_ends c ls)"
    by (induction ls arbitrary: c) (auto simp: field_ends.simps checked_add_def intro!: chargeless_intros)
qed

lemma chargeless_transpose [simp]: "(\<And>s. chargeless (f s)) \<Longrightarrow> chargeless (transpose_opt f x)"
  by (cases x) (auto intro: chargeless_and_then)

lemma chargeless_hex [simp]: "chargeless (parse_hex s)"
  by (induction s rule: parse_hex.induct) (auto simp: hex_nibble_def intro!: chargeless_intros)

lemma chargeless_collect [simp]: "chargeless (collect_trailing n acc ps)"
  by (induction ps arbitrary: acc) (auto simp: Let_def)

lemma chargeless_tails [simp]:
  "chargeless (parse_trailing_tag ps tagged)" "chargeless (parse_ttl_and_tag ps tagged)"
  "chargeless (parse_touch_tail ps tagged)" "chargeless (pop_tag ps tagged)" "chargeless (parse_cas_condition s b)"
  "chargeless (parse_capabilities ps)"
  by (auto simp: parse_trailing_tag_def parse_ttl_and_tag_def parse_touch_tail_def pop_tag_def
      parse_cas_condition_def parse_capabilities_def Let_def split: list.split intro!: chargeless_intros)

lemma chargeless_keys [simp]: "chargeless (read_key_lengths n ps)" "chargeless (read_pair_lengths n ps)"
  by (induction n arbitrary: ps; auto intro!: chargeless_intros)+

lemma chargeless_spans [simp]: "chargeless (key_spans c ls)" "chargeless (pair_spans c ps)"
proof -
  show "chargeless (key_spans c ls)" by (induction ls arbitrary: c) (auto intro!: chargeless_intros)
  show "chargeless (pair_spans c ps)" by (induction ps arbitrary: c) (auto simp: Let_def intro!: chargeless_intros)
qed

lemma chargeless_multi [simp]:
  "chargeless (parse_multi_get tagged he ps)" "chargeless (parse_multi_touch tagged he ps)"
  "chargeless (parse_multi_set tagged he ps)" "chargeless (parse_migrate_header ps)"
  by (auto simp: parse_multi_get_def parse_multi_touch_def parse_multi_set_def parse_migrate_header_def Let_def
      intro!: chargeless_intros)

lemma chargeless_simple [simp]: "chargeless (parse_simple command tagged he ps)"
proof -
  have "chargeless (parse_auth he ps)" "chargeless (parse_get_delete command tagged he ps)"
    "chargeless (parse_handoff_delete tagged he ps)" "chargeless (parse_incr tagged he ps)"
    "chargeless (parse_cas_set tagged he ps)" "chargeless (parse_cas_delete tagged he ps)"
    "chargeless (parse_touch tagged he ps)" "chargeless (parse_clear tagged he ps)"
    "chargeless (parse_clear_all tagged he ps)" "chargeless (parse_handoff_clear tagged he ps)"
    "chargeless (parse_set command tagged he ps)" "chargeless (parse_handoff_set tagged he ps)"
    "chargeless (parse_cancel_migration he ps)"
    by (auto simp: parse_auth_def parse_get_delete_def parse_handoff_delete_def parse_incr_def parse_cas_set_def
        parse_cas_delete_def parse_touch_def parse_clear_def parse_clear_all_def parse_handoff_clear_def
        parse_set_def parse_handoff_set_def parse_cancel_migration_def Let_def
        split: cas_condition.split intro!: chargeless_intros)
  then show ?thesis by (simp add: parse_simple_def)
qed

lemma chargeless_roster [simp]:
  "chargeless (next_joined_entry input c)" "chargeless (scan_from input n c)" "chargeless (read_joined f n c)"
  "chargeless (read_migrate s header ends f)"
proof -
  show entry: "chargeless (next_joined_entry input c)" for input c
    by (auto simp: next_joined_entry_def Let_def split: option.split intro!: chargeless_intros)
  show "chargeless (scan_from input n c)"
    by (induction n arbitrary: c) (auto simp: entry intro!: chargeless_intros)
  show joined: "chargeless (read_joined f n c)" for f n c
    by (induction n arbitrary: c) (auto simp: entry intro!: chargeless_intros)
  show "chargeless (read_migrate s header ends f)"
    by (auto simp: read_migrate_def joined intro!: chargeless_intros)
qed

lemma chargeless_migrate_result [simp]: "chargeless (fst (migrate_result input e header))"
proof -
  have keep: "chargeless (fst (case r of Inl err \<Rightarrow> (Inl err, i) | Inr x \<Rightarrow> f x))"
    if "chargeless r" "\<And>x. chargeless (fst (f x))" for r :: "parse_error + 'x" and i :: bytes and f :: "'x \<Rightarrow> (parse_error + 'y) \<times> bytes"
    using that by (cases r) (simp_all add: chargeless_def)
  show ?thesis
    unfolding migrate_result_def by (simp add: keep)
qed

lemma chargeless_run_plan:
  assumes "chargeless p" and "\<And>x. p = Inr x \<Longrightarrow> plan_ok tagged he x"
  shows "chargeless (fst (run_plan p input))"
proof (cases "\<exists>stop build. p = Inr (stop, build) \<and> stop \<le> length input")
  case True
  then obtain stop build where p: "p = Inr (stop, build)" "stop \<le> length input" by blast
  then have "read_ok tagged stop (build (take stop input))" using assms(2) [OF p(1)] by (simp add: plan_ok_def)
  then have "chargeless (build (take stop input))" by (auto simp: read_ok_def chargeless_def split: sum.splits)
  then show ?thesis using p by (simp add: run_plan_def take_frame_def)
next
  case False
  then show ?thesis using assms(1) by (auto simp: run_plan_def take_frame_def chargeless_def split: sum.splits)
qed

text \<open>The commands that only a multi-key frame holds.\<close>

definition single_plan :: "plan \<Rightarrow> bool" where
  "single_plan p \<longleftrightarrow> (\<forall>frame cmd tag. snd p frame = Inr (cmd, tag) \<longrightarrow> multi_count cmd = None)"

lemma parse_auth_single: "parse_auth he parts = Inr p \<Longrightarrow> single_plan p"
  by (auto simp: parse_auth_def single_plan_def result_iffs Let_def case_prod_unfold split: if_splits)

lemma parse_get_delete_single: "parse_get_delete command tagged he parts = Inr p \<Longrightarrow> single_plan p"
  by (auto simp: parse_get_delete_def single_plan_def result_iffs Let_def case_prod_unfold split: if_splits)

lemma parse_handoff_delete_single: "parse_handoff_delete tagged he parts = Inr p \<Longrightarrow> single_plan p"
  by (auto simp: parse_handoff_delete_def single_plan_def result_iffs Let_def case_prod_unfold split: if_splits)

lemma parse_incr_single: "parse_incr tagged he parts = Inr p \<Longrightarrow> single_plan p"
  by (auto simp: parse_incr_def single_plan_def result_iffs Let_def case_prod_unfold split: if_splits)

lemma parse_cas_set_single: "parse_cas_set tagged he parts = Inr p \<Longrightarrow> single_plan p"
  by (auto simp: parse_cas_set_def single_plan_def result_iffs Let_def case_prod_unfold split: if_splits)

lemma parse_cas_delete_single: "parse_cas_delete tagged he parts = Inr p \<Longrightarrow> single_plan p"
  by (auto simp: parse_cas_delete_def single_plan_def result_iffs Let_def case_prod_unfold split: if_splits)

lemma parse_touch_single: "parse_touch tagged he parts = Inr p \<Longrightarrow> single_plan p"
  by (auto simp: parse_touch_def single_plan_def result_iffs Let_def case_prod_unfold split: if_splits)

lemma parse_clear_single: "parse_clear tagged he parts = Inr p \<Longrightarrow> single_plan p"
  by (auto simp: parse_clear_def single_plan_def result_iffs Let_def case_prod_unfold split: if_splits)

lemma parse_clear_all_single: "parse_clear_all tagged he parts = Inr p \<Longrightarrow> single_plan p"
  by (auto simp: parse_clear_all_def single_plan_def result_iffs Let_def case_prod_unfold split: if_splits)

lemma parse_handoff_clear_single: "parse_handoff_clear tagged he parts = Inr p \<Longrightarrow> single_plan p"
  by (auto simp: parse_handoff_clear_def single_plan_def result_iffs Let_def case_prod_unfold split: if_splits)

lemma parse_set_single: "parse_set command tagged he parts = Inr p \<Longrightarrow> single_plan p"
  by (auto simp: parse_set_def single_plan_def result_iffs Let_def case_prod_unfold split: if_splits)

lemma parse_handoff_set_single: "parse_handoff_set tagged he parts = Inr p \<Longrightarrow> single_plan p"
  by (auto simp: parse_handoff_set_def single_plan_def result_iffs Let_def case_prod_unfold split: if_splits)

lemma parse_cancel_migration_single: "parse_cancel_migration he parts = Inr p \<Longrightarrow> single_plan p"
  by (auto simp: parse_cancel_migration_def single_plan_def result_iffs Let_def case_prod_unfold split: if_splits)

lemmas arm_singles = parse_auth_single parse_get_delete_single parse_handoff_delete_single parse_incr_single parse_cas_set_single parse_cas_delete_single parse_touch_single parse_clear_single parse_clear_all_single parse_handoff_clear_single parse_set_single parse_handoff_set_single parse_cancel_migration_single

lemma parse_simple_single: "parse_simple command tagged he parts = Inr p \<Longrightarrow> single_plan p"
  unfolding parse_simple_def
  by (simp only: split: if_split_asm) (erule arm_singles | simp only: sum.distinct)+

lemma read_migrate_single:
  assumes "read_migrate s header ends f = Inr (cmd, tag)"
  shows "multi_count cmd = None"
  using assms by (auto simp: read_migrate_def result_iffs)

text \<open>The two phases of a multi-key frame.\<close>

lemma charge_phases:
  assumes "parse_once input tagged False = (Inl (ChargeRequired n values len), rest)"
  shows "rest = input \<and> len \<le> length input
    \<and> (\<exists>cmd tag. parse_once input tagged True = (Inr (cmd, tag), drop len input) \<and> multi_count cmd = Some n)"
proof -
  obtain e where e: "find_lf input = Some e" using assms by (cases "find_lf input") (auto simp: parse_once_def)
  obtain command parts where f: "split_at_byte SP (take e input) = command # parts"
    by (cases "split_at_byte SP (take e input)") auto
  note once = parse_once_def [of input tagged, unfolded e option.case f list.case]
  show ?thesis
  proof (cases "multi_header command tagged e parts")
    case (Some m)
    obtain vs header where m: "m = (vs, header)" by fastforce
    have "chargeless header" using Some m by (auto simp: multi_header_def split: if_splits)
    moreover have "run_multi_once vs False header input = (Inl (ChargeRequired n values len), rest)"
      using assms Some m by (simp add: once)
    ultimately obtain build where h: "header = Inr (n, len, build)" "len \<le> length input" "rest = input"
      by (auto simp: run_multi_once_def chargeless_def split: sum.splits if_splits)
    have "multi_plan_ok tagged e (n, len, build)" using multi_header_ok Some m h(1) by blast
    moreover have "length (take len input) = len" using h(2) by simp
    ultimately obtain cmd tag where "build (take len input) = Inr (cmd, tag)" "multi_count cmd = Some n"
      unfolding multi_plan_ok_def by blast
    then show ?thesis using h Some m by (simp add: once run_multi_once_def)
  next
    case None
    have "chargeless (fst (run_plan (parse_simple command tagged e parts) input))"
      using chargeless_run_plan [OF chargeless_simple] parse_simple_ok by metis
    moreover have "parse_migrate_header parts \<noteq> Inl (ChargeRequired n values len)"
      using chargeless_multi(4) [of parts] by (simp add: chargeless_def)
    moreover have "fst (migrate_result input e header) \<noteq> Inl (ChargeRequired n values len)" for header
      using chargeless_migrate_result [of input e header] by (simp add: chargeless_def)
    ultimately have "fst (parse_once input tagged False) \<noteq> Inl (ChargeRequired n values len)"
      using None by (auto simp: once chargeless_def split: sum.split)
    then show ?thesis using assms by simp
  qed
qed

lemma uncharged_single:
  assumes "parse_once input tagged False = (Inr (cmd, tag), rest)"
  shows "multi_count cmd = None"
proof -
  obtain e where e: "find_lf input = Some e" using assms by (cases "find_lf input") (auto simp: parse_once_def)
  obtain command parts where f: "split_at_byte SP (take e input) = command # parts"
    by (cases "split_at_byte SP (take e input)") auto
  note once = parse_once_def [of input tagged, unfolded e option.case f list.case]
  have none: "multi_header command tagged e parts = None"
    using assms
    by (cases "multi_header command tagged e parts") (auto simp: once run_multi_once_def split: sum.splits if_splits)
  show ?thesis
  proof (cases "command = ''M''")
    case True
    then show ?thesis using assms none read_migrate_single
      by (auto simp: once migrate_result_def split: if_splits sum.splits)
  next
    case False
    then obtain stop build where p: "parse_simple command tagged e parts = Inr (stop, build)"
        "build (take stop input) = Inr (cmd, tag)"
      using assms none by (auto simp: once run_plan_def take_frame_def split: if_splits sum.splits)
    then show ?thesis using parse_simple_single [OF p(1)] by (auto simp: single_plan_def)
  qed
qed

section \<open>A connection's bytes, as they arrive\<close>

text \<open>The read loop: parse what is buffered; while the request is incomplete, append the next chunk.\<close>

fun feed :: "bool \<Rightarrow> bool \<Rightarrow> bytes \<Rightarrow> migrate_progress \<Rightarrow> bytes list \<Rightarrow> (parse_error + command \<times> nat option) \<times> bytes" where
  "feed tagged charged buf progress chunks =
     (case parse_resumable buf tagged progress charged of (r, rest, progress) \<Rightarrow>
        (case (r, chunks) of
           (Inl Incomplete, chunk # chunks) \<Rightarrow> feed tagged charged (rest @ chunk) progress chunks
         | _ \<Rightarrow> (r, rest @ concat chunks)))"

declare feed.simps [simp del]

lemma parse_resumable_once:
  assumes "prog_ok tagged input p"
  obtains q where "parse_resumable input tagged p charged
      = (fst (parse_once input tagged charged), snd (parse_once input tagged charged), q)"
    and "waits (fst (parse_once input tagged charged)) \<Longrightarrow> prog_ok tagged input q"
    and "\<not> waits (fst (parse_once input tagged charged)) \<Longrightarrow> q = progress_default"
proof -
  obtain q where q: "parse_with_mode input tagged p charged
      = (fst (parse_once input tagged charged), snd (parse_once input tagged charged), q)" "prog_ok tagged input q"
    using parse_with_mode_once [OF assms] unfolding resumes_def by blast
  show thesis
  proof (cases "waits (fst (parse_once input tagged charged))")
    case True
    then show thesis using that [of q] q by (simp add: parse_resumable_def waits_def)
  next
    case False
    then show thesis using that [of progress_default] q by (simp add: parse_resumable_def waits_def)
  qed
qed

lemma feed_once:
  assumes "prog_ok tagged buf p"
  shows "feed tagged charged buf p chunks = parse_once (buf @ concat chunks) tagged charged"
  using assms
proof (induction chunks arbitrary: buf p)
  case Nil
  obtain r rest where once: "parse_once buf tagged charged = (r, rest)" by fastforce
  obtain q where "parse_resumable buf tagged p charged = (r, rest, q)"
    using parse_resumable_once [OF Nil, of charged] once by (metis fst_conv snd_conv)
  then show ?case using once by (simp add: feed.simps split: sum.split parse_error.split)
next
  case (Cons chunk chunks)
  obtain r rest where once: "parse_once buf tagged charged = (r, rest)" by fastforce
  obtain q where q: "parse_resumable buf tagged p charged = (r, rest, q)" "waits r \<Longrightarrow> prog_ok tagged buf q"
    using parse_resumable_once [OF Cons.prems, of charged] once by (metis fst_conv snd_conv)
  show ?case
  proof (cases "r = Inl Incomplete")
    case True
    then have "rest = buf" "prog_ok tagged (buf @ chunk) q"
      using parse_once_ok [OF once] q(2) prog_ok_append by (auto simp: waits_def)
    then show ?thesis using True q(1) Cons.IH by (simp add: feed.simps)
  next
    case False
    then have "feed tagged charged buf p (chunk # chunks) = (r, rest @ concat (chunk # chunks))"
      using q(1) by (auto simp: feed.simps split: sum.split parse_error.split)
    then show ?thesis using parse_once_append [OF once False] by simp
  qed
qed

text \<open>The definitions that evaluate the parser on a concrete request.\<close>

lemmas parse_evals = parse_resumable_def parse_with_mode_def find_header_line_end_def find_lf_def progress_default_def
  byte_in_def parse_command_def run_multi_plan_def next_length_def next_part_def parse_length_def parse_trailing_tag_def
  no_more_parts_def multi_frame_gate_def checked_add_def Let_def U64_MAX_def is_ascii_digit_def checked_mul_def refuse_if_def take_frame_def slice_def U32_MAX_def digit_value_def parse_tag_def parse_ttl_and_tag_def frame_key_def new_key_def field_ends.simps

section \<open>The properties\<close>

text \<open>C8. A request is read the same however the network cuts it: parsing again after each chunk, with the
  progress carried from call to call, gives the command (or the refusal) and the unread bytes that one call on
  all the bytes gives.\<close>

theorem chunks_do_not_matter:
  "feed tagged charged [] progress_default chunks =
     (case parse_resumable (concat chunks) tagged progress_default charged of (r, rest, _) \<Rightarrow> (r, rest))"
proof -
  obtain q where "parse_resumable (concat chunks) tagged progress_default charged
      = (fst (parse_once (concat chunks) tagged charged), snd (parse_once (concat chunks) tagged charged), q)"
    using parse_resumable_once [OF prog_ok_default, where charged = charged and tagged = tagged and input = "concat chunks"] by metis
  then show ?thesis using feed_once [OF prog_ok_default, where buf = "[]"] by simp
qed

text \<open>C10. Every command read off the wire takes a prefix of the buffer and is bounded by it: keys, values and
  names have fewer bytes than the frame, keys are not empty, digests have 16 bytes, deltas fit an i64, names
  and tokens are valid UTF-8, tags fit a u32 and are there exactly on a tagged connection's tagged commands,
  and no command that only the node itself may construct is ever read.\<close>

theorem wire_requests_bounded:
  assumes "prog_ok tagged input progress"
    and "parse_resumable input tagged progress charged = (Inr (cmd, tag), rest, progress')"
  shows "\<exists>n \<le> length input. rest = drop n input \<and> read_ok tagged n (Inr (cmd, tag)) \<and> progress' = progress_default"
proof -
  obtain q where q: "parse_resumable input tagged progress charged
      = (fst (parse_once input tagged charged), snd (parse_once input tagged charged), q)"
    "\<not> waits (fst (parse_once input tagged charged)) \<Longrightarrow> q = progress_default"
    using parse_resumable_once [OF assms(1), of charged] by metis
  then have "parse_once input tagged charged = (Inr (cmd, tag), rest)" "q = progress'"
    using assms(2) by (auto simp: prod_eq_iff)
  then show ?thesis using parse_once_ok [of input tagged charged "Inr (cmd, tag)" rest] q(2) by (simp add: waits_def)
qed


theorem wire_requests_bounded_witness:
  "\<exists>n \<le> length (''s 2 3 4 9'' @ LF # ''nskeyabcdxx''). ''xx'' = drop n (''s 2 3 4 9'' @ LF # ''nskeyabcdxx'')
     \<and> read_ok True n (Inr (SetKey (new_key ''ns'' ''key'') ''abcd'' None, Some 9))"
proof -
  have "parse_resumable (''s 2 3 4 9'' @ LF # ''nskeyabcdxx'') True progress_default False
      = (Inr (SetKey (new_key ''ns'' ''key'') ''abcd'' None, Some 9), ''xx'', progress_default)"
    by (simp add: parse_evals parse_simple_def parse_set_def run_plan_def)
  from wire_requests_bounded [OF prog_ok_default this] show ?thesis by blast
qed

text \<open>C15. An unfinished request is left alone and what is refused stays refused: while the parser waits, for
  bytes or for the charge of a multi-key frame, the buffer is untouched and the progress it keeps is right;
  any other refusal is final, so no bytes that follow turn it into a command.\<close>

theorem refusals_are_final:
  assumes "prog_ok tagged input progress"
    and "parse_resumable input tagged progress charged = (Inl e, rest, progress')"
  shows "(waits (Inl e) \<longrightarrow> rest = input \<and> prog_ok tagged input progress')
    \<and> (e \<noteq> Incomplete \<longrightarrow> (\<forall>extra. \<exists>p. parse_resumable (input @ extra) tagged progress charged = (Inl e, rest @ extra, p)))"
proof -
  obtain q where q: "parse_resumable input tagged progress charged
      = (fst (parse_once input tagged charged), snd (parse_once input tagged charged), q)"
    "waits (fst (parse_once input tagged charged)) \<Longrightarrow> prog_ok tagged input q"
    using parse_resumable_once [OF assms(1), of charged] by metis
  then have once: "parse_once input tagged charged = (Inl e, rest)" and "q = progress'"
    using assms(2) by (auto simp: prod_eq_iff)
  have "\<exists>p. parse_resumable (input @ extra) tagged progress charged = (Inl e, rest @ extra, p)" if "e \<noteq> Incomplete" for extra
    using parse_resumable_once [OF prog_ok_append [OF assms(1)], of extra charged] parse_once_append [OF once, of extra] that
    by (metis Inl_inject fst_conv snd_conv)
  then show ?thesis using parse_once_ok [OF once] q(2) once \<open>q = progress'\<close> by simp
qed

theorem refusals_are_final_witness:
  "\<exists>p. parse_resumable ((''g 0 0'' @ [LF]) @ ''more'') False progress_default False = (Inl EmptyKey, (''g 0 0'' @ [LF]) @ ''more'', p)"
proof -
  have "parse_resumable (''g 0 0'' @ [LF]) False progress_default False = (Inl EmptyKey, ''g 0 0'' @ [LF], progress_default)"
    by (simp add: parse_evals parse_simple_def parse_get_delete_def run_plan_def)
  from refusals_are_final [OF prog_ok_default this] show ?thesis by blast
qed

text \<open>C9. A multi-key frame is announced before it is built: without the charge no multi-key command is ever
  constructed, and the answer \<open>ChargeRequired n\<close> for a buffered frame names exactly the keys and the length of
  the command that parsing again with the charge then returns.\<close>

theorem charge_before_build:
  assumes "prog_ok tagged input progress"
    and "parse_resumable input tagged progress False = (r, rest, progress')"
  shows "case r of
      Inr (cmd, _) \<Rightarrow> multi_count cmd = None
    | Inl (ChargeRequired n values len) \<Rightarrow> rest = input \<and> len \<le> length input
        \<and> (\<exists>cmd tag. parse_resumable input tagged progress' True = (Inr (cmd, tag), drop len input, progress_default)
             \<and> multi_count cmd = Some n)
    | Inl _ \<Rightarrow> True"
proof -
  obtain q where q: "parse_resumable input tagged progress False
      = (fst (parse_once input tagged False), snd (parse_once input tagged False), q)"
    "waits (fst (parse_once input tagged False)) \<Longrightarrow> prog_ok tagged input q"
    using parse_resumable_once [OF assms(1), of False] by metis
  then have once: "parse_once input tagged False = (r, rest)" and eq: "q = progress'"
    using assms(2) by (auto simp: prod_eq_iff)
  have charged: "rest = input \<and> len \<le> length input
      \<and> (\<exists>cmd tag. parse_resumable input tagged progress' True = (Inr (cmd, tag), drop len input, progress_default)
             \<and> multi_count cmd = Some n)"
    if r: "r = Inl (ChargeRequired n vs len)" for n vs len
  proof -
    obtain cmd tag where built: "parse_once input tagged True = (Inr (cmd, tag), drop len input)" "multi_count cmd = Some n"
      and "rest = input" "len \<le> length input"
      using charge_phases once r by blast
    moreover have ok: "prog_ok tagged input progress'" using q(2) once eq r by (simp add: waits_def)
    have "parse_resumable input tagged progress' True = (Inr (cmd, tag), drop len input, progress_default)"
      using parse_resumable_once [OF ok, of True] built(1) by (metis fst_conv snd_conv waits_def sum.case(2))
    ultimately show ?thesis by blast
  qed
  show ?thesis using charged uncharged_single once by (auto split: sum.split parse_error.split)
qed

theorem charge_before_build_witness:
  "\<exists>cmd tag. parse_resumable (''m 0 1 1'' @ LF # ''axx'') False
      (progress_default\<lparr>mp_line_end := Some 7, mp_frame_end := Some 9, mp_frame_keys := 1\<rparr>) True
    = (Inr (cmd, tag), ''xx'', progress_default) \<and> multi_count cmd = Some 1"
proof -
  have "parse_resumable (''m 0 1 1'' @ LF # ''axx'') False progress_default False
      = (Inl (ChargeRequired 1 False 9), ''m 0 1 1'' @ LF # ''axx'',
         progress_default\<lparr>mp_line_end := Some 7, mp_frame_end := Some 9, mp_frame_keys := 1\<rparr>)"
    by (simp add: parse_evals parse_multi_get_def)
  from charge_before_build [OF prog_ok_default this] show ?thesis by simp
qed

end
