(* ===== verification/Forward_Queue.thy ===== *)
theory Forward_Queue
  imports Wire_Roundtrip
begin

text \<open>
  The queues of writes a node still owes other nodes while a membership change is in flight
  (\<^verbatim>\<open>src/server.rs\<close>: \<open>OwnedForwardedWrite\<close>, \<open>coalescing_key\<close>, \<open>TargetQueue\<close>, \<open>ForwardQueues\<close>). A write to a key
  that already has one waiting replaces it. A namespace is charged once per allocation: the address of
  its bytes is data of the model (\<open>address\<close>), given with each write that is queued, and
  \<open>TargetQueue::slots\<close> is a map from keys, which is what \<open>SlotKey\<close>'s equality compares
  (\<open>slot_key_eq_iff\<close>). The copy \<open>detached\<close> makes is the identity on the bytes.
\<close>

section \<open>Writes\<close>

datatype owned_write =
    OwnedSet key bytes "duration option"
  | OwnedDelete key
  | OwnedHandoffSet key bytes "duration option" bool
  | OwnedHandoffDelete key
  | OwnedClear clear_scope

text \<open>\<open>OwnedForwardedWrite::attempt\<close>: the frame sent for a write, with the target's token.\<close>

fun attempt_write :: "bytes \<Rightarrow> owned_write \<Rightarrow> forwarded_write" where
  "attempt_write token (OwnedSet k v ttl) = FwdSet k v ttl"
| "attempt_write token (OwnedDelete k) = FwdDelete k"
| "attempt_write token (OwnedHandoffSet k v ttl if_absent) = FwdHandoffSet k v ttl if_absent token"
| "attempt_write token (OwnedHandoffDelete k) = FwdHandoffDelete k token"
| "attempt_write token (OwnedClear scope) = FwdClear scope token"

fun into_handoff_frame :: "owned_write \<Rightarrow> owned_write" where
  "into_handoff_frame (OwnedSet k v ttl) = OwnedHandoffSet k v ttl False"
| "into_handoff_frame (OwnedDelete k) = OwnedHandoffDelete k"
| "into_handoff_frame other = other"

fun coalescing_key :: "owned_write \<Rightarrow> key option" where
  "coalescing_key (OwnedSet k _ _) = Some k"
| "coalescing_key (OwnedDelete k) = Some k"
| "coalescing_key (OwnedHandoffSet k _ _ if_absent) = (if if_absent then None else Some k)"
| "coalescing_key (OwnedHandoffDelete k) = Some k"
| "coalescing_key (OwnedClear _) = None"

definition FORWARD_ENTRY_OVERHEAD_BYTES :: nat where "FORWARD_ENTRY_OVERHEAD_BYTES = 320"

definition MAX_FORWARD_QUEUE_BYTES :: nat where "MAX_FORWARD_QUEUE_BYTES = 64 * 1024 * 1024"

fun forward_entry_bytes :: "owned_write \<Rightarrow> nat" where
  "forward_entry_bytes (OwnedSet k v _) = length (key_name k) + length v + FORWARD_ENTRY_OVERHEAD_BYTES"
| "forward_entry_bytes (OwnedHandoffSet k v _ _) = length (key_name k) + length v + FORWARD_ENTRY_OVERHEAD_BYTES"
| "forward_entry_bytes (OwnedDelete k) = length (key_name k) + FORWARD_ENTRY_OVERHEAD_BYTES"
| "forward_entry_bytes (OwnedHandoffDelete k) = length (key_name k) + FORWARD_ENTRY_OVERHEAD_BYTES"
| "forward_entry_bytes (OwnedClear (ScopeNamespace namespace)) = length namespace + FORWARD_ENTRY_OVERHEAD_BYTES"
| "forward_entry_bytes (OwnedClear ScopeAll) = FORWARD_ENTRY_OVERHEAD_BYTES"

fun write_key :: "owned_write \<Rightarrow> key option" where
  "write_key (OwnedSet k _ _) = Some k"
| "write_key (OwnedDelete k) = Some k"
| "write_key (OwnedHandoffSet k _ _ _) = Some k"
| "write_key (OwnedHandoffDelete k) = Some k"
| "write_key (OwnedClear _) = None"

type_synonym address = nat

text \<open>A write with the address of its namespace's bytes.\<close>

type_synonym addressed = "address \<times> owned_write"

fun namespace_allocation :: "addressed \<Rightarrow> (address \<times> nat) option" where
  "namespace_allocation (addr, w) = (case write_key w of
     None \<Rightarrow> None
   | Some k \<Rightarrow> if key_namespace k = [] then None else Some (addr, length (key_namespace k)))"

fun batch_bytes_loop :: "(address \<times> nat) list \<Rightarrow> addressed list \<Rightarrow> nat" where
  "batch_bytes_loop seen [] = 0"
| "batch_bytes_loop seen (w # ws) =
     (case namespace_allocation w of
        None \<Rightarrow> forward_entry_bytes (snd w) + batch_bytes_loop seen ws
      | Some allocation \<Rightarrow>
          if allocation \<in> set seen then forward_entry_bytes (snd w) + batch_bytes_loop seen ws
          else forward_entry_bytes (snd w) + snd allocation + batch_bytes_loop (allocation # seen) ws)"

definition batch_bytes :: "addressed list \<Rightarrow> nat" where
  "batch_bytes writes = batch_bytes_loop [] writes"

section \<open>One target's queue\<close>

record queued =
  q_write :: addressed
  q_bytes :: nat

text \<open>\<^verbatim>\<open>ops\<close> is a \<^verbatim>\<open>BTreeMap\<close> by sequence number: the list in the map's order.\<close>

record target_queue =
  tq_ops :: "(nat \<times> queued) list"
  tq_next_seq :: nat
  tq_bytes :: nat
  tq_namespaces :: "((address \<times> nat) \<times> nat) list"
  tq_slots :: "(key \<times> nat) list"
  tq_draining :: bool

definition target_queue_new :: target_queue where
  "target_queue_new = \<lparr>tq_ops = [], tq_next_seq = 0, tq_bytes = 0, tq_namespaces = [], tq_slots = [], tq_draining = False\<rparr>"

definition tq_charge :: "addressed \<Rightarrow> target_queue \<Rightarrow> nat \<times> target_queue" where
  "tq_charge w q =
     (let bytes = forward_entry_bytes (snd w);
          q = q\<lparr>tq_bytes := tq_bytes q + bytes\<rparr>
      in case namespace_allocation w of
           None \<Rightarrow> (bytes, q)
         | Some allocation \<Rightarrow>
             let sharers = (case map_of (tq_namespaces q) allocation of None \<Rightarrow> 0 | Some n \<Rightarrow> n);
                 q = (if sharers = 0 then q\<lparr>tq_bytes := tq_bytes q + snd allocation\<rparr> else q)
             in (bytes, q\<lparr>tq_namespaces := AList.update allocation (sharers + 1) (tq_namespaces q)\<rparr>))"

definition tq_release :: "addressed \<Rightarrow> nat \<Rightarrow> target_queue \<Rightarrow> target_queue" where
  "tq_release w bytes q =
     (let q = q\<lparr>tq_bytes := tq_bytes q - bytes\<rparr>
      in case namespace_allocation w of
           None \<Rightarrow> q
         | Some allocation \<Rightarrow>
             (case map_of (tq_namespaces q) allocation of
                None \<Rightarrow> q
              | Some sharers \<Rightarrow>
                  if sharers - 1 = 0
                  then q\<lparr>tq_namespaces := AList.delete allocation (tq_namespaces q),
                         tq_bytes := tq_bytes q - snd allocation\<rparr>
                  else q\<lparr>tq_namespaces := AList.update allocation (sharers - 1) (tq_namespaces q)\<rparr>))"

definition tq_append :: "queued \<Rightarrow> target_queue \<Rightarrow> nat \<times> target_queue" where
  "tq_append queued q =
     (let seq = tq_next_seq q
      in (seq, q\<lparr>tq_next_seq := seq + 1, tq_ops := tq_ops q @ [(seq, queued)]\<rparr>))"

definition tq_push :: "addressed \<Rightarrow> target_queue \<Rightarrow> target_queue" where
  "tq_push w q =
     (let (bytes, q) = tq_charge w q
      in case coalescing_key (snd w) of
           Some key \<Rightarrow>
             (case Option.bind (map_of (tq_slots q) key) (\<lambda>seq. map_option (Pair seq) (map_of (tq_ops q) seq)) of
                Some (seq, replaced) \<Rightarrow>
                  tq_release (q_write replaced) (q_bytes replaced)
                    (q\<lparr>tq_ops := AList.update seq \<lparr>q_write = w, q_bytes = bytes\<rparr> (tq_ops q)\<rparr>)
              | None \<Rightarrow>
                  let (seq, q) = tq_append \<lparr>q_write = w, q_bytes = bytes\<rparr> q
                  in q\<lparr>tq_slots := AList.update key seq (tq_slots q)\<rparr>)
         | None \<Rightarrow>
             let q = (case snd w of
                 OwnedClear _ \<Rightarrow> q\<lparr>tq_slots := []\<rparr>
               | OwnedHandoffSet key _ _ _ \<Rightarrow> q\<lparr>tq_slots := AList.delete key (tq_slots q)\<rparr>
               | _ \<Rightarrow> q)
             in snd (tq_append \<lparr>q_write = w, q_bytes = bytes\<rparr> q))"

definition tq_pop :: "target_queue \<Rightarrow> (addressed \<times> target_queue) option" where
  "tq_pop q = (case tq_ops q of
     [] \<Rightarrow> None
   | (seq, queued) # ops \<Rightarrow>
       let q = tq_release (q_write queued) (q_bytes queued) (q\<lparr>tq_ops := ops\<rparr>);
           q = (case coalescing_key (snd (q_write queued)) of
                  None \<Rightarrow> q
                | Some key \<Rightarrow>
                    if map_of (tq_slots q) key = Some seq
                    then q\<lparr>tq_slots := AList.delete key (tq_slots q)\<rparr> else q)
       in Some (q_write queued, q))"

section \<open>All the queues\<close>

text \<open>
  By the address of the target's shared connection. A push is admitted, and says whether the caller
  must start a drainer, or waits for room (\<open>None\<close>) and is tried again when a queue gives bytes back.
\<close>

type_synonym forward_queues = "(nat \<times> target_queue) list"

definition fq_push :: "nat \<Rightarrow> bool \<Rightarrow> addressed list \<Rightarrow> forward_queues \<Rightarrow> (bool \<times> forward_queues) option" where
  "fq_push queue_id as_handoff writes targets =
     (let writes = map (\<lambda>(addr, w). (addr, if as_handoff then into_handoff_frame w else w)) writes;
          wanted = batch_bytes writes;
          (used, draining) = (case map_of targets queue_id of
             None \<Rightarrow> (0, False) | Some queue \<Rightarrow> (tq_bytes queue, tq_draining queue))
      in if used = 0 \<or> \<not> draining \<or> used + wanted \<le> MAX_FORWARD_QUEUE_BYTES
         then let queue = (case map_of targets queue_id of None \<Rightarrow> target_queue_new | Some queue \<Rightarrow> queue);
                  queue = fold tq_push writes queue
              in Some (\<not> tq_draining queue, AList.update queue_id (queue\<lparr>tq_draining := True\<rparr>) targets)
         else None)"

definition fq_next :: "nat \<Rightarrow> forward_queues \<Rightarrow> addressed option \<times> forward_queues" where
  "fq_next queue_id targets = (case map_of targets queue_id of
     None \<Rightarrow> (None, targets)
   | Some queue \<Rightarrow>
       (case tq_pop queue of
          Some (write, queue) \<Rightarrow> (Some write, AList.update queue_id queue targets)
        | None \<Rightarrow> (None, AList.delete queue_id targets)))"

definition fq_deactivate :: "nat \<Rightarrow> forward_queues \<Rightarrow> forward_queues" where
  "fq_deactivate queue_id targets = (case map_of targets queue_id of
     None \<Rightarrow> targets
   | Some queue \<Rightarrow>
       if tq_ops queue = [] then AList.delete queue_id targets
       else AList.update queue_id (queue\<lparr>tq_draining := False\<rparr>) targets)"

section \<open>Slot keys\<close>

text \<open>\<open>SlotKey\<close>'s hand-written equality, on the canonical hash, the address of the namespace and the key.\<close>

record slot_key =
  sk_hash :: u64
  sk_address :: address
  sk_key :: key

definition slot_key_eq :: "slot_key \<Rightarrow> slot_key \<Rightarrow> bool" where
  "slot_key_eq a b \<longleftrightarrow> sk_hash a = sk_hash b \<and> key_name (sk_key a) = key_name (sk_key b)
     \<and> (sk_address a = sk_address b \<and> length (key_namespace (sk_key a)) = length (key_namespace (sk_key b))
        \<or> key_namespace (sk_key a) = key_namespace (sk_key b))"

lemma slot_key_eq_iff:
  assumes "key_hash_of (sk_key a) = Some (sk_hash a)" and "key_hash_of (sk_key b) = Some (sk_hash b)"
    and "sk_address a = sk_address b \<Longrightarrow> length (key_namespace (sk_key a)) = length (key_namespace (sk_key b))
      \<Longrightarrow> key_namespace (sk_key a) = key_namespace (sk_key b)"
  shows "slot_key_eq a b \<longleftrightarrow> sk_key a = sk_key b"
  using assms unfolding slot_key_eq_def by (auto intro: key.equality)

section \<open>What a queue will do to its target\<close>

type_synonym store = "key \<Rightarrow> (bytes \<times> duration option) option"

fun apply_owned :: "owned_write \<Rightarrow> store \<Rightarrow> store" where
  "apply_owned (OwnedSet k v ttl) m = m(k \<mapsto> (v, ttl))"
| "apply_owned (OwnedDelete k) m = m(k := None)"
| "apply_owned (OwnedHandoffSet k v ttl if_absent) m = (if if_absent \<and> m k \<noteq> None then m else m(k \<mapsto> (v, ttl)))"
| "apply_owned (OwnedHandoffDelete k) m = m(k := None)"
| "apply_owned (OwnedClear (ScopeNamespace namespace)) m = (\<lambda>k. if key_namespace k = namespace then None else m k)"
| "apply_owned (OwnedClear ScopeAll) m = Map.empty"

definition apply_writes :: "owned_write list \<Rightarrow> store \<Rightarrow> store" where
  "apply_writes ws m = fold apply_owned ws m"

definition pending :: "target_queue \<Rightarrow> owned_write list" where
  "pending q = map (\<lambda>(_, queued). snd (q_write queued)) (tq_ops q)"

lemma apply_writes_simps [simp]:
  "apply_writes [] m = m" "apply_writes (w # ws) m = apply_writes ws (apply_owned w m)"
  "apply_writes (xs @ ys) m = apply_writes ys (apply_writes xs m)"
  by (simp_all add: apply_writes_def)

lemma apply_handoff_frame [simp]: "apply_owned (into_handoff_frame w) = apply_owned w"
  by (cases w) auto

definition touches :: "key \<Rightarrow> owned_write \<Rightarrow> bool" where
  "touches k w \<longleftrightarrow> write_key w = Some k \<or> write_key w = None"

lemma coalescing_write: "coalescing_key w = Some k \<Longrightarrow> write_key w = Some k"
  by (cases w) (auto split: if_splits)

lemma coalesced_overwrites: "coalescing_key w = Some k \<Longrightarrow> apply_owned w m = m(k := apply_owned w m' k)"
  by (cases w) (auto split: if_splits)

lemma untouched_commutes:
  "\<not> touches k w \<Longrightarrow> apply_owned w (m(k := x)) = (apply_owned w m)(k := x)"
  by (cases w) (auto simp: touches_def fun_eq_iff)

lemma untouched_writes_commute:
  "\<forall>w\<in>set ws. \<not> touches k w \<Longrightarrow> apply_writes ws (m(k := x)) = (apply_writes ws m)(k := x)"
  by (induction ws arbitrary: m) (auto simp: untouched_commutes)

text \<open>Replacing a waiting write by a later one for its key, from the earlier position.\<close>

lemma replaced_write:
  assumes "coalescing_key old = Some k" and "coalescing_key new = Some k" and "\<forall>w\<in>set ws. \<not> touches k w"
  shows "apply_writes (new # ws) m = apply_owned new (apply_writes (old # ws) m)"
proof -
  obtain x y where "\<And>m. apply_owned old m = m(k := x)" "\<And>m. apply_owned new m = m(k := y)"
    using coalesced_overwrites assms(1, 2) by metis
  then show ?thesis using untouched_writes_commute [OF assms(3)] by simp
qed

section \<open>The invariant\<close>

definition allocated :: "(nat \<times> queued) list \<Rightarrow> address \<times> nat \<Rightarrow> nat" where
  "allocated ops allocation = length (filter (\<lambda>(_, queued). namespace_allocation (q_write queued) = Some allocation) ops)"

definition order_inv :: "target_queue \<Rightarrow> bool" where
  "order_inv q \<longleftrightarrow> sorted_wrt (<) (map fst (tq_ops q)) \<and> (\<forall>seq\<in>fst ` set (tq_ops q). seq < tq_next_seq q)"

definition slots_inv :: "target_queue \<Rightarrow> bool" where
  "slots_inv q \<longleftrightarrow> distinct (map fst (tq_slots q))
     \<and> (\<forall>k seq. map_of (tq_slots q) k = Some seq \<longrightarrow>
          (\<exists>queued. (seq, queued) \<in> set (tq_ops q) \<and> coalescing_key (snd (q_write queued)) = Some k)
          \<and> (\<forall>(seq', later)\<in>set (tq_ops q). seq < seq' \<longrightarrow> \<not> touches k (snd (q_write later))))"

definition held :: "((address \<times> nat) \<times> nat) list \<Rightarrow> nat" where
  "held namespaces = sum_list (map (\<lambda>((_, len), _). len) namespaces)"

text \<open>The accounting, against the writes \<open>ops\<close> that are charged.\<close>

definition balanced :: "(nat \<times> queued) list \<Rightarrow> target_queue \<Rightarrow> bool" where
  "balanced ops q \<longleftrightarrow> distinct (map fst (tq_namespaces q))
     \<and> (\<forall>(_, queued)\<in>set ops. q_bytes queued = forward_entry_bytes (snd (q_write queued)))
     \<and> (\<forall>allocation. map_of (tq_namespaces q) allocation =
          (if allocated ops allocation = 0 then None else Some (allocated ops allocation)))
     \<and> tq_bytes q = sum_list (map (\<lambda>(_, queued). q_bytes queued) ops) + held (tq_namespaces q)"

definition tq_inv :: "target_queue \<Rightarrow> bool" where
  "tq_inv q \<longleftrightarrow> order_inv q \<and> slots_inv q \<and> balanced (tq_ops q) q"

lemma tq_inv_new: "tq_inv target_queue_new"
  by (simp add: tq_inv_def order_inv_def slots_inv_def balanced_def held_def allocated_def target_queue_new_def)

section \<open>Charges\<close>

lemma held_update_same: "map_of ns (a, len) = Some n \<Longrightarrow> held (AList.update (a, len) m ns) = held ns"
  unfolding held_def by (induction ns) auto

lemma held_update_new: "map_of ns (a, len) = None \<Longrightarrow> held (AList.update (a, len) m ns) = held ns + len"
  unfolding held_def by (induction ns) auto

lemma held_delete:
  "distinct (map fst ns) \<Longrightarrow> map_of ns (a, len) = Some n \<Longrightarrow> held ns = held (AList.delete (a, len) ns) + len"
  unfolding held_def
  by (induction ns) (auto simp: map_of_eq_None_iff [symmetric] simp del: map_of_eq_None_iff)

lemma allocated_insert:
  "allocated (pre @ (seq, queued) # post) allocation = allocated (pre @ post) allocation
     + (if namespace_allocation (q_write queued) = Some allocation then 1 else 0)"
  by (simp add: allocated_def)

lemma charge_frame: "snd (tq_charge w q) = q\<lparr>tq_bytes := tq_bytes (snd (tq_charge w q)), tq_namespaces := tq_namespaces (snd (tq_charge w q))\<rparr>"
  by (simp add: tq_charge_def Let_def split: option.split)

lemma release_frame: "tq_release w b q = q\<lparr>tq_bytes := tq_bytes (tq_release w b q), tq_namespaces := tq_namespaces (tq_release w b q)\<rparr>"
  by (simp add: tq_release_def Let_def split: option.split)

lemma charge_bytes: "fst (tq_charge w q) = forward_entry_bytes (snd w)"
  by (simp add: tq_charge_def Let_def split: option.split)

lemma charge_balanced:
  assumes "balanced (pre @ post) q"
  shows "balanced (pre @ (seq, \<lparr>q_write = w, q_bytes = forward_entry_bytes (snd w)\<rparr>) # post) (snd (tq_charge w q))"
proof (cases "namespace_allocation w")
  case None
  then show ?thesis using assms by (auto simp: balanced_def tq_charge_def Let_def allocated_insert)
next
  case (Some allocation)
  obtain a len where al: "allocation = (a, len)" by fastforce
  have m: "map_of (tq_namespaces q) (a, len) =
      (if allocated (pre @ post) (a, len) = 0 then None else Some (allocated (pre @ post) (a, len)))"
    using assms by (simp add: balanced_def)
  show ?thesis
  proof (cases "allocated (pre @ post) (a, len) = 0")
    case True
    then show ?thesis using assms Some m held_update_new [of "tq_namespaces q" a len]
      by (auto simp: balanced_def tq_charge_def Let_def allocated_insert al)
  next
    case False
    then show ?thesis using assms Some m held_update_same [of "tq_namespaces q" a len]
      by (auto simp: balanced_def tq_charge_def Let_def allocated_insert al)
  qed
qed

lemma release_balanced:
  assumes "balanced (pre @ (seq, queued) # post) q"
  shows "balanced (pre @ post) (tq_release (q_write queued) (q_bytes queued) q)"
proof (cases "namespace_allocation (q_write queued)")
  case None
  then show ?thesis using assms by (auto simp: balanced_def tq_release_def Let_def allocated_insert)
next
  case (Some allocation)
  obtain a len where al: "allocation = (a, len)" by fastforce
  have m: "map_of (tq_namespaces q) (a, len) = Some (allocated (pre @ post) (a, len) + 1)"
    using assms Some al by (simp add: balanced_def allocated_insert)
  show ?thesis
  proof (cases "allocated (pre @ post) (a, len) = 0")
    case True
    then show ?thesis using assms Some m held_delete [of "tq_namespaces q" a len]
      by (auto simp: balanced_def tq_release_def Let_def allocated_insert al)
  next
    case False
    then show ?thesis using assms Some m held_update_same [of "tq_namespaces q" a len]
      by (auto simp: balanced_def tq_release_def Let_def allocated_insert al)
  qed
qed

section \<open>Pushing and popping\<close>

lemma balanced_fields [simp]:
  "balanced ops (q\<lparr>tq_ops := x\<rparr>) = balanced ops q" "balanced ops (q\<lparr>tq_next_seq := n\<rparr>) = balanced ops q"
  "balanced ops (q\<lparr>tq_slots := z\<rparr>) = balanced ops q" "balanced ops (q\<lparr>tq_draining := d\<rparr>) = balanced ops q"
  by (simp_all add: balanced_def)

lemma charge_fields [simp]:
  "tq_ops (snd (tq_charge w q)) = tq_ops q" "tq_next_seq (snd (tq_charge w q)) = tq_next_seq q"
  "tq_slots (snd (tq_charge w q)) = tq_slots q" "tq_draining (snd (tq_charge w q)) = tq_draining q"
  by (subst charge_frame, simp)+

lemma release_fields [simp]:
  "tq_ops (tq_release w b q) = tq_ops q" "tq_next_seq (tq_release w b q) = tq_next_seq q"
  "tq_slots (tq_release w b q) = tq_slots q" "tq_draining (tq_release w b q) = tq_draining q"
  by (subst release_frame, simp)+

lemma update_split:
  "distinct (map fst (pre @ (k, old) # post)) \<Longrightarrow> AList.update k new (pre @ (k, old) # post) = pre @ (k, new) # post"
  by (induction pre) auto

lemma sorted_distinct: "sorted_wrt (<) (xs :: nat list) \<Longrightarrow> distinct xs"
  by (induction xs) auto

lemma map_of_split:
  "distinct (map fst (pre @ (k, v) # post)) \<Longrightarrow> map_of (pre @ (k, v) # post) k = Some v"
  by (induction pre) auto

lemma sorted_split:
  assumes "sorted_wrt (<) (map fst (pre @ (seq, x) # post))"
  shows "\<forall>(s, _)\<in>set pre. s < seq" and "\<forall>(s, _)\<in>set post. seq < (s::nat)"
  using assms by (auto simp: sorted_wrt_append)

text \<open>A write that replaces the one waiting for its key.\<close>

lemma push_replaces:
  assumes inv: "tq_inv q" and slot: "map_of (tq_slots q) k = Some seq" and k: "coalescing_key (snd w) = Some k"
  obtains pre old post where "tq_ops q = pre @ (seq, old) # post"
    and "coalescing_key (snd (q_write old)) = Some k" and "\<forall>(_, later)\<in>set post. \<not> touches k (snd (q_write later))"
    and "tq_ops (tq_push w q) = pre @ (seq, \<lparr>q_write = w, q_bytes = forward_entry_bytes (snd w)\<rparr>) # post"
    and "tq_inv (tq_push w q)"
proof -
  obtain old where old: "(seq, old) \<in> set (tq_ops q)" "coalescing_key (snd (q_write old)) = Some k"
    and later: "\<forall>(s, later)\<in>set (tq_ops q). seq < s \<longrightarrow> \<not> touches k (snd (q_write later))"
    using inv slot unfolding tq_inv_def slots_inv_def by blast
  obtain pre post where ops: "tq_ops q = pre @ (seq, old) # post" using split_list [OF old(1)] by blast
  have sorted: "sorted_wrt (<) (map fst (pre @ (seq, old) # post))" using inv ops by (simp add: tq_inv_def order_inv_def)
  then have d: "distinct (map fst (pre @ (seq, old) # post))" by (rule sorted_distinct)
  let ?new = "\<lparr>q_write = w, q_bytes = forward_entry_bytes (snd w)\<rparr>"
  let ?q = "(snd (tq_charge w q))\<lparr>tq_ops := pre @ (seq, ?new) # post\<rparr>"
  have push: "tq_push w q = tq_release (q_write old) (q_bytes old) ?q"
    using k slot ops map_of_split [OF d] update_split [OF d] by (simp add: tq_push_def case_prod_unfold charge_bytes)
  have "balanced ((pre @ [(seq, ?new)]) @ (seq, old) # post) ?q"
    using charge_balanced [of pre "(seq, old) # post" q seq w] inv ops by (simp add: tq_inv_def)
  from release_balanced [OF this] have "balanced (pre @ (seq, ?new) # post) (tq_push w q)" by (simp add: push)
  moreover have "order_inv (tq_push w q)"
    using inv ops by (auto simp: tq_inv_def order_inv_def push)
  moreover have "slots_inv (tq_push w q)"
  proof -
    have "\<not> touches k' (snd w)" if "map_of (tq_slots q) k' = Some s" "s < seq" for k' s
    proof -
      have "\<not> touches k' (snd (q_write old))" using inv that old(1) unfolding tq_inv_def slots_inv_def by blast
      then show ?thesis using old(2) k coalescing_write by (auto simp: touches_def)
    qed
    moreover have "\<exists>x. (s, x) \<in> set (pre @ (seq, ?new) # post) \<and> coalescing_key (snd (q_write x)) = Some k'"
      if "map_of (tq_slots q) k' = Some s" for k' s
    proof -
      obtain x where x: "(s, x) \<in> set (tq_ops q)" "coalescing_key (snd (q_write x)) = Some k'"
        using inv \<open>map_of (tq_slots q) k' = Some s\<close> unfolding tq_inv_def slots_inv_def by blast
      show ?thesis
      proof (cases "s = seq")
        case True
        then have "x = old" using d ops x(1) by (auto simp: image_iff)
        then show ?thesis using x(2) old(2) k True by (intro exI [of _ ?new]) simp
      next
        case False
        then show ?thesis using x ops by auto
      qed
    qed
    ultimately show ?thesis
      using inv ops unfolding tq_inv_def slots_inv_def push by (simp add: ball_Un)
  qed
  ultimately have "tq_inv (tq_push w q)" by (simp add: tq_inv_def push)
  moreover have "\<forall>(_, later)\<in>set post. \<not> touches k (snd (q_write later))"
    using later ops sorted_split(2) [OF sorted] by fastforce
  ultimately show thesis using that [OF ops old(2)] by (simp add: push)
qed

text \<open>A write that is queued at the end: the slots a barrier breaks are gone.\<close>

lemma push_appends:
  assumes inv: "tq_inv q" and new: "\<And>k. coalescing_key (snd w) = Some k \<Longrightarrow> map_of (tq_slots q) k = None"
  shows "tq_inv (tq_push w q) \<and> tq_ops (tq_push w q)
    = tq_ops q @ [(tq_next_seq q, \<lparr>q_write = w, q_bytes = forward_entry_bytes (snd w)\<rparr>)]"
proof -
  let ?new = "\<lparr>q_write = w, q_bytes = forward_entry_bytes (snd w)\<rparr>"
  let ?slots = "case coalescing_key (snd w) of
      Some k \<Rightarrow> AList.update k (tq_next_seq q) (tq_slots q)
    | None \<Rightarrow> (case snd w of OwnedClear _ \<Rightarrow> [] | OwnedHandoffSet k _ _ _ \<Rightarrow> AList.delete k (tq_slots q) | _ \<Rightarrow> tq_slots q)"
  have push: "tq_push w q = (snd (tq_charge w q))\<lparr>tq_next_seq := tq_next_seq q + 1,
      tq_ops := tq_ops q @ [(tq_next_seq q, ?new)], tq_slots := ?slots\<rparr>"
    using new
    by (simp add: tq_push_def case_prod_unfold charge_bytes tq_append_def Let_def
        split: option.split owned_write.split)
  have "balanced (tq_ops q @ [(tq_next_seq q, ?new)]) (snd (tq_charge w q))"
    using charge_balanced [of "tq_ops q" "[]" q "tq_next_seq q" w] inv by (simp add: tq_inv_def)
  moreover have "order_inv (tq_push w q)"
    using inv by (auto simp: tq_inv_def order_inv_def push sorted_wrt_append less_Suc_eq)
  moreover have "slots_inv (tq_push w q)"
  proof -
    have slot: "(\<exists>x. (s, x) \<in> set (tq_ops q) \<and> coalescing_key (snd (q_write x)) = Some k)
        \<and> (\<forall>(s', later)\<in>set (tq_ops q). s < s' \<longrightarrow> \<not> touches k (snd (q_write later)))"
      if "map_of (tq_slots q) k = Some s" for k s
      using inv that unfolding tq_inv_def slots_inv_def by blast
    have old: "\<forall>(s, _)\<in>set (tq_ops q). s < tq_next_seq q"
      using inv by (auto simp: tq_inv_def order_inv_def)
    have kept: "map_of (tq_slots q) k = Some s \<and> \<not> touches k (snd w)
        \<or> coalescing_key (snd w) = Some k \<and> s = tq_next_seq q"
      if "map_of ?slots k = Some s" for k s
      using that coalescing_write new
      by (cases "snd w") (auto simp: touches_def split: if_splits)
    have "distinct (map fst ?slots)"
      using inv by (auto simp: tq_inv_def slots_inv_def split: option.split owned_write.split)
    moreover have "(\<exists>x. (s, x) \<in> set (tq_ops (tq_push w q)) \<and> coalescing_key (snd (q_write x)) = Some k)
        \<and> (\<forall>(s', later)\<in>set (tq_ops (tq_push w q)). s < s' \<longrightarrow> \<not> touches k (snd (q_write later)))"
      if "map_of ?slots k = Some s" for k s
      using kept [OF that]
    proof
      assume "map_of (tq_slots q) k = Some s \<and> \<not> touches k (snd w)"
      then show ?thesis using slot [of k s] by (auto simp: push)
    next
      assume "coalescing_key (snd w) = Some k \<and> s = tq_next_seq q"
      then show ?thesis using old by (auto simp: push)
    qed
    ultimately show ?thesis unfolding slots_inv_def by (simp add: push)
  qed
  ultimately show ?thesis by (simp add: tq_inv_def push)
qed

lemma push_spec:
  assumes "tq_inv q"
  shows "tq_inv (tq_push w q)"
    and "apply_writes (pending (tq_push w q)) m = apply_owned (snd w) (apply_writes (pending q) m)"
proof -
  have "tq_inv (tq_push w q) \<and> apply_writes (pending (tq_push w q)) m = apply_owned (snd w) (apply_writes (pending q) m)"
  proof (cases "\<exists>k seq. coalescing_key (snd w) = Some k \<and> map_of (tq_slots q) k = Some seq")
    case True
    then obtain k seq where k: "coalescing_key (snd w) = Some k" "map_of (tq_slots q) k = Some seq" by blast
    obtain pre old post where p: "tq_ops q = pre @ (seq, old) # post" "coalescing_key (snd (q_write old)) = Some k"
        "\<forall>(_, later)\<in>set post. \<not> touches k (snd (q_write later))"
        "tq_ops (tq_push w q) = pre @ (seq, \<lparr>q_write = w, q_bytes = forward_entry_bytes (snd w)\<rparr>) # post"
        "tq_inv (tq_push w q)"
      using push_replaces [OF assms k(2, 1)] by blast
    have "\<forall>x\<in>set (map (\<lambda>(_, queued). snd (q_write queued)) post). \<not> touches k x" using p(3) by auto
    from replaced_write [OF p(2) k(1) this] show ?thesis using p by (simp add: pending_def)
  next
    case False
    then have "map_of (tq_slots q) k = None" if "coalescing_key (snd w) = Some k" for k using that by auto
    from push_appends [OF assms this] show ?thesis by (simp add: pending_def)
  qed
  then show "tq_inv (tq_push w q)" "apply_writes (pending (tq_push w q)) m = apply_owned (snd w) (apply_writes (pending q) m)"
    by simp_all
qed

lemma pop_None: "tq_pop q = None \<longleftrightarrow> pending q = []"
  by (auto simp: tq_pop_def pending_def Let_def split: list.split)

lemma pop_spec:
  assumes inv: "tq_inv q" and pop: "tq_pop q = Some (w, q')"
  shows "tq_inv q'" and "pending q = snd w # pending q'" and "tq_draining q' = tq_draining q"
proof -
  obtain seq queued ops where ops: "tq_ops q = (seq, queued) # ops" using pop by (auto simp: tq_pop_def split: list.splits)
  let ?q = "tq_release (q_write queued) (q_bytes queued) (q\<lparr>tq_ops := ops\<rparr>)"
  let ?slots = "case coalescing_key (snd (q_write queued)) of
      None \<Rightarrow> tq_slots q
    | Some k \<Rightarrow> if map_of (tq_slots q) k = Some seq then AList.delete k (tq_slots q) else tq_slots q"
  have w: "w = q_write queued" and q': "q' = ?q\<lparr>tq_slots := ?slots\<rparr>"
    using pop ops by (auto simp: tq_pop_def Let_def split: option.splits if_splits)
  show "pending q = snd w # pending q'" "tq_draining q' = tq_draining q"
    using ops by (simp_all add: pending_def w q')
  have "balanced ops ?q" using release_balanced [of "[]" seq queued ops "q\<lparr>tq_ops := ops\<rparr>"] inv ops by (simp add: tq_inv_def)
  moreover have "order_inv q'" using inv ops by (auto simp: tq_inv_def order_inv_def q')
  moreover have "slots_inv q'"
  proof -
    have first: "seq < s" if "(s, x) \<in> set ops" for s x using inv ops that by (auto simp: tq_inv_def order_inv_def)
    have slot: "map_of (tq_slots q) k = Some s" "s \<noteq> seq" if "map_of ?slots k = Some s" for k s
    proof -
      show m: "map_of (tq_slots q) k = Some s" using that by (auto split: option.splits if_splits)
      obtain x where x: "(s, x) \<in> set (tq_ops q)" "coalescing_key (snd (q_write x)) = Some k"
        using inv m unfolding tq_inv_def slots_inv_def by blast
      show "s \<noteq> seq"
      proof
        assume "s = seq"
        then have "x = queued" using x(1) ops first by auto
        then show False using that x(2) m \<open>s = seq\<close> by simp
      qed
    qed
    have "distinct (map fst ?slots)" using inv by (auto simp: tq_inv_def slots_inv_def split: option.split)
    moreover have "(\<exists>x. (s, x) \<in> set ops \<and> coalescing_key (snd (q_write x)) = Some k)
        \<and> (\<forall>(s', later)\<in>set ops. s < s' \<longrightarrow> \<not> touches k (snd (q_write later)))"
      if "map_of ?slots k = Some s" for k s
      using inv ops slot [OF that] unfolding tq_inv_def slots_inv_def by (fastforce simp: ops)
    ultimately show ?thesis unfolding slots_inv_def by (simp add: q')
  qed
  ultimately show "tq_inv q'" by (simp add: tq_inv_def q')
qed

end
