(* ===== verification/Forward_Props.thy ===== *)
theory Forward_Props
  imports Forward_Queue
begin

text \<open>
  What the forward queues guarantee a membership change: coalescing never changes what a target ends up
  holding, a push waits only for a drainer that is making room, and the accounting is exact.
\<close>

section \<open>Sessions over all the queues\<close>




definition for_target :: "nat \<Rightarrow> (nat \<times> owned_write) list \<Rightarrow> owned_write list" where
  "for_target i ws = map snd (filter (\<lambda>(j, _). j = i) ws)"

definition waiting :: "nat \<Rightarrow> forward_queues \<Rightarrow> owned_write list" where
  "waiting i targets = (case map_of targets i of None \<Rightarrow> [] | Some q \<Rightarrow> pending q)"

definition fq_inv :: "forward_queues \<Rightarrow> bool" where
  "fq_inv targets \<longleftrightarrow> distinct (map fst targets) \<and> (\<forall>i q. map_of targets i = Some q \<longrightarrow> tq_inv q)"

lemma for_target_simps [simp]:
  "for_target i [] = []" "for_target i (xs @ ys) = for_target i xs @ for_target i ys"
  "for_target i [(j, w)] = (if j = i then [w] else [])"
  by (simp_all add: for_target_def)

lemma for_target_batch [simp]:
  "for_target i (map (\<lambda>(_, w). (j, w)) ws) = (if j = i then map snd ws else [])"
  by (induction ws) (auto simp: for_target_def)

lemma tq_draining_irrelevant [simp]: "tq_inv (q\<lparr>tq_draining := d\<rparr>) = tq_inv q" "pending (q\<lparr>tq_draining := d\<rparr>) = pending q"
  by (simp_all add: tq_inv_def order_inv_def slots_inv_def pending_def)

lemma pending_new [simp]: "pending target_queue_new = []"
  by (simp add: pending_def target_queue_new_def)

lemma pushes_spec:
  "tq_inv q \<Longrightarrow> tq_inv (fold tq_push ws q)
    \<and> apply_writes (pending (fold tq_push ws q)) m = apply_writes (map snd ws) (apply_writes (pending q) m)"
  by (induction ws arbitrary: q) (simp_all add: push_spec)

lemma apply_frames:
  "apply_writes (map snd (map (\<lambda>(a, w). (a, if as_handoff then into_handoff_frame w else w)) ws)) m
     = apply_writes (map snd ws) m"
  by (induction ws arbitrary: m) auto

lemma push_admitted:
  assumes inv: "fq_inv targets" and push: "fq_push i as_handoff writes targets = Some (started, targets')"
  shows "fq_inv targets'"
    and "apply_writes (waiting j targets') m = apply_writes (waiting j targets @ (if j = i then map snd writes else [])) m"
proof -
  let ?ws = "map (\<lambda>(a, w). (a, if as_handoff then into_handoff_frame w else w)) writes"
  let ?q = "case map_of targets i of None \<Rightarrow> target_queue_new | Some q \<Rightarrow> q"
  have t: "targets' = AList.update i ((fold tq_push ?ws ?q)\<lparr>tq_draining := True\<rparr>) targets"
    using push by (auto simp: fq_push_def Let_def case_prod_unfold split: if_splits)
  have q: "tq_inv ?q" using inv tq_inv_new by (auto simp: fq_inv_def split: option.split)
  show "fq_inv targets'" using inv pushes_spec [OF q, of ?ws] by (auto simp: fq_inv_def t)
  have "pending ?q = waiting i targets" by (simp add: waiting_def split: option.split)
  then show "apply_writes (waiting j targets') m = apply_writes (waiting j targets @ (if j = i then map snd writes else [])) m"
    using pushes_spec [OF q, of ?ws m] apply_frames [of as_handoff writes]
    by (auto simp: waiting_def t)
qed

lemma next_spec:
  assumes inv: "fq_inv targets" and "fq_next i targets = (w, targets')"
  shows "fq_inv targets'" and "waiting j targets = (if j = i then map snd (case w of None \<Rightarrow> [] | Some w \<Rightarrow> [w]) else []) @ waiting j targets'"
proof -
  have "fq_inv targets' \<and> waiting j targets = (if j = i then map snd (case w of None \<Rightarrow> [] | Some w \<Rightarrow> [w]) else []) @ waiting j targets'"
  proof (cases "map_of targets i")
    case None
    then show ?thesis using assms by (auto simp: fq_next_def waiting_def)
  next
    case (Some q)
    then have q: "tq_inv q" using inv by (simp add: fq_inv_def)
    show ?thesis
    proof (cases "tq_pop q")
      case None
      then have "pending q = []" "w = None" "targets' = AList.delete i targets"
        using assms Some by (simp_all add: fq_next_def pop_None [symmetric])
      then show ?thesis using inv Some by (auto simp: waiting_def fq_inv_def)
    next
      case (Some r)
      then obtain x q' where r: "tq_pop q = Some (x, q')" by (cases r) auto
      then have t: "w = Some x" "targets' = AList.update i q' targets"
        using assms \<open>map_of targets i = Some q\<close> by (simp_all add: fq_next_def)
      show ?thesis
        using inv \<open>map_of targets i = Some q\<close> pop_spec [OF q r]
        by (auto simp: waiting_def fq_inv_def t split: if_splits)
    qed
  qed
  then show "fq_inv targets'" "waiting j targets = (if j = i then map snd (case w of None \<Rightarrow> [] | Some w \<Rightarrow> [w]) else []) @ waiting j targets'"
    by blast+
qed

lemma deactivate_spec:
  assumes "fq_inv targets"
  shows "fq_inv (fq_deactivate i targets)" and "waiting j (fq_deactivate i targets) = waiting j targets"
  using assms
  by (auto simp: fq_inv_def fq_deactivate_def waiting_def pending_def split: option.split if_splits
      simp del: map_of_eq_Some_iff)



section \<open>Room\<close>

text \<open>
  Only a queue's drainer takes writes from it, and a drainer that could not be started gives its queue up:
  these are the steps room can come from, and there are none where no drainer is at work.
\<close>

definition has_drainer :: "nat \<Rightarrow> forward_queues \<Rightarrow> bool" where
  "has_drainer i targets = (case map_of targets i of None \<Rightarrow> False | Some q \<Rightarrow> tq_draining q)"

inductive drains :: "nat \<Rightarrow> forward_queues \<Rightarrow> forward_queues \<Rightarrow> bool" for i where
  takes: "has_drainer i targets \<Longrightarrow> drains i targets (snd (fq_next i targets))"
| gives_up: "has_drainer i targets \<Longrightarrow> drains i targets (fq_deactivate i targets)"

inductive_simps drains_iff: "drains i targets targets'"

lemma refused_iff:
  "fq_push i as_handoff writes targets = None \<longleftrightarrow>
    (\<exists>q. map_of targets i = Some q \<and> tq_bytes q \<noteq> 0 \<and> tq_draining q
       \<and> MAX_FORWARD_QUEUE_BYTES < tq_bytes q
           + batch_bytes (map (\<lambda>(a, w). (a, if as_handoff then into_handoff_frame w else w)) writes))"
  by (auto simp: fq_push_def Let_def split: option.splits)

lemma empty_queue_bytes:
  assumes "tq_inv q" "tq_ops q = []"
  shows "tq_bytes q = 0"
proof -
  have "map_of (tq_namespaces q) (a, b) = None" for a b using assms by (simp add: tq_inv_def balanced_def allocated_def)
  then have "tq_namespaces q = []" by (cases "tq_namespaces q") (fastforce split: if_splits)+
  then show ?thesis using assms by (simp add: tq_inv_def balanced_def held_def)
qed

text \<open>Progress: a push that waits has a drainer to wait for, with something to take.\<close>

lemma refused_has_drainer:
  assumes "fq_inv targets" "fq_push i as_handoff writes targets = None"
  shows "has_drainer i targets" and "waiting i targets \<noteq> []"
proof -
  obtain q where q: "map_of targets i = Some q" "tq_bytes q \<noteq> 0" "tq_draining q"
    using assms(2) by (auto simp: refused_iff simp del: map_of_eq_Some_iff)
  show "has_drainer i targets" using q by (simp add: has_drainer_def)
  have "tq_inv q" using assms(1) q(1) unfolding fq_inv_def by blast
  then show "waiting i targets \<noteq> []" using q empty_queue_bytes [of q] by (auto simp: waiting_def pending_def)
qed

text \<open>Every step of that drainer helps: it admits the push, or leaves one write fewer before it.\<close>

lemma drain_helps:
  assumes "fq_inv targets" "fq_push i as_handoff writes targets = None" "drains i targets targets'"
  shows "fq_inv targets'"
    and "fq_push i as_handoff writes targets' \<noteq> None \<or> length (waiting i targets) = Suc (length (waiting i targets'))"
proof -
  have "fq_inv targets' \<and>
      (fq_push i as_handoff writes targets' \<noteq> None \<or> length (waiting i targets) = Suc (length (waiting i targets')))"
    using assms(3)
  proof cases
    case takes
    obtain w where next': "fq_next i targets = (w, targets')" using takes by (metis prod.collapse)
    note spec = next_spec(1) [OF assms(1) next'] next_spec(2) [OF assms(1) next', of i]
    have "w \<noteq> None"
      using next' refused_has_drainer(2) [OF assms(1,2)]
      by (auto simp: fq_next_def waiting_def pop_None split: option.splits prod.splits)
    then show ?thesis using spec by auto
  next
    case gives_up
    have "fq_push i as_handoff writes targets' \<noteq> None"
      using gives_up(1) assms(1) by (auto simp: refused_iff fq_deactivate_def fq_inv_def split: option.splits
          if_splits simp del: map_of_eq_Some_iff)
    then show ?thesis using deactivate_spec(1) [OF assms(1), of i] gives_up(1) by simp
  qed
  then show "fq_inv targets'"
    "fq_push i as_handoff writes targets' \<noteq> None \<or> length (waiting i targets) = Suc (length (waiting i targets'))"
    by blast+
qed

lemma drained_admits:
  assumes "fq_inv (run 0)"
    and "\<And>j. drains i (run j) (run (Suc j)) \<or> (\<nexists>t. drains i (run j) t) \<and> run (Suc j) = run j"
  shows "\<exists>n \<le> length (waiting i (run 0)). fq_push i as_handoff writes (run n) \<noteq> None"
  using assms
proof (induction "length (waiting i (run 0))" arbitrary: run rule: less_induct)
  case less
  show ?case
  proof (cases "fq_push i as_handoff writes (run 0) = None")
    case True
    have step: "drains i (run 0) (run 1)"
      using less.prems(2) [of 0] refused_has_drainer(1) [OF less.prems(1) True] drains.takes by auto
    note helps = drain_helps [OF less.prems(1) True step]
    show ?thesis
    proof (cases "fq_push i as_handoff writes (run 1) = None")
      case False
      moreover have "1 \<le> length (waiting i (run 0))"
        using refused_has_drainer(2) [OF less.prems(1) True] by (cases "waiting i (run 0)") auto
      ultimately show ?thesis by blast
    next
      case True
      then have len: "length (waiting i (run 0)) = Suc (length (waiting i (run 1)))" using helps(2) by simp
      then obtain n where "n \<le> length (waiting i (run 1))" "fq_push i as_handoff writes (run (Suc n)) \<noteq> None"
        using less.hyps [of "\<lambda>j. run (Suc j)"] helps(1) less.prems(2) by auto
      then show ?thesis using len by (intro exI [of _ "Suc n"]) simp
    qed
  qed blast
qed

section \<open>Bytes\<close>

definition entries_bytes :: "target_queue \<Rightarrow> nat" where
  "entries_bytes q = sum_list (map (\<lambda>(_, queued). q_bytes queued) (tq_ops q))"

definition allocations :: "addressed list \<Rightarrow> (address \<times> nat) set" where
  "allocations ws = {allocation. Some allocation \<in> namespace_allocation ` set ws}"

lemma allocations_simps [simp]:
  "allocations [] = {}"
  "allocations (w # ws) = (case namespace_allocation w of None \<Rightarrow> allocations ws | Some al \<Rightarrow> insert al (allocations ws))"
  by (auto simp: allocations_def split: option.split)

lemma finite_allocations [simp]: "finite (allocations ws)"
  by (induction ws) (auto split: option.split)

lemma batch_bytes_loop_eq:
  "batch_bytes_loop seen ws = sum_list (map (forward_entry_bytes \<circ> snd) ws) + sum snd (allocations ws - set seen)"
proof (induction ws arbitrary: seen)
  case Nil
  then show ?case by simp
next
  case (Cons w ws)
  show ?case
  proof (cases "namespace_allocation w")
    case None
    then show ?thesis using Cons by simp
  next
    case (Some al)
    show ?thesis
    proof (cases "al \<in> set seen")
      case True
      then show ?thesis using Some Cons by (simp add: insert_Diff_if)
    next
      case False
      have "sum snd (insert al (allocations ws) - set seen) = snd al + sum snd (allocations ws - set (al # seen))"
        using False by (simp add: insert_Diff_if) (metis Diff_insert finite_Diff finite_allocations insert_Diff_single sum.insert_remove)
      then show ?thesis using Some False Cons by simp
    qed
  qed
qed

lemma held_sum: "distinct (map fst ns) \<Longrightarrow> held ns = sum snd (fst ` set ns)"
  by (induction ns) (auto simp: held_def)

definition queued_writes :: "target_queue \<Rightarrow> addressed list" where
  "queued_writes q = map (\<lambda>(_, queued). q_write queued) (tq_ops q)"

lemma bytes_exact:
  assumes "tq_inv q"
  shows "tq_bytes q = sum_list (map (forward_entry_bytes \<circ> snd) (queued_writes q)) + sum snd (allocations (queued_writes q))"
proof -
  have bal: "balanced (tq_ops q) q" using assms by (simp add: tq_inv_def)
  have "fst ` set (tq_namespaces q) = {al. map_of (tq_namespaces q) al \<noteq> None}"
    by (auto simp: map_of_eq_None_iff)
  also have "\<dots> = {al. allocated (tq_ops q) al \<noteq> 0}"
    using bal unfolding balanced_def by (metis option.discI)
  also have "\<dots> = allocations (queued_writes q)"
    by (force simp: allocated_def allocations_def queued_writes_def filter_empty_conv)
  finally have "held (tq_namespaces q) = sum snd (allocations (queued_writes q))"
    using bal held_sum by (simp add: balanced_def)
  moreover have "map (\<lambda>(_, queued). q_bytes queued) (tq_ops q) = map (forward_entry_bytes \<circ> snd) (queued_writes q)"
    using bal by (auto simp: balanced_def queued_writes_def)
  ultimately show ?thesis using bal by (simp add: balanced_def)
qed

lemma push_queued:
  assumes "tq_inv q"
  shows "set (queued_writes (tq_push w q)) \<subseteq> insert w (set (queued_writes q))"
    and "sum_list (map (forward_entry_bytes \<circ> snd) (queued_writes (tq_push w q)))
      \<le> sum_list (map (forward_entry_bytes \<circ> snd) (queued_writes q)) + forward_entry_bytes (snd w)"
proof -
  have "set (queued_writes (tq_push w q)) \<subseteq> insert w (set (queued_writes q))
      \<and> sum_list (map (forward_entry_bytes \<circ> snd) (queued_writes (tq_push w q)))
          \<le> sum_list (map (forward_entry_bytes \<circ> snd) (queued_writes q)) + forward_entry_bytes (snd w)"
  proof (cases "\<exists>k seq. coalescing_key (snd w) = Some k \<and> map_of (tq_slots q) k = Some seq")
    case True
    then obtain k seq where k: "coalescing_key (snd w) = Some k" "map_of (tq_slots q) k = Some seq" by blast
    obtain pre old post where "tq_ops q = pre @ (seq, old) # post"
        "tq_ops (tq_push w q) = pre @ (seq, \<lparr>q_write = w, q_bytes = forward_entry_bytes (snd w)\<rparr>) # post"
      using push_replaces [OF assms k(2, 1)] by metis
    then show ?thesis by (auto simp: queued_writes_def)
  next
    case False
    then have "map_of (tq_slots q) k = None" if "coalescing_key (snd w) = Some k" for k using that by auto
    from push_appends [OF assms this] show ?thesis by (auto simp: queued_writes_def)
  qed
  then show "set (queued_writes (tq_push w q)) \<subseteq> insert w (set (queued_writes q))"
    "sum_list (map (forward_entry_bytes \<circ> snd) (queued_writes (tq_push w q)))
      \<le> sum_list (map (forward_entry_bytes \<circ> snd) (queued_writes q)) + forward_entry_bytes (snd w)"
    by blast+
qed

lemma pushes_queued:
  assumes "tq_inv q"
  shows "set (queued_writes (fold tq_push ws q)) \<subseteq> set ws \<union> set (queued_writes q)
    \<and> sum_list (map (forward_entry_bytes \<circ> snd) (queued_writes (fold tq_push ws q)))
      \<le> sum_list (map (forward_entry_bytes \<circ> snd) (queued_writes q)) + sum_list (map (forward_entry_bytes \<circ> snd) ws)"
  using assms
proof (induction ws arbitrary: q)
  case Nil
  then show ?case by simp
next
  case (Cons w ws)
  from Cons.IH [OF push_spec(1) [OF Cons.prems, of w]] push_queued [OF Cons.prems, of w] show ?case by (auto simp: comp_def)
qed

lemma pushes_bytes:
  assumes "tq_inv q"
  shows "tq_bytes (fold tq_push ws q) \<le> tq_bytes q + batch_bytes ws"
proof -
  note inv = pushes_spec [OF assms, THEN conjunct1]
  have "allocations (queued_writes (fold tq_push ws q)) \<subseteq> allocations ws \<union> allocations (queued_writes q)"
    using pushes_queued [OF assms, of ws] by (auto simp: allocations_def)
  then have "sum snd (allocations (queued_writes (fold tq_push ws q))) \<le> sum snd (allocations ws \<union> allocations (queued_writes q))"
    by (intro sum_mono2) auto
  also have "\<dots> \<le> sum snd (allocations ws) + sum snd (allocations (queued_writes q))"
    by (simp add: sum_Un_nat)
  finally show ?thesis
    using pushes_queued [OF assms, of ws] bytes_exact [OF assms] bytes_exact [OF inv, of ws]
    by (simp add: batch_bytes_def batch_bytes_loop_eq)
qed

section \<open>The properties\<close>


lemmas queue_evals = fq_push_def fq_next_def tq_push_def tq_pop_def tq_charge_def tq_release_def tq_append_def
  target_queue_new_def batch_bytes_def FORWARD_ENTRY_OVERHEAD_BYTES_def MAX_FORWARD_QUEUE_BYTES_def Let_def


text \<open>C16. A push never waits for ever. Let \<open>run\<close> be any course of the table in which the queue's drainer,
  as long as there is one, takes the next write or gives the queue up, and in which nothing happens to the queue
  where it has no drainer: within as many steps as writes were waiting the push is admitted, however large it is.
  In particular a full queue that was left without a drainer admits the push at once.\<close>

theorem push_finds_room:
  assumes "fq_inv (run 0)"
    and "\<forall>j. drains i (run j) (run (Suc j)) \<or> (\<nexists>t. drains i (run j) t) \<and> run (Suc j) = run j"
  shows "\<exists>n \<le> length (waiting i (run 0)). fq_push i as_handoff writes (run n) \<noteq> None"
  by (rule drained_admits [where run = run]) (use assms in blast)+

text \<open>A queue filled beyond the bound by one write, with its drainer at work.\<close>

definition full_table :: forward_queues where
  "full_table = [(7, \<lparr>tq_ops = [(0, \<lparr>q_write = (0, OwnedSet (new_key [] ''k'') (replicate MAX_FORWARD_QUEUE_BYTES CHR ''v'') None),
       q_bytes = Suc (MAX_FORWARD_QUEUE_BYTES + FORWARD_ENTRY_OVERHEAD_BYTES)\<rparr>)], tq_next_seq = 1,
     tq_bytes = Suc (MAX_FORWARD_QUEUE_BYTES + FORWARD_ENTRY_OVERHEAD_BYTES), tq_namespaces = [],
     tq_slots = [(new_key [] ''k'', 0)], tq_draining = True\<rparr>)]"

lemma full_table_pushed:
  "fq_push 7 False [(0, OwnedSet (new_key [] ''k'') (replicate MAX_FORWARD_QUEUE_BYTES CHR ''v'') None)] []
    = Some (True, full_table)"
  by (simp add: full_table_def fq_push_def tq_push_def tq_charge_def tq_append_def target_queue_new_def Let_def new_key_def)

definition draining_run :: "nat \<Rightarrow> forward_queues" where
  "draining_run j = (if j = 0 then full_table else if j = 1 then snd (fq_next 7 full_table) else [])"

theorem push_finds_room_witness:
  "fq_push 7 True [(0, OwnedClear ScopeAll)] (draining_run 0) = None
   \<and> (\<exists>n \<le> 1. fq_push 7 True [(0, OwnedClear ScopeAll)] (draining_run n) \<noteq> None)"
proof -
  have inv: "fq_inv (draining_run 0)"
    using push_admitted(1) [OF _ full_table_pushed] by (simp add: draining_run_def fq_inv_def)
  have popped: "map_of (snd (fq_next 7 full_table)) 7 \<noteq> None" "snd (fq_next 7 (snd (fq_next 7 full_table))) = []"
      "has_drainer 7 (snd (fq_next 7 full_table))"
    by (simp_all add: full_table_def fq_next_def tq_pop_def tq_release_def Let_def new_key_def has_drainer_def)
  have run: "\<forall>j. drains 7 (draining_run j) (draining_run (Suc j))
      \<or> (\<nexists>t. drains 7 (draining_run j) t) \<and> draining_run (Suc j) = draining_run j"
  proof
    fix j :: nat
    consider "j = 0" | "j = 1" | "2 \<le> j" by linarith
    then show "drains 7 (draining_run j) (draining_run (Suc j))
        \<or> (\<nexists>t. drains 7 (draining_run j) t) \<and> draining_run (Suc j) = draining_run j"
    proof cases
      case 1
      then show ?thesis using drains.takes [of 7 full_table] by (simp add: draining_run_def has_drainer_def full_table_def)
    next
      case 2
      then show ?thesis using drains.takes [OF popped(3)] popped(2) by (simp add: draining_run_def)
    next
      case 3
      then show ?thesis by (simp add: draining_run_def drains_iff has_drainer_def)
    qed
  qed
  have one: "length (waiting 7 (draining_run 0)) = 1"
    by (simp add: draining_run_def full_table_def waiting_def pending_def)
  have "fq_push 7 True [(0, OwnedClear ScopeAll)] (draining_run 0) = None"
    by (simp add: refused_iff draining_run_def full_table_def)
  then show ?thesis
    using push_finds_room [OF inv run, of True "[(0, OwnedClear ScopeAll)]"] one by simp
qed

text \<open>C17. The queue's byte count is exact, so a queue holds more than \<^verbatim>\<open>MAX_FORWARD_QUEUE_BYTES\<close> after a push only
  when it was empty or had no drainer before it, and every queue in the table is well formed.\<close>

theorem forward_queue_bounded:
  assumes "fq_inv targets" and "fq_push i as_handoff writes targets = Some (started, targets')"
  shows "fq_inv targets'
    \<and> (\<forall>q. map_of targets i = Some q \<and> tq_bytes q \<noteq> 0 \<and> tq_draining q \<longrightarrow>
         (\<exists>q'. map_of targets' i = Some q' \<and> tq_bytes q' \<le> MAX_FORWARD_QUEUE_BYTES
            \<and> tq_bytes q' = sum_list (map (forward_entry_bytes \<circ> snd) (queued_writes q')) + sum snd (allocations (queued_writes q'))))"
proof -
  let ?ws = "map (\<lambda>(a, w). (a, if as_handoff then into_handoff_frame w else w)) writes"
  have inv': "fq_inv targets'" by (rule push_admitted(1) [OF assms])
  have "\<exists>q'. map_of targets' i = Some q' \<and> tq_bytes q' \<le> MAX_FORWARD_QUEUE_BYTES
      \<and> tq_bytes q' = sum_list (map (forward_entry_bytes \<circ> snd) (queued_writes q')) + sum snd (allocations (queued_writes q'))"
    if q: "map_of targets i = Some q" "tq_bytes q \<noteq> 0" "tq_draining q" for q
  proof -
    let ?q = "(fold tq_push ?ws q)\<lparr>tq_draining := True\<rparr>"
    have "tq_inv q" using assms(1) q(1) by (simp add: fq_inv_def)
    from pushes_bytes [OF this, of ?ws] have "tq_bytes ?q \<le> MAX_FORWARD_QUEUE_BYTES"
      using assms(2) q by (simp add: fq_push_def Let_def split: if_splits)
    moreover have m: "map_of targets' i = Some ?q"
      using assms(2) q by (auto simp: fq_push_def Let_def split: if_splits)
    moreover have "tq_inv ?q" using inv' m unfolding fq_inv_def by blast
    ultimately show ?thesis using bytes_exact by blast
  qed
  then show ?thesis using inv' by blast
qed

theorem forward_queue_bounded_witness:
  "\<exists>started targets' q'. fq_push 7 False [(0, OwnedDelete (new_key [] ''k''))]
       [(7, \<lparr>tq_ops = [(0, \<lparr>q_write = (0, OwnedClear ScopeAll), q_bytes = 320\<rparr>)], tq_next_seq = 1, tq_bytes = 320,
              tq_namespaces = [], tq_slots = [], tq_draining = True\<rparr>)] = Some (started, targets')
     \<and> map_of targets' 7 = Some q' \<and> tq_bytes q' \<le> MAX_FORWARD_QUEUE_BYTES"
proof -
  let ?q = "\<lparr>tq_ops = [(0::nat, \<lparr>q_write = (0, OwnedClear ScopeAll), q_bytes = 320\<rparr>)], tq_next_seq = 1, tq_bytes = 320,
            tq_namespaces = [], tq_slots = [], tq_draining = True\<rparr>"
  let ?t = "[(7, ?q)]"
  have "fq_push 7 False [(0, OwnedClear ScopeAll)] [] = Some (True, ?t)" by (simp add: queue_evals)
  moreover have "fq_inv []" by (simp add: fq_inv_def)
  ultimately have inv: "fq_inv ?t" using push_admitted(1) by blast
  have "fq_push 7 False [(0, OwnedDelete (new_key [] ''k''))] ?t \<noteq> None"
    by (simp add: queue_evals new_key_def)
  then obtain started targets' where push: "fq_push 7 False [(0, OwnedDelete (new_key [] ''k''))] ?t = Some (started, targets')"
    by auto
  have "map_of ?t 7 = Some ?q \<and> tq_bytes ?q \<noteq> 0 \<and> tq_draining ?q" by simp
  with forward_queue_bounded [OF inv push]
  obtain q' where "map_of targets' 7 = Some q'" "tq_bytes q' \<le> MAX_FORWARD_QUEUE_BYTES" by blast
  with push show ?thesis by blast
qed

end
