(* ===== verification/Cluster_State.thy ===== *)
theory Cluster_State
  imports Forward_Queue
begin

text \<open>
  What a node knows of its cluster and how it judges a key by it (\<^verbatim>\<open>src/server.rs\<close>: \<open>Membership\<close>,
  \<open>ActiveMigration\<close>, \<open>LingeringForward\<close>, \<open>LeaveState\<close>, \<open>RereplicationForward\<close>, \<open>PendingClears\<close>,
  \<open>RingHistory\<close>, \<open>NodeContext\<close> and the functions that read them): whether it serves a key, and which other
  nodes a write of it must also reach.

  An \<^verbatim>\<open>Arc\<close> the code compares by address, or shares as a flag, is the number of its allocation
  (\<open>arc\<close>): the context counts them (\<open>nc_fresh\<close>) and holds which flags are set (\<open>nc_revoked\<close>,
  \<open>nc_aborted\<close>). \<^verbatim>\<open>Instant::now()\<close> is the argument \<open>now\<close>. The functions that clear an expired
  slot on the way return the context they leave.
\<close>

section \<open>State\<close>

type_synonym arc = nat

record membership =
  ms_id :: arc
  ms_ring_id :: arc
  ms_ring :: hash_ring
  ms_replication :: nat

record forward_target =
  ft_addr :: bytes
  ft_connection :: arc
  ft_token :: bytes
  ft_revoked :: arc
  ft_as_handoff :: bool

record pending_clears =
  pc_all :: bool
  pc_namespaces :: "bytes list"
  pc_bytes :: nat

record lingering_forward =
  lf_joining_name :: bytes
  lf_joining_addr :: bytes
  lf_joining_token :: bytes
  lf_completed_at :: instant
  lf_forwarding_grace :: duration
  lf_forward_connection :: arc
  lf_forward_revoked :: arc

record active_migration =
  am_joining_name :: bytes
  am_joining_addr :: bytes
  am_joining_token :: bytes
  am_after_ring_id :: arc
  am_after_ring :: hash_ring
  am_replication :: nat
  am_generation :: "nat option"
  am_completed_at :: "instant option"
  am_forwarding_grace :: duration
  am_acked_entries :: "nat option"
  am_abort_requested :: arc
  am_marked_keys :: "key list"
  am_confirmed :: bool
  am_pre_completion_ring :: "membership option"
  am_pending_clears :: pending_clears
  am_forward_connection :: arc
  am_forward_revoked :: arc
  am_lingering :: "lingering_forward list"
  am_remnant :: bool

record leave_state =
  ls_before_ring :: hash_ring
  ls_after_ring :: hash_ring
  ls_replication :: nat
  ls_addresses :: "(bytes \<times> bytes) list"
  ls_tokens :: "(bytes \<times> bytes) list"
  ls_connections :: "(bytes \<times> arc) list"

record rereplication_forward =
  rf_before_ring :: hash_ring
  rf_after_ring :: hash_ring
  rf_replication :: nat
  rf_addresses :: "(bytes \<times> bytes) list"
  rf_tokens :: "(bytes \<times> bytes) list"
  rf_connections :: "(bytes \<times> arc) list"
  rf_completed_at :: "instant option"
  rf_grace :: duration

record ring_history =
  rh_epochs :: "(instant \<times> membership) list"
  rh_generation :: nat

record node_context =
  nc_name :: bytes
  nc_token :: bytes
  nc_active_migration :: "active_migration option"
  nc_known_ring :: "membership option"
  nc_latest_published :: "membership option"
  nc_promoted :: bool
  nc_leaving :: "leave_state option"
  nc_rereplication_forward :: "rereplication_forward option"
  nc_ring_history :: ring_history
  nc_fresh :: arc
  nc_revoked :: "arc list"
  nc_aborted :: "arc list"

definition arc_new :: "node_context \<Rightarrow> arc \<times> node_context" where
  "arc_new nc = (nc_fresh nc, nc\<lparr>nc_fresh := nc_fresh nc + 1\<rparr>)"

section \<open>Forwarding windows\<close>

definition lf_forwarding_open :: "instant \<Rightarrow> lingering_forward \<Rightarrow> bool" where
  "lf_forwarding_open now l \<longleftrightarrow> now - lf_completed_at l < lf_forwarding_grace l"

definition lf_target :: "lingering_forward \<Rightarrow> forward_target" where
  "lf_target l = \<lparr>ft_addr = lf_joining_addr l, ft_connection = lf_forward_connection l,
     ft_token = lf_joining_token l, ft_revoked = lf_forward_revoked l, ft_as_handoff = True\<rparr>"

definition am_forwarding_open :: "instant \<Rightarrow> active_migration \<Rightarrow> bool" where
  "am_forwarding_open now a \<longleftrightarrow> (case am_completed_at a of
     None \<Rightarrow> True | Some completed_at \<Rightarrow> now - completed_at < am_forwarding_grace a)"

definition am_expired :: "instant \<Rightarrow> active_migration \<Rightarrow> bool" where
  "am_expired now a \<longleftrightarrow> am_confirmed a \<and> \<not> am_forwarding_open now a
     \<and> list_all (\<lambda>l. \<not> lf_forwarding_open now l) (am_lingering a)"

definition rf_forwarding_open :: "instant \<Rightarrow> rereplication_forward \<Rightarrow> bool" where
  "rf_forwarding_open now w \<longleftrightarrow> (case rf_completed_at w of
     None \<Rightarrow> True | Some completed_at \<Rightarrow> now - completed_at < rf_grace w)"

text \<open>The lazy expiry every reader of the slot begins with.\<close>

definition expire_slot :: "instant \<Rightarrow> node_context \<Rightarrow> node_context" where
  "expire_slot now nc = (case nc_active_migration nc of
     Some a \<Rightarrow> if am_expired now a then nc\<lparr>nc_active_migration := None\<rparr> else nc
   | None \<Rightarrow> nc)"

definition expire_rereplication :: "instant \<Rightarrow> node_context \<Rightarrow> node_context" where
  "expire_rereplication now nc = (case nc_rereplication_forward nc of
     Some w \<Rightarrow> if \<not> rf_forwarding_open now w then nc\<lparr>nc_rereplication_forward := None\<rparr> else nc
   | None \<Rightarrow> nc)"

section \<open>Serving\<close>

definition owns_under :: "membership option \<Rightarrow> u64 \<Rightarrow> bytes \<Rightarrow> bool" where
  "owns_under m key_hash name = (case m of
     None \<Rightarrow> False | Some m \<Rightarrow> is_owner_hashed (ms_ring m) key_hash name (ms_replication m))"

definition owns_under_known_ring :: "node_context \<Rightarrow> key \<Rightarrow> bool option" where
  "owns_under_known_ring nc key = (case nc_known_ring nc of
     None \<Rightarrow> Some False | Some m \<Rightarrow> is_owner (ms_ring m) key (nc_name nc) (ms_replication m))"

definition owns_under_latest_published :: "node_context \<Rightarrow> u64 \<Rightarrow> bool" where
  "owns_under_latest_published nc key_hash = owns_under (nc_latest_published nc) key_hash (nc_name nc)"

definition serving_locally_for_unconfirmed_join :: "instant \<Rightarrow> node_context \<Rightarrow> u64 \<Rightarrow> bool \<times> node_context" where
  "serving_locally_for_unconfirmed_join now nc key_hash =
     (let nc = expire_slot now nc
      in (case nc_active_migration nc of
            None \<Rightarrow> False
          | Some a \<Rightarrow> \<not> am_confirmed a \<and> am_forwarding_open now a
              \<and> is_owner_hashed (am_after_ring a) key_hash (am_joining_name a) (am_replication a), nc))"

definition wrong_node_hashed :: "instant \<Rightarrow> node_context \<Rightarrow> u64 \<Rightarrow> bool \<times> node_context" where
  "wrong_node_hashed now nc key_hash =
     (if \<not> nc_promoted nc then (True, nc)
      else
        let displaced = (case nc_known_ring nc of
              None \<Rightarrow> False
            | Some m \<Rightarrow> \<not> is_owner_hashed (ms_ring m) key_hash (nc_name nc) (ms_replication m))
        in if \<not> displaced then (False, nc)
           else let (serving, nc) = serving_locally_for_unconfirmed_join now nc key_hash
                in (\<not> serving \<and> \<not> owns_under_latest_published nc key_hash, nc))"

definition not_the_primary :: "instant \<Rightarrow> node_context \<Rightarrow> u64 \<Rightarrow> bool \<times> node_context" where
  "not_the_primary now nc key_hash =
     (let (wrong, nc) = wrong_node_hashed now nc key_hash
      in if wrong then (True, nc)
         else
           let (serving, nc) = serving_locally_for_unconfirmed_join now nc key_hash
           in if serving then (False, nc)
              else (case nc_known_ring nc of
                  None \<Rightarrow> False
                | Some adopted \<Rightarrow>
                    if is_owner_hashed (ms_ring adopted) key_hash (nc_name nc) (ms_replication adopted)
                    then \<not> is_owner_hashed (ms_ring adopted) key_hash (nc_name nc) 1
                    else \<not> (case nc_latest_published nc of
                        None \<Rightarrow> False
                      | Some published \<Rightarrow> is_owner_hashed (ms_ring published) key_hash (nc_name nc) 1), nc))"

section \<open>Published rosters\<close>

definition same_members :: "membership \<Rightarrow> bytes list \<Rightarrow> nat \<Rightarrow> bool" where
  "same_members m members replication \<longleftrightarrow> ms_replication m = replication
     \<and> sort (nodes (ms_ring m)) = remdups_adj (sort members)"

definition note_published_roster :: "bytes list \<Rightarrow> nat \<Rightarrow> node_context \<Rightarrow> node_context" where
  "note_published_roster roster replication nc =
     (if (case nc_latest_published nc of None \<Rightarrow> False | Some current \<Rightarrow> same_members current roster replication)
      then nc
      else
        let (ring_id, nc) = arc_new nc; (mid, nc) = arc_new nc
        in nc\<lparr>nc_latest_published := Some \<lparr>ms_id = mid, ms_ring_id = ring_id, ms_ring = new_ring roster,
             ms_replication = replication\<rparr>\<rparr>)"

text \<open>
  \<open>refresh_published_roster\<close>: \<open>fetched\<close> is the roster discovery answered, or \<open>None\<close> when nothing is to
  be noted (cooling down, failed, withheld, or a heartbeat was newer).
\<close>

definition refresh_published_roster :: "(bytes list \<times> nat) option \<Rightarrow> node_context \<Rightarrow> node_context" where
  "refresh_published_roster fetched nc = (case fetched of
     None \<Rightarrow> nc | Some (names, replication) \<Rightarrow> note_published_roster names replication nc)"

definition wrong_node_refreshed ::
    "instant \<Rightarrow> (bytes list \<times> nat) option \<Rightarrow> node_context \<Rightarrow> u64 \<Rightarrow> bool \<times> node_context" where
  "wrong_node_refreshed now fetched nc key_hash =
     (let (wrong, nc) = wrong_node_hashed now nc key_hash
      in if \<not> wrong then (False, nc)
         else if \<not> nc_promoted nc then (True, nc)
         else wrong_node_hashed now (refresh_published_roster fetched nc) key_hash)"

fun judge_hashes :: "instant \<Rightarrow> u64 list \<Rightarrow> node_context \<Rightarrow> bool list \<times> node_context" where
  "judge_hashes now [] nc = ([], nc)"
| "judge_hashes now (h # hs) nc =
     (let (wrong, nc) = wrong_node_hashed now nc h; (ws, nc) = judge_hashes now hs nc in (wrong # ws, nc))"

fun rejudge_hashes :: "instant \<Rightarrow> (bool \<times> u64) list \<Rightarrow> node_context \<Rightarrow> bool list \<times> node_context" where
  "rejudge_hashes now [] nc = ([], nc)"
| "rejudge_hashes now ((wrong, h) # hs) nc =
     (let (wrong, nc) = (if wrong then wrong_node_hashed now nc h else (wrong, nc));
          (ws, nc) = rejudge_hashes now hs nc
      in (wrong # ws, nc))"

definition wrong_nodes_refreshed ::
    "instant \<Rightarrow> (bytes list \<times> nat) option \<Rightarrow> node_context \<Rightarrow> u64 list \<Rightarrow> bool list \<times> node_context" where
  "wrong_nodes_refreshed now fetched nc hashes =
     (let (wrong, nc) = judge_hashes now hashes nc
      in if list_ex (\<lambda>w. w) wrong \<and> nc_promoted nc
         then rejudge_hashes now (zip wrong hashes) (refresh_published_roster fetched nc)
         else (wrong, nc))"

definition not_the_primary_refreshed ::
    "instant \<Rightarrow> (bytes list \<times> nat) option \<Rightarrow> node_context \<Rightarrow> u64 \<Rightarrow> bool \<times> node_context" where
  "not_the_primary_refreshed now fetched nc key_hash =
     (let (not_primary, nc) = not_the_primary now nc key_hash
      in if \<not> not_primary then (False, nc)
         else if \<not> nc_promoted nc then (True, nc)
         else not_the_primary now (refresh_published_roster fetched nc) key_hash)"

section \<open>Where a write must also go\<close>

definition am_target :: "bool \<Rightarrow> active_migration \<Rightarrow> forward_target" where
  "am_target as_handoff a = \<lparr>ft_addr = am_joining_addr a, ft_connection = am_forward_connection a,
     ft_token = am_joining_token a, ft_revoked = am_forward_revoked a, ft_as_handoff = as_handoff\<rparr>"

definition migration_targets_for_hashed :: "instant \<Rightarrow> node_context \<Rightarrow> u64 \<Rightarrow> forward_target list \<times> node_context" where
  "migration_targets_for_hashed now nc key_hash =
     (let nc = expire_slot now nc
      in case nc_active_migration nc of
           None \<Rightarrow> ([], nc)
         | Some a \<Rightarrow>
             let a = a\<lparr>am_lingering := filter (lf_forwarding_open now) (am_lingering a)\<rparr>;
                 owns = (\<lambda>name. is_owner_hashed (am_after_ring a) key_hash name (am_replication a));
                 own = (if am_forwarding_open now a \<and> owns (am_joining_name a) then [am_target True a] else []);
                 lingering = map lf_target (filter (\<lambda>l. owns (lf_joining_name l)) (am_lingering a))
             in (own @ lingering, nc\<lparr>nc_active_migration := Some a\<rparr>))"

definition unconfirmed_join_target_for_hashed ::
    "instant \<Rightarrow> node_context \<Rightarrow> u64 \<Rightarrow> forward_target option \<times> node_context" where
  "unconfirmed_join_target_for_hashed now nc key_hash =
     (let nc = expire_slot now nc
      in (case nc_active_migration nc of
            None \<Rightarrow> None
          | Some a \<Rightarrow>
              if am_confirmed a \<or> \<not> am_forwarding_open now a
                 \<or> \<not> is_owner_hashed (am_after_ring a) key_hash (am_joining_name a) (am_replication a)
              then None else Some (am_target True a), nc))"

definition join_took_hashed :: "instant \<Rightarrow> node_context \<Rightarrow> key \<Rightarrow> u64 \<Rightarrow> bool \<times> node_context" where
  "join_took_hashed now nc key key_hash =
     (let nc = expire_slot now nc
      in case nc_active_migration nc of
           None \<Rightarrow> (False, nc)
         | Some a \<Rightarrow>
             let owns = (\<lambda>name. is_owner_hashed (am_after_ring a) key_hash name (am_replication a))
             in if am_remnant a \<or> am_confirmed a then (False, nc)
                else if owns (nc_name nc) then (False, nc)
                else if owns (am_joining_name a) \<or> list_ex (\<lambda>l. owns (lf_joining_name l)) (am_lingering a)
                then (True, nc\<lparr>nc_active_migration := Some (a\<lparr>am_marked_keys := am_marked_keys a @ [key]\<rparr>)\<rparr>)
                else (False, nc))"

definition lingering_clear_targets :: "instant \<Rightarrow> node_context \<Rightarrow> forward_target list \<times> node_context" where
  "lingering_clear_targets now nc = (case nc_active_migration nc of
     None \<Rightarrow> ([], nc)
   | Some a \<Rightarrow>
       let a = a\<lparr>am_lingering := filter (lf_forwarding_open now) (am_lingering a)\<rparr>
       in (map lf_target (am_lingering a), nc\<lparr>nc_active_migration := Some a\<rparr>))"

subsection \<open>A decommission\<close>

definition entrant_for :: "leave_state \<Rightarrow> u64 \<Rightarrow> bytes \<Rightarrow> bytes option" where
  "entrant_for l key_hash self_name =
     (if \<not> is_owner_hashed (ls_before_ring l) key_hash self_name (ls_replication l) then None
      else find (\<lambda>owner. \<not> is_owner_hashed (ls_before_ring l) key_hash owner (ls_replication l))
             (owners_hashed (ls_after_ring l) key_hash (ls_replication l)))"

text \<open>The connection shared by the forwards to an address, made on first use; the flag is fresh.\<close>

definition window_target ::
    "(bytes \<times> bytes) list \<Rightarrow> (bytes \<times> bytes) list \<Rightarrow> bytes \<Rightarrow> (bytes \<times> arc) list \<times> node_context
      \<Rightarrow> forward_target option \<times> (bytes \<times> arc) list \<times> node_context" where
  "window_target addresses tokens name = (\<lambda>(connections, nc).
     case (map_of addresses name, map_of tokens name) of
       (Some addr, Some token) \<Rightarrow>
         let (connection, connections, nc) = (case map_of connections addr of
               Some c \<Rightarrow> (c, connections, nc)
             | None \<Rightarrow> let (c, nc) = arc_new nc in (c, AList.update addr c connections, nc));
             (revoked, nc) = arc_new nc
         in (Some \<lparr>ft_addr = addr, ft_connection = connection, ft_token = token, ft_revoked = revoked,
               ft_as_handoff = False\<rparr>, connections, nc)
     | _ \<Rightarrow> (None, connections, nc))"

fun window_targets ::
    "(bytes \<times> bytes) list \<Rightarrow> (bytes \<times> bytes) list \<Rightarrow> bytes list \<Rightarrow> (bytes \<times> arc) list \<times> node_context
      \<Rightarrow> forward_target list \<times> (bytes \<times> arc) list \<times> node_context" where
  "window_targets addresses tokens [] (connections, nc) = ([], connections, nc)"
| "window_targets addresses tokens (name # names) (connections, nc) =
     (let (t, connections, nc) = window_target addresses tokens name (connections, nc);
          (ts, connections, nc) = window_targets addresses tokens names (connections, nc)
      in (case t of None \<Rightarrow> ts | Some t \<Rightarrow> t # ts, connections, nc))"

definition leave_targets :: "leave_state \<Rightarrow> bytes list \<Rightarrow> node_context \<Rightarrow> forward_target list \<times> node_context" where
  "leave_targets l names nc =
     (let (ts, connections, nc) = window_targets (ls_addresses l) (ls_tokens l) names (ls_connections l, nc)
      in (ts, nc\<lparr>nc_leaving := Some (l\<lparr>ls_connections := connections\<rparr>)\<rparr>))"

definition leave_target_for_hashed :: "node_context \<Rightarrow> u64 \<Rightarrow> forward_target list \<times> node_context" where
  "leave_target_for_hashed nc key_hash = (case nc_leaving nc of
     None \<Rightarrow> ([], nc)
   | Some l \<Rightarrow>
       (case entrant_for l key_hash (nc_name nc) of
          None \<Rightarrow> ([], nc)
        | Some entrant \<Rightarrow> leave_targets l [entrant] nc))"

definition leave_clear_targets :: "node_context \<Rightarrow> forward_target list \<times> node_context" where
  "leave_clear_targets nc = (case nc_leaving nc of
     None \<Rightarrow> ([], nc)
   | Some l \<Rightarrow> leave_targets l (sort (filter (\<lambda>name. name \<noteq> nc_name nc) (map fst (ls_addresses l)))) nc)"

subsection \<open>A re-replication\<close>

definition rereplication_targets :: "hash_ring \<Rightarrow> hash_ring \<Rightarrow> u64 \<Rightarrow> nat \<Rightarrow> bytes \<Rightarrow> bytes list" where
  "rereplication_targets before after key_hash replication self_name =
     (if \<not> is_owner_hashed before key_hash self_name replication then []
      else if self_name \<notin> set (nodes after) then []
      else
        let old_owners = owners_hashed before key_hash replication
        in filter (\<lambda>owner. owner \<notin> set old_owners) (owners_hashed after key_hash replication))"

definition rereplication_window_targets ::
    "rereplication_forward \<Rightarrow> bytes list \<Rightarrow> node_context \<Rightarrow> forward_target list \<times> node_context" where
  "rereplication_window_targets w names nc =
     (let (ts, connections, nc) = window_targets (rf_addresses w) (rf_tokens w) names (rf_connections w, nc)
      in (ts, nc\<lparr>nc_rereplication_forward := Some (w\<lparr>rf_connections := connections\<rparr>)\<rparr>))"

definition rereplication_targets_for_hashed :: "instant \<Rightarrow> node_context \<Rightarrow> u64 \<Rightarrow> forward_target list \<times> node_context" where
  "rereplication_targets_for_hashed now nc key_hash =
     (let nc = expire_rereplication now nc
      in case nc_rereplication_forward nc of
           None \<Rightarrow> ([], nc)
         | Some w \<Rightarrow>
             let names = rereplication_targets (rf_before_ring w) (rf_after_ring w) key_hash (rf_replication w) (nc_name nc);
                 names = filter (\<lambda>name. case nc_known_ring nc of
                     None \<Rightarrow> True
                   | Some m \<Rightarrow> is_owner_hashed (ms_ring m) key_hash name (ms_replication m)) names
             in rereplication_window_targets w names nc)"

definition rereplication_clear_targets :: "instant \<Rightarrow> node_context \<Rightarrow> forward_target list \<times> node_context" where
  "rereplication_clear_targets now nc =
     (let nc = expire_rereplication now nc
      in case nc_rereplication_forward nc of
           None \<Rightarrow> ([], nc)
         | Some w \<Rightarrow>
             rereplication_window_targets w (sort (filter (\<lambda>name. name \<noteq> nc_name nc) (nodes (rf_after_ring w)))) nc)"

definition handoff_targets_for_hashed :: "instant \<Rightarrow> node_context \<Rightarrow> u64 \<Rightarrow> forward_target list \<times> node_context" where
  "handoff_targets_for_hashed now nc key_hash =
     (let (leave, nc) = leave_target_for_hashed nc key_hash;
          (rereplication, nc) = rereplication_targets_for_hashed now nc key_hash
      in (leave @ rereplication, nc))"

end
