(* ===== verification/Migration_Slot.thy ===== *)
theory Migration_Slot
  imports Cluster_State
begin

text \<open>
  The node's one slot for a join handoff and the memberships it follows (\<^verbatim>\<open>src/server.rs\<close>:
  \<open>PendingClears\<close>, \<open>route_clear\<close>, \<open>RingHistory\<close>, \<open>MigrationGuard\<close>, \<open>take_slot_keeping_lingering\<close>,
  \<open>abandon_migration\<close>, \<open>abandon_departed_slot\<close>, \<open>adopt_membership\<close> and their helpers). The log lines have no
  counterpart.
\<close>

section \<open>Clears that wait for a transfer\<close>

definition MAX_REQUEST_SIZE :: nat where "MAX_REQUEST_SIZE = 1024 * 1024"

definition MAX_PENDING_CLEAR_NAMESPACES :: nat where "MAX_PENDING_CLEAR_NAMESPACES = 1024"

definition MAX_PENDING_CLEAR_BYTES :: nat where "MAX_PENDING_CLEAR_BYTES = 16 * MAX_REQUEST_SIZE"

definition pending_clears_default :: pending_clears where
  "pending_clears_default = \<lparr>pc_all = False, pc_namespaces = [], pc_bytes = 0\<rparr>"

definition collapse_to_all :: "pending_clears \<Rightarrow> pending_clears" where
  "collapse_to_all p = p\<lparr>pc_all := True, pc_namespaces := [], pc_bytes := 0\<rparr>"

definition pc_push :: "clear_scope \<Rightarrow> pending_clears \<Rightarrow> pending_clears" where
  "pc_push scope p =
     (if pc_all p then p
      else case scope of
        ScopeAll \<Rightarrow> collapse_to_all p
      | ScopeNamespace namespace \<Rightarrow>
          let p = (if namespace \<notin> set (pc_namespaces p)
                   then p\<lparr>pc_bytes := pc_bytes p + length namespace, pc_namespaces := pc_namespaces p @ [namespace]\<rparr>
                   else p)
          in if length (pc_namespaces p) > MAX_PENDING_CLEAR_NAMESPACES \<or> pc_bytes p > MAX_PENDING_CLEAR_BYTES
             then collapse_to_all p else p)"

text \<open>The set's drain has no fixed order: the list's order stands for any.\<close>

definition pc_take :: "pending_clears \<Rightarrow> clear_scope list \<times> pending_clears" where
  "pc_take p =
     (if pc_all p then ([ScopeAll], \<lparr>pc_all = False, pc_namespaces = [], pc_bytes = 0\<rparr>)
      else (map ScopeNamespace (pc_namespaces p), p\<lparr>pc_namespaces := [], pc_bytes := 0\<rparr>))"

datatype clear_route = RouteNone | RouteQueued | RouteForward forward_target

definition route_clear :: "instant \<Rightarrow> clear_scope \<Rightarrow> node_context \<Rightarrow> clear_route \<times> node_context" where
  "route_clear now scope nc =
     (let nc = expire_slot now nc
      in case nc_active_migration nc of
           None \<Rightarrow> (RouteNone, nc)
         | Some a \<Rightarrow>
             if am_completed_at a = None
             then (RouteQueued, nc\<lparr>nc_active_migration := Some (a\<lparr>am_pending_clears := pc_push scope (am_pending_clears a)\<rparr>)\<rparr>)
             else if \<not> am_forwarding_open now a then (RouteNone, nc)
             else (RouteForward (am_target False a), nc))"

section \<open>The memberships discovery published\<close>

definition record_if_new_at :: "membership \<Rightarrow> instant \<Rightarrow> ring_history \<Rightarrow> ring_history" where
  "record_if_new_at m now h =
     (if (case rh_epochs h of [] \<Rightarrow> False
          | _ \<Rightarrow> let newest = snd (last (rh_epochs h))
                 in ms_id newest = ms_id m \<or> same_members newest (nodes (ms_ring m)) (ms_replication m))
      then h
      else h\<lparr>rh_epochs := rh_epochs h @ [(now, m)], rh_generation := rh_generation h + 1\<rparr>)"

definition history_touch :: "ring_history \<Rightarrow> ring_history" where
  "history_touch h = h\<lparr>rh_generation := rh_generation h + 1\<rparr>"

definition rings_before :: "membership \<Rightarrow> ring_history \<Rightarrow> membership list" where
  "rings_before current h =
     filter (\<lambda>m. ms_id m \<noteq> ms_id current \<and> \<not> same_members m (nodes (ms_ring current)) (ms_replication current))
       (map snd (rev (rh_epochs h)))"

text \<open>\<^verbatim>\<open>Iterator::rposition\<close>: the index of the last element that satisfies the predicate.\<close>

definition rposition :: "('a \<Rightarrow> bool) \<Rightarrow> 'a list \<Rightarrow> nat option" where
  "rposition P xs = map_option (\<lambda>i. length xs - 1 - i) (position P (rev xs))"

definition checks_within_at ::
    "duration \<Rightarrow> bytes \<Rightarrow> instant \<Rightarrow> ring_history \<Rightarrow> (owner_check list \<times> nat) option \<times> ring_history" where
  "checks_within_at grace name now h =
     (if now < grace then (None, h)
      else
        let cutoff = now - grace
        in case rposition (\<lambda>(since, _). since \<le> cutoff) (rh_epochs h) of
             None \<Rightarrow> (None, h)
           | Some start \<Rightarrow>
               let h = h\<lparr>rh_epochs := drop start (rh_epochs h)\<rparr>
               in (Some (map (\<lambda>(_, m). \<lparr>oc_ring = ms_ring m, oc_name = name, oc_replication = ms_replication m\<rparr>)
                           (rh_epochs h), rh_generation h), h))"

definition RECLAIM_GRACE :: duration where "RECLAIM_GRACE = 120 * NANOS_PER_SEC"

definition reclaim_checks :: "instant \<Rightarrow> node_context \<Rightarrow> (owner_check list \<times> nat) option \<times> node_context" where
  "reclaim_checks now nc =
     (if \<not> nc_promoted nc then (None, nc)
      else if nc_leaving nc \<noteq> None then (None, nc)
      else if (case nc_active_migration nc of
                 None \<Rightarrow> False
               | Some a \<Rightarrow> am_completed_at a = None \<or> \<not> am_confirmed a \<or> am_forwarding_open now a
                   \<or> list_ex (lf_forwarding_open now) (am_lingering a))
      then (None, nc)
      else let (checks, h) = checks_within_at RECLAIM_GRACE (nc_name nc) now (nc_ring_history nc)
           in (checks, nc\<lparr>nc_ring_history := h\<rparr>))"

section \<open>Giving the slot up\<close>

definition revoke :: "arc list \<Rightarrow> node_context \<Rightarrow> node_context" where
  "revoke flags nc = nc\<lparr>nc_revoked := flags @ nc_revoked nc\<rparr>"

text \<open>Returns the taken handoff, its lingering drained; the joiners still in their window stay in a remnant.\<close>

definition take_slot_keeping_lingering :: "instant \<Rightarrow> node_context \<Rightarrow> active_migration option \<times> node_context" where
  "take_slot_keeping_lingering now nc = (case nc_active_migration nc of
     None \<Rightarrow> (None, nc)
   | Some taken \<Rightarrow>
       let lingering = filter (lf_forwarding_open now) (am_lingering taken);
           closed = filter (\<lambda>l. \<not> lf_forwarding_open now l) (am_lingering taken);
           nc = revoke (map lf_forward_revoked closed) (nc\<lparr>nc_active_migration := None\<rparr>);
           taken = taken\<lparr>am_lingering := []\<rparr>;
           nc = (if lingering = [] then nc
                 else
                   let (ring_id, nc) = arc_new nc;
                       remaining = filter (\<lambda>name. name \<noteq> am_joining_name taken) (nodes (am_after_ring taken))
                   in nc\<lparr>nc_active_migration := Some
                        (taken\<lparr>am_after_ring_id := ring_id, am_after_ring := new_ring remaining,
                           am_completed_at := Some now, am_forwarding_grace := 0, am_marked_keys := [],
                           am_confirmed := True, am_pre_completion_ring := None,
                           am_pending_clears := pending_clears_default, am_lingering := lingering,
                           am_remnant := True\<rparr>)\<rparr>)
       in (Some taken, nc))"

definition revert_known_ring_after_abandon :: "active_migration \<Rightarrow> node_context \<Rightarrow> node_context" where
  "revert_known_ring_after_abandon taken nc =
     (if (case nc_known_ring nc of None \<Rightarrow> False | Some current \<Rightarrow> ms_ring_id current = am_after_ring_id taken)
      then nc\<lparr>nc_known_ring := am_pre_completion_ring taken, nc_ring_history := history_touch (nc_ring_history nc)\<rparr>
      else nc)"

datatype taken_slot = TakenNoMatch | TakenAborting | TakenCompleted active_migration

definition take_abandoned_slot :: "instant \<Rightarrow> (active_migration \<Rightarrow> bool) \<Rightarrow> node_context \<Rightarrow> taken_slot \<times> node_context" where
  "take_abandoned_slot now matches nc = (case nc_active_migration nc of
     Some active \<Rightarrow>
       if matches active
       then
         let nc = revoke [am_forward_revoked active] (nc\<lparr>nc_aborted := am_abort_requested active # nc_aborted nc\<rparr>)
         in if am_completed_at active = None then (TakenAborting, nc)
            else (case take_slot_keeping_lingering now nc of
                (Some taken, nc) \<Rightarrow> (TakenCompleted taken, nc)
              | (None, nc) \<Rightarrow> (TakenNoMatch, nc))
       else (TakenNoMatch, nc)
   | None \<Rightarrow> (TakenNoMatch, nc))"

datatype abandon_outcome = AbandonNoMatch | AbandonCompleted "key list" | AbandonAborting

definition abandon_migration :: "instant \<Rightarrow> bytes \<Rightarrow> node_context \<Rightarrow> abandon_outcome \<times> node_context" where
  "abandon_migration now joining_name nc =
     (case take_abandoned_slot now (\<lambda>active. am_joining_name active = joining_name) nc of
        (TakenNoMatch, nc) \<Rightarrow> (AbandonNoMatch, nc)
      | (TakenAborting, nc) \<Rightarrow> (AbandonAborting, nc)
      | (TakenCompleted taken, nc) \<Rightarrow>
          (AbandonCompleted (am_marked_keys taken), revert_known_ring_after_abandon taken nc))"

definition unconfirmed_completed_joiner :: "node_context \<Rightarrow> (bytes \<times> arc) option" where
  "unconfirmed_completed_joiner nc = (case nc_active_migration nc of
     Some active \<Rightarrow>
       if am_completed_at active \<noteq> None \<and> \<not> am_confirmed active
       then Some (am_joining_name active, am_forward_revoked active) else None
   | None \<Rightarrow> None)"

definition abandon_departed_slot :: "instant \<Rightarrow> arc \<Rightarrow> node_context \<Rightarrow> (key list \<times> hash_ring) option \<times> node_context" where
  "abandon_departed_slot now identity nc =
     (case take_abandoned_slot now
         (\<lambda>active. am_forward_revoked active = identity \<and> am_completed_at active \<noteq> None \<and> \<not> am_remnant active) nc of
        (TakenCompleted taken, nc) \<Rightarrow>
          (Some (am_marked_keys taken, am_after_ring taken), revert_known_ring_after_abandon taken nc)
      | (_, nc) \<Rightarrow> (None, nc))"

definition marks_released :: "node_context \<Rightarrow> bool" where
  "marks_released nc = (case nc_active_migration nc of
     None \<Rightarrow> True | Some active \<Rightarrow> \<not> (am_completed_at active \<noteq> None \<and> \<not> am_confirmed active))"

section \<open>The guard of a handoff\<close>

datatype migration_outcome = MigrationNew arc "key list" | DuplicateAcked nat | MigrationConflict

text \<open>The forwarding windows a new handoff takes over from the one it supersedes, and the flags it revokes.\<close>

definition carried_lingering :: "instant \<Rightarrow> bytes \<Rightarrow> bool \<Rightarrow> active_migration \<Rightarrow> lingering_forward list \<times> arc list" where
  "carried_lingering now joining_name abandoned existing =
     (let older = filter (lf_forwarding_open now) (am_lingering existing);
          closed = map lf_forward_revoked (filter (\<lambda>l. \<not> lf_forwarding_open now l) (am_lingering existing));
          keep = (\<not> abandoned \<and> am_joining_name existing \<noteq> joining_name \<and> am_forwarding_open now existing
                  \<and> am_completed_at existing \<noteq> None)
      in case am_completed_at existing of
           Some completed_at \<Rightarrow>
             if keep
             then (older @ [\<lparr>lf_joining_name = am_joining_name existing, lf_joining_addr = am_joining_addr existing,
                      lf_joining_token = am_joining_token existing, lf_completed_at = completed_at,
                      lf_forwarding_grace = am_forwarding_grace existing,
                      lf_forward_connection = am_forward_connection existing,
                      lf_forward_revoked = am_forward_revoked existing\<rparr>], closed)
             else (older, closed @ [am_forward_revoked existing])
         | None \<Rightarrow> (older, closed @ [am_forward_revoked existing]))"

definition install_migration ::
    "bytes \<Rightarrow> bytes \<Rightarrow> bytes \<Rightarrow> arc \<Rightarrow> hash_ring \<Rightarrow> nat \<Rightarrow> nat option \<Rightarrow> lingering_forward list \<Rightarrow> node_context
      \<Rightarrow> arc \<times> node_context" where
  "install_migration joining_name joining_addr joining_token ring_id after_ring replication generation lingering nc =
     (let (abort_requested, nc) = arc_new nc;
          (connection, nc) = arc_new nc;
          (revoked, nc) = arc_new nc
      in (abort_requested, nc\<lparr>nc_active_migration := Some
           \<lparr>am_joining_name = joining_name, am_joining_addr = joining_addr, am_joining_token = joining_token,
            am_after_ring_id = ring_id, am_after_ring = after_ring, am_replication = replication,
            am_generation = generation, am_completed_at = None, am_forwarding_grace = 0, am_acked_entries = None,
            am_abort_requested = abort_requested, am_marked_keys = [], am_confirmed = False,
            am_pre_completion_ring = None, am_pending_clears = pending_clears_default,
            am_forward_connection = connection, am_forward_revoked = revoked, am_lingering = lingering,
            am_remnant = False\<rparr>\<rparr>))"

text \<open>A peer that sends no generation cannot disagree.\<close>

definition same_generation :: "nat option \<Rightarrow> nat option \<Rightarrow> bool" where
  "same_generation existing generation = (case (existing, generation) of (Some a, Some b) \<Rightarrow> a = b | _ \<Rightarrow> True)"

definition guard_new ::
    "instant \<Rightarrow> bytes \<Rightarrow> bytes \<Rightarrow> bytes \<Rightarrow> arc \<Rightarrow> hash_ring \<Rightarrow> nat \<Rightarrow> nat option \<Rightarrow> (bytes \<times> bytes) list \<Rightarrow> node_context
      \<Rightarrow> migration_outcome \<times> node_context" where
  "guard_new now joining_name joining_addr joining_token ring_id after_ring replication generation joined nc =
     (let nc = expire_slot now nc;
          install = install_migration joining_name joining_addr joining_token ring_id after_ring replication generation
      in case nc_active_migration nc of
           None \<Rightarrow> let (abort_requested, nc) = install [] nc in (MigrationNew abort_requested [], nc)
         | Some existing \<Rightarrow>
             let same_name = (am_joining_name existing = joining_name);
                 retry = same_generation (am_generation existing) generation
             in if same_name \<and> retry \<and> \<not> am_remnant existing
                then (case am_acked_entries existing of
                    Some acked_entries \<Rightarrow> DuplicateAcked acked_entries | None \<Rightarrow> MigrationConflict, nc)
                else if am_completed_at existing = None
                then (MigrationConflict,
                  if same_name
                  then revoke [am_forward_revoked existing] (nc\<lparr>nc_aborted := am_abort_requested existing # nc_aborted nc\<rparr>)
                  else nc)
                else
                  let previous_confirmed = (am_confirmed existing
                        \<or> list_ex (\<lambda>(name, _). name = am_joining_name existing) joined);
                      restore = (if previous_confirmed then [] else am_marked_keys existing);
                      (lingering, flags) = carried_lingering now joining_name (\<not> previous_confirmed) existing;
                      (abort_requested, nc) = install lingering (revoke flags nc);
                      nc = (if previous_confirmed then nc else revert_known_ring_after_abandon existing nc)
                  in (MigrationNew abort_requested restore, nc))"

definition guard_ack :: "nat \<Rightarrow> node_context \<Rightarrow> node_context" where
  "guard_ack entries nc = (case nc_active_migration nc of
     None \<Rightarrow> nc | Some active \<Rightarrow> nc\<lparr>nc_active_migration := Some (active\<lparr>am_acked_entries := Some entries\<rparr>)\<rparr>)"

definition take_join_marks :: "arc \<Rightarrow> node_context \<Rightarrow> key list \<times> node_context" where
  "take_join_marks abort_requested nc = (case nc_active_migration nc of
     Some active \<Rightarrow>
       if am_abort_requested active = abort_requested
       then (am_marked_keys active, nc\<lparr>nc_active_migration := Some (active\<lparr>am_marked_keys := []\<rparr>)\<rparr>)
       else ([], nc)
   | None \<Rightarrow> ([], nc))"

definition FORWARDING_GRACE_BASE :: duration where "FORWARDING_GRACE_BASE = 60 * NANOS_PER_SEC"

definition FORWARDING_GRACE_PER_ENTRY :: duration where "FORWARDING_GRACE_PER_ENTRY = 5 * (NANOS_PER_SEC div 1000)"

definition forwarding_grace :: "nat \<Rightarrow> duration" where
  "forwarding_grace entries_sent = FORWARDING_GRACE_BASE + FORWARDING_GRACE_PER_ENTRY * min entries_sent U32_MAX"

definition guard_completed :: "instant \<Rightarrow> nat \<Rightarrow> key list \<Rightarrow> membership option \<Rightarrow> node_context \<Rightarrow> node_context" where
  "guard_completed now entries_sent marked_keys pre_completion_ring nc = (case nc_active_migration nc of
     None \<Rightarrow> nc
   | Some active \<Rightarrow> nc\<lparr>nc_active_migration := Some
       (active\<lparr>am_completed_at := Some now, am_forwarding_grace := forwarding_grace entries_sent,
          am_marked_keys := am_marked_keys active @ marked_keys, am_pre_completion_ring := pre_completion_ring\<rparr>)\<rparr>)"

text \<open>Dropping a guard that was not completed.\<close>

definition guard_drop :: "instant \<Rightarrow> node_context \<Rightarrow> node_context" where
  "guard_drop now nc = (case take_slot_keeping_lingering now nc of
     (Some taken, nc) \<Rightarrow> revoke [am_forward_revoked taken] nc | (None, nc) \<Rightarrow> nc)"

section \<open>Adopting a roster\<close>

definition migration_rings :: "bytes \<Rightarrow> bytes \<Rightarrow> (bytes \<times> bytes) list \<Rightarrow> hash_ring \<times> hash_ring" where
  "migration_rings self_name joining_name joined =
     (let before_members = map fst joined;
          before_members = (if self_name \<in> set before_members then before_members else before_members @ [self_name]);
          before_members = remdups_adj (sort before_members);
          after_members = remdups_adj (sort (before_members @ [joining_name]))
      in (new_ring before_members, new_ring after_members))"

record ring_change =
  rc_before :: "membership option"
  rc_after :: membership

text \<open>What the roster says of the slot: is its join still pending, and what is left of the slot.\<close>

definition judge_slot :: "instant \<Rightarrow> bytes list \<Rightarrow> node_context \<Rightarrow> bool \<times> node_context" where
  "judge_slot now members nc = (case nc_active_migration nc of
     None \<Rightarrow> (False, nc)
   | Some active \<Rightarrow>
       let joiner_listed = (am_joining_name active \<in> set members);
           active = (if joiner_listed \<and> am_completed_at active \<noteq> None \<and> \<not> am_confirmed active
                     then active\<lparr>am_confirmed := True\<rparr> else active);
           joiner_gone = (am_confirmed active \<and> \<not> joiner_listed);
           nc = (if joiner_gone then revoke [am_forward_revoked active] nc else nc);
           pending = (am_forwarding_open now active \<and> \<not> joiner_listed \<and> \<not> am_confirmed active);
           joiner_evicted = (joiner_gone \<and> am_forwarding_open now active);
           evicted = filter (\<lambda>l. lf_joining_name l \<notin> set members) (am_lingering active);
           active = active\<lparr>am_lingering := filter (\<lambda>l. lf_joining_name l \<in> set members) (am_lingering active)\<rparr>;
           nc = revoke (map lf_forward_revoked evicted) (nc\<lparr>nc_active_migration := Some active\<rparr>);
           nc = (if joiner_evicted
                 then (case take_slot_keeping_lingering now nc of
                     (Some taken, nc) \<Rightarrow> revoke [am_forward_revoked taken] nc | (None, nc) \<Rightarrow> nc)
                 else nc)
       in (pending, nc))"

definition adopt_membership ::
    "instant \<Rightarrow> bytes list \<Rightarrow> nat \<Rightarrow> node_context \<Rightarrow> ring_change option \<times> node_context" where
  "adopt_membership now members replication nc =
     (let (join_still_pending, nc) = judge_slot now members nc
      in if join_still_pending then (None, nc)
         else
           let members = remdups_adj (sort members);
               unchanged = (case nc_known_ring nc of
                 None \<Rightarrow> False | Some current \<Rightarrow> same_members current members replication)
           in if unchanged then (None, nc)
              else
                let before = nc_known_ring nc;
                    (ring_id, nc) = arc_new nc; (mid, nc) = arc_new nc;
                    after = \<lparr>ms_id = mid, ms_ring_id = ring_id, ms_ring = new_ring members, ms_replication = replication\<rparr>
                in (Some \<lparr>rc_before = before, rc_after = after\<rparr>, nc\<lparr>nc_known_ring := Some after\<rparr>))"

definition published_membership :: "ring_change option \<Rightarrow> bytes list \<Rightarrow> nat \<Rightarrow> node_context \<Rightarrow> membership option" where
  "published_membership change roster replication nc = (case change of
     Some change \<Rightarrow> Some (rc_after change)
   | None \<Rightarrow>
       (case nc_known_ring nc of
          None \<Rightarrow> None
        | Some current \<Rightarrow> if same_members current roster replication then Some current else None))"

definition ring_dropped_a_member :: "hash_ring \<Rightarrow> hash_ring \<Rightarrow> bool" where
  "ring_dropped_a_member before after = list_ex (\<lambda>node. node \<notin> set (nodes after)) (nodes before)"

definition dropped_a_member :: "ring_change \<Rightarrow> bool" where
  "dropped_a_member change = (case rc_before change of
     None \<Rightarrow> False | Some before \<Rightarrow> ring_dropped_a_member (ms_ring before) (ms_ring (rc_after change)))"

datatype decommission_key_outcome = KeyNotOwned | KeyDeadlinePassed | KeyOwned

definition classify_decommission_key :: "u64 \<Rightarrow> hash_ring \<Rightarrow> bytes \<Rightarrow> nat \<Rightarrow> bool \<Rightarrow> decommission_key_outcome" where
  "classify_decommission_key key_hash before_ring self_name replication deadline_passed =
     (if \<not> is_owner_hashed before_ring key_hash self_name replication then KeyNotOwned
      else if deadline_passed then KeyDeadlinePassed else KeyOwned)"

end
