(* ===== verification/Cluster_Props.thy ===== *)
theory Cluster_Props
  imports Migration_Slot
begin

text \<open>
  What the cluster state guarantees: who serves a key in a settled cluster, and who receives the copies of a
  node that leaves or was evicted.
\<close>

section \<open>Rankings of a part of the members\<close>

lemma hrw_rank_filter: "hrw_rank (filter P ns) h = filter P (hrw_rank ns h)"
proof -
  have "score_list (filter P ns) h = filter (P \<circ> node) (score_list ns h)"
    by (induction ns) (auto simp: score_list_def)
  then show ?thesis
    by (simp add: hrw_rank_def filter_map filter_sort)
qed

lemma hrw_rank_part:
  assumes "distinct ns" "distinct ms" "set ns \<subseteq> set ms"
  shows "hrw_rank ns h = filter (\<lambda>n. n \<in> set ns) (hrw_rank ms h)"
  unfolding hrw_rank_filter [symmetric] by (rule hrw_rank_cong) (use assms in auto)

lemma in_take_filter: "x \<in> set (take r xs) \<Longrightarrow> P x \<Longrightarrow> x \<in> set (take r (filter P xs))"
proof (induction xs arbitrary: r)
  case (Cons a xs)
  show ?case
  proof (cases r)
    case (Suc k)
    then have "x = a \<or> x \<in> set (take k (filter P xs))" using Cons by auto
    then show ?thesis
      using Cons.prems(2) Suc set_take_subset_set_take [of k "Suc k" "filter P xs"] by auto
  qed (use Cons.prems in simp)
qed simp

lemma survivor_keeps_rank:
  assumes "distinct ns" "distinct ms" "set ns \<subseteq> set ms" "x \<in> set ns" "x \<in> set (owners_hashed (new_ring ms) h r)"
  shows "x \<in> set (owners_hashed (new_ring ns) h r)"
  using assms node_ring.ranks [OF assms(1)] node_ring.ranks [OF assms(2)] hrw_rank_part [OF assms(1-3), of h]
  by (simp add: in_take_filter)

lemma find_appended: "\<forall>x \<in> set xs. \<not> P x \<Longrightarrow> P y \<Longrightarrow> find P (xs @ [y]) = Some y"
  by (induction xs) auto

lemma nodes_new_ring [simp]: "distinct ns \<Longrightarrow> nodes (new_ring ns) = ns"
  by (simp add: new_ring_def Let_def)


section \<open>Serving\<close>

text \<open>A node of a settled cluster: promoted, with the roster \<open>ns\<close> adopted and no join under way.\<close>

definition settled :: "bytes list \<Rightarrow> nat \<Rightarrow> node_context \<Rightarrow> bool" where
  "settled ns r nc \<longleftrightarrow> nc_promoted nc \<and> nc_active_migration nc = None
     \<and> (\<exists>m. nc_known_ring nc = Some m \<and> ms_ring m = new_ring ns \<and> ms_replication m = r)
     \<and> (\<forall>m. nc_latest_published nc = Some m \<longrightarrow> ms_ring m = new_ring ns \<and> ms_replication m = r)"

lemma settled_wrong_node:
  "settled ns r nc \<Longrightarrow> fst (wrong_node_hashed now nc h) \<longleftrightarrow> \<not> is_owner_hashed (new_ring ns) h (nc_name nc) r"
  by (auto simp: settled_def wrong_node_hashed_def Let_def serving_locally_for_unconfirmed_join_def expire_slot_def
      owns_under_latest_published_def owns_under_def split: option.splits)

lemma settled_wrong_node_state: "settled ns r nc \<Longrightarrow> snd (wrong_node_hashed now nc h) = nc"
  by (auto simp: settled_def wrong_node_hashed_def Let_def serving_locally_for_unconfirmed_join_def expire_slot_def
      split: option.splits)

lemma settled_not_primary:
  assumes "settled ns r nc"
  shows "fst (not_the_primary now nc h) \<longleftrightarrow>
    \<not> (is_owner_hashed (new_ring ns) h (nc_name nc) r \<and> is_owner_hashed (new_ring ns) h (nc_name nc) 1)"
  using settled_wrong_node [OF assms, of now h] settled_wrong_node_state [OF assms, of now h] assms
  by (auto simp: not_the_primary_def Let_def case_prod_unfold settled_def serving_locally_for_unconfirmed_join_def
      expire_slot_def split: option.splits)

lemma first_owner:
  assumes "distinct ns" "ns \<noteq> []" "0 < r"
  shows "owners_hashed (new_ring ns) h 1 = [hd (owners_hashed (new_ring ns) h r)]"
    and "hd (owners_hashed (new_ring ns) h r) \<in> set (owners_hashed (new_ring ns) h r)"
proof -
  have len: "owners_hashed (new_ring ns) h r \<noteq> []"
    using assms(2,3) node_ring.owners_length [OF assms(1), of h r] by (cases ns) auto
  have "owners_hashed (new_ring ns) h 1 = take 1 (owners_hashed (new_ring ns) h r)"
    by (rule node_ring.owners_prefix) (use assms in auto)
  then show "owners_hashed (new_ring ns) h 1 = [hd (owners_hashed (new_ring ns) h r)]"
    using len by (cases "owners_hashed (new_ring ns) h r") auto
  show "hd (owners_hashed (new_ring ns) h r) \<in> set (owners_hashed (new_ring ns) h r)"
    using len by simp
qed

text \<open>C32. In a settled cluster the nodes divide the work without a gap or an overlap: the nodes that serve a key
  are exactly its owners, as many as the replication factor asks for (or all of them), and exactly one node,
  the first owner, takes itself for the key's primary.\<close>

theorem settled_cluster_serves:
  assumes "distinct ns" "ns \<noteq> []" "0 < r"
    and "\<forall>n \<in> set ns. settled ns r (ctx n) \<and> nc_name (ctx n) = n"
  shows "{n \<in> set ns. \<not> fst (wrong_node_hashed now (ctx n) h)} = set (owners_hashed (new_ring ns) h r)
    \<and> card (set (owners_hashed (new_ring ns) h r)) = min r (length ns)
    \<and> {n \<in> set ns. \<not> fst (not_the_primary now (ctx n) h)} = {hd (owners_hashed (new_ring ns) h r)}"
proof -
  have sub: "set (owners_hashed (new_ring ns) h r) \<subseteq> set ns"
    by (rule node_ring.owners_members [OF assms(1)])
  have "n \<in> set ns \<Longrightarrow> (\<not> fst (wrong_node_hashed now (ctx n) h)) = (n \<in> set (owners_hashed (new_ring ns) h r))" for n
    using assms(4) settled_wrong_node [of ns r "ctx n" now h] is_owner_hashed_iff [of ns h n r] by auto
  then have serve: "{n \<in> set ns. \<not> fst (wrong_node_hashed now (ctx n) h)} = set (owners_hashed (new_ring ns) h r)"
    using sub by auto
  have "n \<in> set ns \<Longrightarrow> (\<not> fst (not_the_primary now (ctx n) h)) = (n = hd (owners_hashed (new_ring ns) h r))" for n
    using assms(4) settled_not_primary [of ns r "ctx n" now h] first_owner [OF assms(1-3), of h]
      is_owner_hashed_iff [of ns h n r] is_owner_hashed_iff [of ns h n 1] by auto
  then have "{n \<in> set ns. \<not> fst (not_the_primary now (ctx n) h)} = {hd (owners_hashed (new_ring ns) h r)}"
    using sub first_owner(2) [OF assms(1-3), of h] by auto
  moreover have "card (set (owners_hashed (new_ring ns) h r)) = min r (length ns)"
    using assms(1) by (simp add: distinct_card node_ring.owners_distinct node_ring.owners_length)
  ultimately show ?thesis using serve by simp
qed

definition settled_node :: "bytes list \<Rightarrow> nat \<Rightarrow> bytes \<Rightarrow> node_context" where
  "settled_node ns r n = \<lparr>nc_name = n, nc_token = ''t'', nc_active_migration = None,
     nc_known_ring = Some \<lparr>ms_id = 1, ms_ring_id = 0, ms_ring = new_ring ns, ms_replication = r\<rparr>,
     nc_latest_published = None, nc_promoted = True, nc_leaving = None, nc_rereplication_forward = None,
     nc_ring_history = \<lparr>rh_epochs = [], rh_generation = 0\<rparr>, nc_fresh = 2, nc_revoked = [], nc_aborted = []\<rparr>"

theorem settled_cluster_serves_witness:
  "settled [''a'', ''b'', ''c''] 2 (settled_node [''a'', ''b'', ''c''] 2 ''a'')
   \<and> settled [''a'', ''b'', ''c''] 2 (settled_node [''a'', ''b'', ''c''] 2 ''b'')
   \<and> settled [''a'', ''b'', ''c''] 2 (settled_node [''a'', ''b'', ''c''] 2 ''c'')
   \<and> card {n \<in> set [''a'', ''b'', ''c'']. \<not> fst (wrong_node_hashed 9 (settled_node [''a'', ''b'', ''c''] 2 n) 5)} = 2
   \<and> is_singleton {n \<in> set [''a'', ''b'', ''c'']. \<not> fst (not_the_primary 9 (settled_node [''a'', ''b'', ''c''] 2 n) 5)}"
proof -
  have each: "settled [''a'', ''b'', ''c''] 2 (settled_node [''a'', ''b'', ''c''] 2 n)
      \<and> nc_name (settled_node [''a'', ''b'', ''c''] 2 n) = n" for n
    by (simp add: settled_def settled_node_def)
  then have all: "\<forall>n \<in> set [''a'', ''b'', ''c'']. settled [''a'', ''b'', ''c''] 2 (settled_node [''a'', ''b'', ''c''] 2 n)
      \<and> nc_name (settled_node [''a'', ''b'', ''c''] 2 n) = n" by blast
  have pre: "distinct [''a'', ''b'', ''c'']" "[''a'', ''b'', ''c''] \<noteq> []" "0 < (2::nat)" by simp_all
  note main = settled_cluster_serves [OF pre all, of 9 5]
  have "card {n \<in> set [''a'', ''b'', ''c'']. \<not> fst (wrong_node_hashed 9 (settled_node [''a'', ''b'', ''c''] 2 n) 5)} = 2"
    using main by (simp only: min_def) simp
  then show ?thesis
    using each main by (simp only: is_singleton_def) blast
qed

section \<open>Copies of a node that is gone\<close>

text \<open>C33. A node that leaves hands each key to the right node: for a key it owns, in a cluster with enough other
  nodes, there is exactly one node that the leave makes an owner, it becomes the last owner, the others keep
  their order, and that node is the one the leaver sends the key to; for a key it does not own the leave
  changes no owner and the leaver sends nothing.\<close>

theorem leave_hands_to_the_promoted:
  assumes "distinct ns" "x \<notin> set ns" "set ms = insert x (set ns)" "distinct ms" "r \<le> length ns"
    and "ls_before_ring l = new_ring ms" "ls_after_ring l = new_ring ns" "ls_replication l = r"
  shows "if x \<in> set (owners_hashed (new_ring ms) h r)
    then \<exists>y. entrant_for l h x = Some y \<and> y \<notin> set (owners_hashed (new_ring ms) h r)
      \<and> owners_hashed (new_ring ns) h r = filter (\<lambda>n. n \<noteq> x) (owners_hashed (new_ring ms) h r) @ [y]
    else entrant_for l h x = None \<and> owners_hashed (new_ring ns) h r = owners_hashed (new_ring ms) h r"
proof (cases "x \<in> set (owners_hashed (new_ring ms) h r)")
  case True
  then obtain y where y: "y \<notin> set (owners_hashed (new_ring ms) h r)"
      "owners_hashed (new_ring ns) h r = filter (\<lambda>n. n \<noteq> x) (owners_hashed (new_ring ms) h r) @ [y]"
    using node_ring.leave_promotes_next [OF assms(1,4,2,3)] assms(5) by blast
  have "find (\<lambda>o'. o' \<notin> set (owners_hashed (new_ring ms) h r))
      (filter (\<lambda>n. n \<noteq> x) (owners_hashed (new_ring ms) h r) @ [y]) = Some y"
    by (rule find_appended) (use y(1) in auto)
  then show ?thesis
    using True y assms by (simp add: entrant_for_def is_owner_hashed_iff)
next
  case False
  then show ?thesis
    using node_ring.join_displaces_last [OF assms(1,4,2,3), of h r] assms
    by (simp add: entrant_for_def is_owner_hashed_iff)
qed

theorem leave_hands_to_the_promoted_witness:
  "let l = \<lparr>ls_before_ring = new_ring [''a'', ''b'', ''c''], ls_after_ring = new_ring [''b'', ''c''],
             ls_replication = 2, ls_addresses = [], ls_tokens = [], ls_connections = []\<rparr>
   in is_owner_hashed (ls_before_ring l) 5 ''a'' 2 \<and> (\<exists>y. entrant_for l 5 ''a'' = Some y
     \<and> owners_hashed (new_ring [''b'', ''c'']) 5 2
         = filter (\<lambda>n. n \<noteq> ''a'') (owners_hashed (new_ring [''a'', ''b'', ''c'']) 5 2) @ [y])"
proof -
  have own: "is_owner_hashed (new_ring [''a'', ''b'', ''c'']) 5 ''a'' 2" by code_simp
  show ?thesis
    using own leave_hands_to_the_promoted [of "[''b'', ''c'']" "''a''" "[''a'', ''b'', ''c'']" 2
        "\<lparr>ls_before_ring = new_ring [''a'', ''b'', ''c''], ls_after_ring = new_ring [''b'', ''c''],
          ls_replication = 2, ls_addresses = [], ls_tokens = [], ls_connections = []\<rparr>" 5]
    by (auto simp: is_owner_hashed_iff Let_def)
qed

text \<open>C34. When members drop out, the survivors repair every key: a surviving owner stays an owner, and the nodes
  it sends the key to are exactly the owners the change promoted, each once, as many as owners were lost while
  enough members remain.\<close>

theorem rereplication_repairs:
  assumes "distinct ns" "distinct ms" "set ns \<subseteq> set ms" "x \<in> set ns" "x \<in> set (owners_hashed (new_ring ms) h r)"
    and "r \<le> length ns"
  shows "x \<in> set (owners_hashed (new_ring ns) h r)
    \<and> set (rereplication_targets (new_ring ms) (new_ring ns) h r x)
        = set (owners_hashed (new_ring ns) h r) - set (owners_hashed (new_ring ms) h r)
    \<and> distinct (rereplication_targets (new_ring ms) (new_ring ns) h r x)
    \<and> length (rereplication_targets (new_ring ms) (new_ring ns) h r x)
        = card (set (owners_hashed (new_ring ms) h r) - set ns)"
proof -
  let ?new = "owners_hashed (new_ring ns) h r" and ?old = "owners_hashed (new_ring ms) h r"
  have targets: "rereplication_targets (new_ring ms) (new_ring ns) h r x = filter (\<lambda>o'. o' \<notin> set ?old) ?new"
    using assms by (simp add: rereplication_targets_def is_owner_hashed_iff)
  have keep: "set ?old \<inter> set ns \<subseteq> set ?new"
    using survivor_keeps_rank [OF assms(1-3)] by blast
  have new: "set ?new \<subseteq> set ns" "distinct ?new" "card (set ?new) = r"
    using assms(1,6) node_ring.owners_members [OF assms(1)]
    by (simp_all add: node_ring.owners_distinct node_ring.owners_length distinct_card min_absorb1)
  have old: "card (set ?old) = r"
    using assms(1,2,3,6) card_mono [of "set ms" "set ns"]
    by (simp add: node_ring.owners_distinct node_ring.owners_length distinct_card)
  have both: "set ?new \<inter> set ?old = set ?old \<inter> set ns" using keep new(1) by blast
  have "card (set ?new - set ?old) = r - card (set ?old \<inter> set ns)"
    using new(3) both by (metis card_Diff_subset_Int finite_Int List.finite_set)
  moreover have "card (set ?old - set ns) = r - card (set ?old \<inter> set ns)"
    using old by (metis card_Diff_subset_Int finite_Int List.finite_set)
  moreover have "length (filter (\<lambda>o'. o' \<notin> set ?old) ?new) = card (set ?new - set ?old)"
    using new(2) by (metis distinct_card distinct_filter set_diff_eq set_filter)
  ultimately show ?thesis
    using assms(4,5) keep new(2) by (auto simp: targets)
qed

theorem rereplication_repairs_witness:
  "set [''a'', ''b''] \<subseteq> set [''a'', ''b'', ''c''] \<and> ''a'' \<in> set (owners_hashed (new_ring [''a'', ''b'', ''c'']) 5 2)
   \<and> rereplication_targets (new_ring [''a'', ''b'', ''c'']) (new_ring [''a'', ''b'']) 5 2 ''a'' = [''b'']
   \<and> length (rereplication_targets (new_ring [''a'', ''b'', ''c'']) (new_ring [''a'', ''b'']) 5 2 ''a'')
       = card (set (owners_hashed (new_ring [''a'', ''b'', ''c'']) 5 2) - set [''a'', ''b''])"
proof -
  have "is_owner_hashed (new_ring [''a'', ''b'', ''c'']) 5 ''a'' 2" by code_simp
  then have own: "''a'' \<in> set (owners_hashed (new_ring [''a'', ''b'', ''c'']) 5 2)" by (simp add: is_owner_hashed_iff)
  have sent: "rereplication_targets (new_ring [''a'', ''b'', ''c'']) (new_ring [''a'', ''b'']) 5 2 ''a'' = [''b'']"
    by code_simp
  have pre: "distinct [''a'', ''b'']" "distinct [''a'', ''b'', ''c'']" "set [''a'', ''b''] \<subseteq> set [''a'', ''b'', ''c'']"
    "''a'' \<in> set [''a'', ''b'']" "2 \<le> length [''a'', ''b'']" by auto
  show ?thesis
    using own sent pre(3) rereplication_repairs [OF pre(1-4) own pre(5)] by blast
qed

end
