(* ===== verification/Slot_Props.thy ===== *)
theory Slot_Props
  imports Migration_Slot
begin

text \<open>
  What the handoff slot, the clears waiting on it and the history of published memberships guarantee over
  the operations of \<open>Migration_Slot\<close>.
\<close>

section \<open>The slot\<close>

text \<open>Every flag the context knows was allocated before.\<close>

definition slot_flags :: "active_migration \<Rightarrow> arc list" where
  "slot_flags a = am_abort_requested a # am_forward_revoked a # map lf_forward_revoked (am_lingering a)"

definition flags_allocated :: "node_context \<Rightarrow> bool" where
  "flags_allocated nc \<longleftrightarrow> (\<forall>f \<in> set (nc_revoked nc) \<union> set (nc_aborted nc). f < nc_fresh nc)
     \<and> (\<forall>a. nc_active_migration nc = Some a \<longrightarrow> (\<forall>f \<in> set (slot_flags a). f < nc_fresh nc))"

lemmas slot_evals = guard_new_def install_migration_def revoke_def arc_new_def expire_slot_def
  revert_known_ring_after_abandon_def

lemma running_not_expired: "am_completed_at a = None \<Longrightarrow> \<not> am_expired now a"
  by (simp add: am_expired_def am_forwarding_open_def)

lemma expired_is_decided: "am_expired now a \<Longrightarrow> am_confirmed a \<and> am_completed_at a \<noteq> None"
  by (auto simp: am_expired_def am_forwarding_open_def split: option.splits)

lemma carried_flags:
  "carried_lingering now name abandoned a = (ls, fs) \<Longrightarrow>
    set (map lf_forward_revoked ls) \<union> set fs \<subseteq> set (slot_flags a)"
  by (auto simp: carried_lingering_def slot_flags_def Let_def split: option.splits if_splits)

lemma installed:
  assumes "install_migration name addr token ring_id ring r gen lingering nc = (f, nc')"
    and "\<forall>g \<in> set (nc_revoked nc) \<union> set (nc_aborted nc) \<union> set (map lf_forward_revoked lingering). g < nc_fresh nc"
  shows "\<exists>a. nc_active_migration nc' = Some a \<and> am_joining_name a = name \<and> am_joining_addr a = addr
      \<and> am_generation a = gen \<and> am_completed_at a = None \<and> am_acked_entries a = None \<and> \<not> am_remnant a
      \<and> am_marked_keys a = [] \<and> am_abort_requested a = f
      \<and> f \<notin> set (nc_aborted nc') \<and> am_forward_revoked a \<notin> set (nc_revoked nc') \<and> am_lingering a = lingering"
    and "flags_allocated nc'" and "nc_known_ring nc' = nc_known_ring nc" "nc_revoked nc' = nc_revoked nc"
      "nc_aborted nc' = nc_aborted nc"
proof -
  have nc': "nc' = snd (install_migration name addr token ring_id ring r gen lingering nc)" and f: "f = nc_fresh nc"
    using assms(1) by (auto simp: install_migration_def arc_new_def Let_def)
  have new: "x \<notin> set (nc_revoked nc)" "x \<notin> set (nc_aborted nc)" if "nc_fresh nc \<le> x" for x
    using assms(2) that by (auto simp: not_le [symmetric])
  show "\<exists>a. nc_active_migration nc' = Some a \<and> am_joining_name a = name \<and> am_joining_addr a = addr
      \<and> am_generation a = gen \<and> am_completed_at a = None \<and> am_acked_entries a = None \<and> \<not> am_remnant a
      \<and> am_marked_keys a = [] \<and> am_abort_requested a = f
      \<and> f \<notin> set (nc_aborted nc') \<and> am_forward_revoked a \<notin> set (nc_revoked nc') \<and> am_lingering a = lingering"
    by (simp add: nc' f install_migration_def arc_new_def Let_def new)
  show "flags_allocated nc'"
    using assms(2) by (auto simp: nc' install_migration_def arc_new_def Let_def flags_allocated_def slot_flags_def
        intro!: less_SucI)
  show "nc_known_ring nc' = nc_known_ring nc" "nc_revoked nc' = nc_revoked nc" "nc_aborted nc' = nc_aborted nc"
    by (simp_all add: nc' install_migration_def arc_new_def Let_def)
qed

lemma expire_slot_flags: "flags_allocated nc \<Longrightarrow> flags_allocated (expire_slot now nc)"
  by (auto simp: flags_allocated_def expire_slot_def split: option.splits)

lemma revert_keeps:
  "nc_active_migration (revert_known_ring_after_abandon a nc) = nc_active_migration nc"
  "nc_revoked (revert_known_ring_after_abandon a nc) = nc_revoked nc"
  "nc_aborted (revert_known_ring_after_abandon a nc) = nc_aborted nc"
  "nc_fresh (revert_known_ring_after_abandon a nc) = nc_fresh nc"
  "flags_allocated (revert_known_ring_after_abandon a nc) = flags_allocated nc"
  by (simp_all add: revert_known_ring_after_abandon_def flags_allocated_def)

lemma guard_new_empty:
  assumes "nc_active_migration (expire_slot now nc) = None"
  shows "guard_new now name addr token ring_id ring r gen joined nc =
    (let (f, nc') = install_migration name addr token ring_id ring r gen [] (expire_slot now nc)
     in (MigrationNew f [], nc'))"
  using assms by (simp add: guard_new_def Let_def)

lemma guard_new_over:
  assumes "nc_active_migration (expire_slot now nc) = Some old" "am_completed_at old \<noteq> None"
    and "\<not> (am_joining_name old = name \<and> same_generation (am_generation old) gen \<and> \<not> am_remnant old)"
    and "confirmed = (am_confirmed old \<or> am_joining_name old \<in> fst ` set joined)"
  shows "guard_new now name addr token ring_id ring r gen joined nc =
    (let (ls, fs) = carried_lingering now name (\<not> confirmed) old;
         (f, nc') = install_migration name addr token ring_id ring r gen ls (revoke fs (expire_slot now nc))
     in (MigrationNew f (if confirmed then [] else am_marked_keys old),
         if confirmed then nc' else revert_known_ring_after_abandon old nc'))"
proof -
  have "list_ex (\<lambda>(n, _). n = am_joining_name old) joined \<longleftrightarrow> am_joining_name old \<in> fst ` set joined"
    by (force simp: list_ex_iff)
  then show ?thesis
    using assms by (auto simp: guard_new_def Let_def case_prod_unfold)
qed


lemma guard_new_refuses:
  assumes "nc_active_migration (expire_slot now nc) = Some old"
    and "am_joining_name old = name \<and> same_generation (am_generation old) gen \<and> \<not> am_remnant old
         \<or> am_completed_at old = None"
    and "guard_new now name addr token ring_id ring r gen joined nc = (out, nc')"
  shows "(\<forall>f restore. out \<noteq> MigrationNew f restore) \<and> nc_active_migration nc' = Some old
    \<and> nc_known_ring nc' = nc_known_ring nc"
proof -
  have "nc_known_ring (expire_slot now nc) = nc_known_ring nc"
    by (simp add: expire_slot_def split: option.splits)
  then show ?thesis
    using assms by (auto simp: guard_new_def Let_def revoke_def split: option.splits if_splits)
qed

lemma refused_keeps:
  assumes "guard_new now name addr token ring_id ring r gen joined nc = (out, nc')" "\<forall>f restore. out \<noteq> MigrationNew f restore"
  shows "nc_active_migration nc' = nc_active_migration nc \<and> nc_known_ring nc' = nc_known_ring nc"
proof (cases "nc_active_migration (expire_slot now nc)")
  case None
  then show ?thesis
    using assms guard_new_empty [OF None, of name addr token ring_id ring r gen joined] by (auto simp: Let_def split: prod.splits)
next
  case (Some old)
  have same: "nc_active_migration nc = Some old"
    using Some by (auto simp: expire_slot_def split: option.splits if_splits)
  have "am_joining_name old = name \<and> same_generation (am_generation old) gen \<and> \<not> am_remnant old
      \<or> am_completed_at old = None"
    using assms guard_new_over [OF Some _ _ refl, of name gen addr token ring_id ring r joined]
    by (fastforce simp: Let_def split: prod.splits)
  then show ?thesis
    using guard_new_refuses [OF Some _ assms(1)] same by simp
qed

lemma guard_new_grants:
  assumes "flags_allocated nc" "guard_new now name addr token ring_id ring r gen joined nc = (MigrationNew f restore, nc')"
  obtains ls nc1 nc2 where
    "install_migration name addr token ring_id ring r gen ls nc1 = (f, nc2)"
    "\<forall>g \<in> set (nc_revoked nc1) \<union> set (nc_aborted nc1) \<union> set (map lf_forward_revoked ls). g < nc_fresh nc1"
    "nc' = nc2 \<or> (\<exists>old. nc' = revert_known_ring_after_abandon old nc2)"
    "case nc_active_migration nc of None \<Rightarrow> restore = []
     | Some old \<Rightarrow> am_completed_at old \<noteq> None
         \<and> restore = (if am_confirmed old \<or> am_joining_name old \<in> fst ` set joined then [] else am_marked_keys old)"
proof (cases "nc_active_migration (expire_slot now nc)")
  case None
  have ok: "flags_allocated (expire_slot now nc)" by (rule expire_slot_flags [OF assms(1)])
  have "case nc_active_migration nc of None \<Rightarrow> True | Some old \<Rightarrow> am_expired now old"
    using None by (auto simp: expire_slot_def split: option.splits if_splits)
  then have "case nc_active_migration nc of None \<Rightarrow> True | Some old \<Rightarrow> am_confirmed old \<and> am_completed_at old \<noteq> None"
    using expired_is_decided by (auto split: option.splits)
  moreover have "install_migration name addr token ring_id ring r gen [] (expire_slot now nc) = (f, nc')" "restore = []"
    using assms(2) guard_new_empty [OF None] by (auto simp: Let_def split: prod.splits)
  ultimately show thesis
    using that [of "[]" "expire_slot now nc" nc'] ok by (auto simp: flags_allocated_def split: option.splits)
next
  case (Some old)
  have ok: "flags_allocated (expire_slot now nc)" by (rule expire_slot_flags [OF assms(1)])
  have same: "nc_active_migration nc = Some old"
    using Some by (auto simp: expire_slot_def split: option.splits if_splits)
  have over: "am_completed_at old \<noteq> None"
      "\<not> (am_joining_name old = name \<and> same_generation (am_generation old) gen \<and> \<not> am_remnant old)"
    using guard_new_refuses [OF Some _ assms(2)] by blast+
  define confirmed where "confirmed = (am_confirmed old \<or> am_joining_name old \<in> fst ` set joined)"
  obtain ls fs where carried: "carried_lingering now name (\<not> confirmed) old = (ls, fs)" by force
  obtain g nc2 where inst: "install_migration name addr token ring_id ring r gen ls (revoke fs (expire_slot now nc)) = (g, nc2)"
    by force
  have out: "f = g" "restore = (if confirmed then [] else am_marked_keys old)"
      "nc' = (if confirmed then nc2 else revert_known_ring_after_abandon old nc2)"
    using assms(2) guard_new_over [OF Some over confirmed_def, of addr token ring_id ring r]
    by (simp_all add: carried inst split: if_splits)
  have below: "\<forall>g \<in> set (nc_revoked (revoke fs (expire_slot now nc))) \<union> set (nc_aborted (revoke fs (expire_slot now nc)))
      \<union> set (map lf_forward_revoked ls). g < nc_fresh (revoke fs (expire_slot now nc))"
    using ok Some carried_flags [OF carried] by (auto simp: flags_allocated_def revoke_def)
  have "nc' = nc2 \<or> (\<exists>old. nc' = revert_known_ring_after_abandon old nc2)" using out(3) by auto
  then show thesis
    by (rule that [OF inst [folded out(1)] below]) (use out(2) same over(1) in \<open>simp add: confirmed_def\<close>)
qed

lemma guard_retry:
  assumes "nc_active_migration nc = Some a" "am_joining_name a = name" "am_generation a = gen"
    "am_completed_at a = None" "\<not> am_remnant a"
  shows "guard_new now name addr token ring_id ring r gen joined (guard_ack n nc) = (DuplicateAcked n, guard_ack n nc)"
proof -
  have "same_generation gen gen" by (simp add: same_generation_def split: option.splits)
  then show ?thesis
    using assms by (simp add: guard_ack_def guard_new_def expire_slot_def running_not_expired)
qed

text \<open>C35. The slot admits one handoff at a time and forgets nothing. An \<open>M\<close> either takes the slot or leaves the
  handoff in it and the known ring as they were; it takes the slot only when no transfer is running there, with
  flags nobody has set; it then gives back exactly the dead copies of a completed handoff whose join was never
  confirmed; and the retry of an acknowledged \<open>M\<close> is answered with the same count and changes nothing.\<close>

theorem handoff_slot_exclusive:
  assumes "flags_allocated nc"
  shows "case guard_new now name addr token ring_id ring r gen joined nc of (out, nc') \<Rightarrow>
    (case out of
       MigrationNew f restore \<Rightarrow>
         (\<exists>a. nc_active_migration nc' = Some a \<and> am_joining_name a = name \<and> am_joining_addr a = addr
            \<and> am_completed_at a = None \<and> am_abort_requested a = f \<and> f \<notin> set (nc_aborted nc')
            \<and> am_forward_revoked a \<notin> set (nc_revoked nc'))
         \<and> (case nc_active_migration nc of None \<Rightarrow> restore = []
            | Some old \<Rightarrow> am_completed_at old \<noteq> None
                \<and> restore = (if am_confirmed old \<or> am_joining_name old \<in> fst ` set joined then [] else am_marked_keys old))
         \<and> flags_allocated nc'
         \<and> guard_new later name addr token ring_id' ring r gen joined' (guard_ack n nc') = (DuplicateAcked n, guard_ack n nc')
     | _ \<Rightarrow> nc_active_migration nc' = nc_active_migration nc \<and> nc_known_ring nc' = nc_known_ring nc)"
proof -
  obtain out nc' where g: "guard_new now name addr token ring_id ring r gen joined nc = (out, nc')" by force
  show ?thesis
  proof (cases out)
    case (MigrationNew f restore)
    then obtain ls nc1 nc2 where inst: "install_migration name addr token ring_id ring r gen ls nc1 = (f, nc2)"
        and below: "\<forall>g \<in> set (nc_revoked nc1) \<union> set (nc_aborted nc1) \<union> set (map lf_forward_revoked ls). g < nc_fresh nc1"
        and nc': "nc' = nc2 \<or> (\<exists>old. nc' = revert_known_ring_after_abandon old nc2)"
        and restore: "case nc_active_migration nc of None \<Rightarrow> restore = []
          | Some old \<Rightarrow> am_completed_at old \<noteq> None
              \<and> restore = (if am_confirmed old \<or> am_joining_name old \<in> fst ` set joined then [] else am_marked_keys old)"
      using guard_new_grants [OF assms] g by blast
    have same: "nc_active_migration nc' = nc_active_migration nc2" "nc_revoked nc' = nc_revoked nc2"
        "nc_aborted nc' = nc_aborted nc2" "flags_allocated nc' = flags_allocated nc2"
      using nc' by (auto simp: revert_keeps)
    obtain a where a: "nc_active_migration nc' = Some a" "am_joining_name a = name" "am_joining_addr a = addr"
        "am_generation a = gen" "am_completed_at a = None" "\<not> am_remnant a" "am_abort_requested a = f"
        "f \<notin> set (nc_aborted nc')" "am_forward_revoked a \<notin> set (nc_revoked nc')"
      using installed(1) [OF inst below] same by auto
    show ?thesis
      using MigrationNew g a restore installed(2) [OF inst below] same(4) guard_retry [OF a(1,2,4,5,6)]
      by (simp add: revert_keeps)
  next
    case (DuplicateAcked k)
    then show ?thesis using g refused_keeps [OF g] by simp
  next
    case MigrationConflict
    then show ?thesis using g refused_keeps [OF g] by simp
  qed
qed


text \<open>A node that completed its share of a join that was never confirmed, with one dead copy.\<close>

definition unconfirmed_node :: node_context where
  "unconfirmed_node = \<lparr>nc_name = ''n'', nc_token = ''t'', nc_active_migration = Some
     \<lparr>am_joining_name = ''j1'', am_joining_addr = ''h1'', am_joining_token = ''t1'', am_after_ring_id = 0,
      am_after_ring = new_ring [''n'', ''j1''], am_replication = 1, am_generation = Some 1, am_completed_at = Some 3,
      am_forwarding_grace = 60, am_acked_entries = Some 1, am_abort_requested = 1,
      am_marked_keys = [new_key [] ''k''], am_confirmed = False, am_pre_completion_ring = None,
      am_pending_clears = pending_clears_default, am_forward_connection = 2, am_forward_revoked = 3,
      am_lingering = [], am_remnant = False\<rparr>,
     nc_known_ring = None, nc_latest_published = None, nc_promoted = True, nc_leaving = None,
     nc_rereplication_forward = None, nc_ring_history = \<lparr>rh_epochs = [], rh_generation = 0\<rparr>, nc_fresh = 4,
     nc_revoked = [], nc_aborted = []\<rparr>"

lemma unconfirmed_node_grants:
  "fst (guard_new 5 ''j2'' ''h2'' ''t2'' 9 (new_ring [''n'', ''j2'']) 1 (Some 2) [(''n'', ''h'')] unconfirmed_node)
    = MigrationNew 4 [new_key [] ''k'']"
  by (simp add: slot_evals unconfirmed_node_def am_expired_def carried_lingering_def Let_def)

theorem handoff_slot_exclusive_witness:
  "flags_allocated unconfirmed_node \<and> (\<exists>nc'.
     guard_new 5 ''j2'' ''h2'' ''t2'' 9 (new_ring [''n'', ''j2'']) 1 (Some 2) [(''n'', ''h'')] unconfirmed_node
       = (MigrationNew 4 [new_key [] ''k''], nc')
     \<and> guard_new 6 ''j2'' ''h2'' ''t2'' 9 (new_ring [''n'', ''j2'']) 1 (Some 2) [] (guard_ack 3 nc')
       = (DuplicateAcked 3, guard_ack 3 nc'))"
proof -
  have pre: "flags_allocated unconfirmed_node"
    by (simp add: flags_allocated_def unconfirmed_node_def slot_flags_def)
  obtain nc' where g: "guard_new 5 ''j2'' ''h2'' ''t2'' 9 (new_ring [''n'', ''j2'']) 1 (Some 2) [(''n'', ''h'')]
      unconfirmed_node = (MigrationNew 4 [new_key [] ''k''], nc')"
    using unconfirmed_node_grants by (metis prod.collapse)
  show ?thesis
    using handoff_slot_exclusive [OF pre, where now = 5 and name = "''j2''" and addr = "''h2''" and token = "''t2''"
        and ring_id = 9 and ring = "new_ring [''n'', ''j2'']" and r = 1 and gen = "Some 2"
        and joined = "[(''n'', ''h'')]" and later = 6 and ring_id' = 9 and joined' = "[]" and n = 3] pre g
    by auto
qed

section \<open>Waiting clears\<close>

definition clears_cover :: "clear_scope list \<Rightarrow> clear_scope \<Rightarrow> bool" where
  "clears_cover taken s \<longleftrightarrow> ScopeAll \<in> set taken \<or> s \<in> set taken"

definition pending_inv :: "clear_scope list \<Rightarrow> pending_clears \<Rightarrow> bool" where
  "pending_inv pushed p \<longleftrightarrow> distinct (pc_namespaces p) \<and> pc_bytes p = sum_list (map length (pc_namespaces p))
     \<and> length (pc_namespaces p) \<le> MAX_PENDING_CLEAR_NAMESPACES \<and> pc_bytes p \<le> MAX_PENDING_CLEAR_BYTES
     \<and> (if pc_all p then pc_namespaces p = []
        else ScopeAll \<notin> set pushed \<and> ScopeNamespace ` set (pc_namespaces p) = set pushed)"

lemma pc_push_inv: "pending_inv pushed p \<Longrightarrow> pending_inv (pushed @ [s]) (pc_push s p)"
  by (cases s) (auto 4 4 simp: pending_inv_def pc_push_def collapse_to_all_def Let_def)

lemma pc_pushes_inv: "pending_inv pushed p \<Longrightarrow> pending_inv (pushed @ scopes) (fold pc_push scopes p)"
proof (induction scopes arbitrary: pushed p)
  case (Cons s scopes)
  then show ?case using Cons.IH [OF pc_push_inv [OF Cons.prems, of s]] by simp
qed simp

text \<open>C36. However many clears a client sends during a handoff, what waits for the joiner stays small and nothing is
  lost: after any sequence of pushes the queue holds at most \<open>MAX_PENDING_CLEAR_NAMESPACES\<close> names and
  \<open>MAX_PENDING_CLEAR_BYTES\<close> bytes, what is taken from it covers every clear pushed, it is exactly those clears
  unless it is a single clear of everything, and taking it empties the queue.\<close>

theorem pending_clears_cover:
  "let p = fold pc_push scopes pending_clears_default; (taken, rest) = pc_take p in
     length (pc_namespaces p) \<le> MAX_PENDING_CLEAR_NAMESPACES
     \<and> sum_list (map length (pc_namespaces p)) \<le> MAX_PENDING_CLEAR_BYTES
     \<and> list_all (clears_cover taken) scopes
     \<and> (set taken = set scopes \<or> taken = [ScopeAll])
     \<and> rest = pending_clears_default"
proof -
  have "pending_inv [] pending_clears_default"
    by (simp add: pending_inv_def pending_clears_default_def)
  then have "pending_inv scopes (fold pc_push scopes pending_clears_default)"
    using pc_pushes_inv [of "[]"] by fastforce
  then show ?thesis
    by (auto simp: pending_inv_def pc_take_def Let_def clears_cover_def list_all_iff pending_clears_default_def)
qed

section \<open>Published memberships\<close>

definition in_force :: "instant \<Rightarrow> ring_history \<Rightarrow> membership option" where
  "in_force t h = map_option snd (find (\<lambda>(since, _). since \<le> t) (rev (rh_epochs h)))"

lemma find_append: "find P (xs @ ys) = (case find P xs of Some x \<Rightarrow> Some x | None \<Rightarrow> find P ys)"
  by (induction xs) auto

lemma rposition_Some:
  assumes "rposition P xs = Some i"
  shows "i < length xs" "P (xs ! i)"
proof -
  obtain j where j: "position P (rev xs) = Some j" "i = length xs - 1 - j"
    using assms by (auto simp: rposition_def)
  have "j < length xs" "P (rev xs ! j)" using position_Some [OF j(1)] by auto
  then show "i < length xs" "P (xs ! i)" using j(2) by (simp_all add: rev_nth)
qed

lemma rposition_None: "rposition P xs = None \<longleftrightarrow> (\<forall>x \<in> set xs. \<not> P x)"
  by (simp add: rposition_def position_None_iff)

lemma find_rev_drop:
  assumes "i < length xs" "Q (xs ! i)"
  shows "find Q (rev (drop i xs)) = find Q (rev xs) \<and> (\<exists>x \<in> set (drop i xs). find Q (rev xs) = Some x)"
proof -
  have "xs ! i \<in> set (drop i xs)" using assms(1) by (metis Cons_nth_drop_Suc list.set_intros(1))
  then have "find Q (rev (drop i xs)) \<noteq> None" using assms(2) by (auto simp: find_None_iff)
  then obtain x where x: "find Q (rev (drop i xs)) = Some x" by auto
  then have "x \<in> set (drop i xs)" by (auto simp: find_Some_iff) (metis nth_mem length_rev set_rev length_drop)
  moreover have "find Q (rev xs) = find Q (rev (drop i xs) @ rev (take i xs))"
    by (metis append_take_drop_id rev_append)
  ultimately show ?thesis using x by (auto simp: find_append)
qed

lemma unowned_by_any:
  "owned_by_any checks k = Some False \<Longrightarrow> c \<in> set checks \<Longrightarrow> is_owner (oc_ring c) k (oc_name c) (oc_replication c) = Some False"
  by (auto simp: owned_by_any_def is_owner_def owns_hashed_def list_ex_iff)

text \<open>C37. A copy is reclaimed only if no membership of the whole grace period gave it to this node. If the history
  answers, then at every moment \<open>t\<close> of the window a membership was in force, the answer contains its check, a key
  no check owns was not this node's under it, and dropping the older memberships does not change what was in
  force then; the history declines to answer only when no membership was in force at the window's start.\<close>

theorem history_covers_window:
  assumes "grace \<le> now" "now - grace \<le> t"
  shows "case checks_within_at grace name now h of
      (None, h') \<Rightarrow> h' = h \<and> in_force (now - grace) h = None
    | (Some (checks, g), h') \<Rightarrow> g = rh_generation h \<and> in_force t h' = in_force t h
        \<and> (\<exists>m. in_force t h = Some m \<and> \<lparr>oc_ring = ms_ring m, oc_name = name, oc_replication = ms_replication m\<rparr> \<in> set checks
             \<and> (\<forall>k. owned_by_any checks k = Some False \<longrightarrow> is_owner (ms_ring m) k name (ms_replication m) = Some False))"
proof (cases "rposition (\<lambda>(since, _). since \<le> now - grace) (rh_epochs h)")
  case None
  then have "in_force (now - grace) h = None"
    by (auto simp: rposition_None in_force_def find_None_iff)
  then show ?thesis
    using assms(1) None by (simp add: checks_within_at_def)
next
  case (Some i)
  let ?Q = "\<lambda>(since, _). since \<le> t"
  have i: "i < length (rh_epochs h)" "?Q (rh_epochs h ! i)"
    using rposition_Some [OF Some] assms(2) by (auto simp: case_prod_unfold)
  obtain s m where m: "(s, m) \<in> set (drop i (rh_epochs h))" "find ?Q (rev (rh_epochs h)) = Some (s, m)"
      "find ?Q (rev (drop i (rh_epochs h))) = Some (s, m)"
    using find_rev_drop [of i "rh_epochs h" ?Q, OF i] by auto
  let ?checks = "map (\<lambda>(_, m). \<lparr>oc_ring = ms_ring m, oc_name = name, oc_replication = ms_replication m\<rparr>)
      (drop i (rh_epochs h))"
  have mem: "\<lparr>oc_ring = ms_ring m, oc_name = name, oc_replication = ms_replication m\<rparr> \<in> set ?checks"
    using m(1) by force
  moreover have "is_owner (ms_ring m) k name (ms_replication m) = Some False" if "owned_by_any ?checks k = Some False" for k
    using that mem unowned_by_any by fastforce
  ultimately show ?thesis
    using Some assms(1) m by (simp add: checks_within_at_def in_force_def)
qed

theorem history_covers_window_witness:
  "let m = \<lparr>ms_id = 1, ms_ring_id = 0, ms_ring = new_ring [''a'', ''b''], ms_replication = 1\<rparr>;
       h = \<lparr>rh_epochs = [(2, m)], rh_generation = 1\<rparr>
   in (4::nat) \<le> 10 \<and> 10 - 4 \<le> (8::nat) \<and> in_force 8 h = Some m \<and> in_force 8 (snd (checks_within_at 4 ''a'' 10 h)) = Some m"
  using history_covers_window [where grace = 4 and now = 10 and t = 8 and name = "''a''" and
      h = "\<lparr>rh_epochs = [(2, \<lparr>ms_id = 1, ms_ring_id = 0, ms_ring = new_ring [''a'', ''b''], ms_replication = 1\<rparr>)], rh_generation = 1\<rparr>"]
  by (auto simp: Let_def checks_within_at_def rposition_def in_force_def)

end
