(* ===== verification/Migration_Run.thy ===== *)
theory Migration_Run
  imports Migration_Slot
begin

text \<open>
  The transfer of a node's share to a joining node (\<^verbatim>\<open>src/server.rs\<close>: \<open>entries_to_send_count\<close>, \<open>run_migration\<close>,
  \<open>drain_pending_clears\<close>, \<open>peek_entry_for_handoff\<close>, \<open>unmark_migrated_many\<close>).

  The task runs beside the node's others and gives way to them at every \<^verbatim>\<open>await\<close>: what they did there to the
  context and the cache is a function of the turn (\<open>tn_before\<close>, \<open>tn_between\<close>, \<open>tn_during\<close>), and so is the answer
  of the network, whether \<open>transfer_with_retries\<close> delivered each clear (\<open>tn_clears\<close>) and the entry (\<open>tn_sent\<close>).
  What was delivered is kept in the order it went out (\<open>mr_sent\<close>). The wait for a running re-replication is part
  of the first turn's \<open>tn_before\<close>. The report \<open>C\<close> to discovery and the fetch of the roster for the re-replication
  are not modelled; that one is due is the flag \<open>mr_rereplicate\<close>.
\<close>

type_synonym 'l world = "node_context \<times> 'l cache"

record 'l turn =
  tn_before :: "'l world \<Rightarrow> 'l world"
  tn_clears :: "bool list"
  tn_between :: "'l world \<Rightarrow> 'l world"
  tn_now :: instant
  tn_sent :: bool
  tn_during :: "'l world \<Rightarrow> 'l world"

record 'l migration_run =
  mr_world :: "'l world"
  mr_marked :: "key list"
  mr_sent :: "forwarded_write list"
  mr_count :: nat
  mr_rereplicate :: bool

record handoff =
  ho_joining_name :: bytes
  ho_joining_addr :: bytes
  ho_joining_token :: bytes
  ho_replication :: nat
  ho_before_ring :: hash_ring
  ho_after_ring_id :: arc
  ho_after_ring :: hash_ring
  ho_abort_requested :: arc

definition key_is_sent :: "handoff \<Rightarrow> bytes \<Rightarrow> u64 \<Rightarrow> bool" where
  "key_is_sent ho self_name key_hash \<longleftrightarrow>
     is_owner_hashed (ho_after_ring ho) key_hash (ho_joining_name ho) (ho_replication ho)
     \<and> is_owner_hashed (ho_before_ring ho) key_hash self_name (ho_replication ho)"

fun entries_to_send_count :: "handoff \<Rightarrow> bytes \<Rightarrow> key list \<Rightarrow> nat option" where
  "entries_to_send_count ho self_name [] = Some 0"
| "entries_to_send_count ho self_name (key # keys) = do {
     key_hash \<leftarrow> key_hash_of key;
     n \<leftarrow> entries_to_send_count ho self_name keys;
     Some ((if key_is_sent ho self_name key_hash then 1 else 0) + n)
   }"

fun deliver :: "bool list \<Rightarrow> 'a list \<Rightarrow> 'a list \<times> bool" where
  "deliver oks [] = ([], True)"
| "deliver (True # oks) (w # ws) = (let (ds, ok) = deliver oks ws in (w # ds, ok))"
| "deliver _ (w # ws) = ([], False)"

definition drain_pending_clears :: "bool list \<Rightarrow> node_context \<Rightarrow> (forwarded_write list \<times> bool) \<times> node_context" where
  "drain_pending_clears oks nc = (case nc_active_migration nc of
     None \<Rightarrow> (([], True), nc)
   | Some active \<Rightarrow>
       let (pending, clears) = pc_take (am_pending_clears active)
       in (deliver oks (map (\<lambda>scope. FwdClear scope (am_joining_token active)) pending),
           nc\<lparr>nc_active_migration := Some (active\<lparr>am_pending_clears := clears\<rparr>)\<rparr>))"

text \<open>One key's turn up to its send. The cache actor's arms for the peek and the marks are these functions
  (\<open>execute\<close>).\<close>

datatype key_turn = TurnStop | TurnFail | TurnSkip | TurnSent bool "forwarded_write"

definition migrate_key ::
    "'l env \<Rightarrow> handoff \<Rightarrow> bytes \<Rightarrow> key \<Rightarrow> 'l turn \<Rightarrow> 'l world
      \<Rightarrow> (key_turn \<times> forwarded_write list \<times> 'l world) option" where
  "migrate_key E ho self_name key turn w =
     (let w = tn_before turn w
      in if ho_abort_requested ho \<in> set (nc_aborted (fst w)) then Some (TurnStop, [], w)
         else do {
           key_hash \<leftarrow> key_hash_of key;
           if \<not> is_owner_hashed (ho_after_ring ho) key_hash (ho_joining_name ho) (ho_replication ho)
           then Some (TurnSkip, [], w)
           else if \<not> is_owner_hashed (ho_before_ring ho) key_hash self_name (ho_replication ho)
           then Some (TurnSkip, [], w)
           else
             let displaced = (\<not> is_owner_hashed (ho_after_ring ho) key_hash self_name (ho_replication ho));
                 ((clears, ok), nc) = drain_pending_clears (tn_clears turn) (fst w);
                 w = tn_between turn (nc, snd w)
             in if \<not> ok then Some (TurnFail, clears, w)
                else (case peek_live_entry E key (tn_now turn) (snd w) of
                    None \<Rightarrow> Some (TurnSkip, clears, w)
                  | Some (_, value', ttl) \<Rightarrow>
                      let w = tn_during turn w
                      in Some (if tn_sent turn
                               then TurnSent displaced (FwdHandoffSet key value' ttl True (ho_joining_token ho))
                               else TurnFail, clears, w))
         })"

definition note_sent :: "'l env \<Rightarrow> key \<Rightarrow> bool \<Rightarrow> forwarded_write \<Rightarrow> 'l migration_run \<Rightarrow> 'l migration_run" where
  "note_sent E key displaced write_sent st =
     (let st = st\<lparr>mr_sent := mr_sent st @ [write_sent], mr_count := mr_count st + 1\<rparr>
      in if displaced
         then st\<lparr>mr_world := (fst (mr_world st), mark_migrated E key (snd (mr_world st))),
                 mr_marked := mr_marked st @ [key]\<rparr>
         else st)"

text \<open>The loop over the snapshot's keys, each with its turn; the flag says whether it came to its end (or was
  asked to stop) rather than failed.\<close>

fun migrate_keys ::
    "'l env \<Rightarrow> handoff \<Rightarrow> bytes \<Rightarrow> (key \<times> 'l turn) list \<Rightarrow> 'l migration_run \<Rightarrow> (bool \<times> 'l migration_run) option" where
  "migrate_keys E ho self_name [] st = Some (True, st)"
| "migrate_keys E ho self_name ((key, turn) # rest) st = do {
     (outcome, clears, w) \<leftarrow> migrate_key E ho self_name key turn (mr_world st);
     let st = st\<lparr>mr_world := w, mr_sent := mr_sent st @ clears\<rparr>;
     case outcome of
       TurnStop \<Rightarrow> Some (True, st)
     | TurnFail \<Rightarrow> Some (False, st)
     | TurnSkip \<Rightarrow> migrate_keys E ho self_name rest st
     | TurnSent displaced write_sent \<Rightarrow> migrate_keys E ho self_name rest (note_sent E key displaced write_sent st)
   }"

record 'l finish =
  fi_before :: "'l world \<Rightarrow> 'l world"
  fi_clears :: "bool list"
  fi_between :: "'l world \<Rightarrow> 'l world"
  fi_now :: instant
  fi_late_clears :: "bool list"
  fi_unwinding :: "'l world \<Rightarrow> 'l world"
  fi_dropping :: "'l world \<Rightarrow> 'l world"

datatype run_outcome = RunUnavailable | RunFailed | RunCancelled | RunFailedAfterFlip | RunCompleted

text \<open>Every early return: the run's own marks and those recorded in its slot are undone in one round trip, then the
  guard is dropped. The round trip is an \<^verbatim>\<open>await\<close>: other tasks run before the cache undoes the marks
  (\<open>fi_unwinding\<close>) and before the answer is back (\<open>fi_dropping\<close>). With nothing to undo there is none.\<close>

definition unwind :: "handoff \<Rightarrow> 'l finish \<Rightarrow> 'l migration_run \<Rightarrow> 'l migration_run" where
  "unwind ho fi st =
     (let (nc, c) = mr_world st;
          (join_marks, nc) = take_join_marks (ho_abort_requested ho) nc;
          restore = mr_marked st @ join_marks;
          w = (if restore = [] then (nc, c)
               else let (nc, c) = fi_unwinding fi (nc, c)
                    in fi_dropping fi (nc, snd (unmark_migrated_many restore c)))
      in st\<lparr>mr_world := (guard_drop (fi_now fi) (fst w), snd w)\<rparr>)"

definition run_migration ::
    "'l env \<Rightarrow> handoff \<Rightarrow> bytes \<Rightarrow> (key \<times> 'l turn) list option \<Rightarrow> 'l finish \<Rightarrow> 'l world
      \<Rightarrow> (run_outcome \<times> 'l migration_run) option" where
  "run_migration E ho self_name snapshot fi w =
     (let start = \<lparr>mr_world = w, mr_marked = [], mr_sent = [], mr_count = 0, mr_rereplicate = False\<rparr>
      in case snapshot of
        None \<Rightarrow> Some (RunUnavailable, start\<lparr>mr_world := (guard_drop (fi_now fi) (fst w), snd w)\<rparr>)
      | Some keys \<Rightarrow> do {
     (ended, st) \<leftarrow> migrate_keys E ho self_name keys start;
     if \<not> ended then Some (RunFailed, unwind ho fi st)
     else
       let (nc, c) = fi_before fi (mr_world st)
       in if ho_abort_requested ho \<in> set (nc_aborted nc)
          then Some (RunCancelled, unwind ho fi (st\<lparr>mr_world := (nc, c)\<rparr>))
          else
            let pre_completion_ring = nc_known_ring nc;
                (mid, nc) = arc_new nc;
                nc = nc\<lparr>nc_known_ring := Some \<lparr>ms_id = mid, ms_ring_id = ho_after_ring_id ho,
                       ms_ring = ho_after_ring ho, ms_replication = ho_replication ho\<rparr>\<rparr>;
                ((clears, ok), nc) = drain_pending_clears (fi_clears fi) nc;
                (nc, c) = fi_between fi (nc, c);
                st = st\<lparr>mr_world := (nc, c), mr_sent := mr_sent st @ clears\<rparr>
            in if \<not> ok then Some (RunFailedAfterFlip, unwind ho fi st)
               else
                 let nc = guard_completed (fi_now fi) (mr_count st) (mr_marked st) pre_completion_ring nc;
                     ((clears, _), nc) = drain_pending_clears (fi_late_clears fi) nc
                 in Some (RunCompleted, st\<lparr>mr_world := (nc, c), mr_sent := mr_sent st @ clears,
                      mr_rereplicate := (case pre_completion_ring of None \<Rightarrow> False
                        | Some m \<Rightarrow> ring_dropped_a_member (ms_ring m) (ho_after_ring ho))\<rparr>)
   })"

text \<open>What a put-if-absent copy that lands during a join does beside storing it (\<open>handle_connection\<close>): a key the
  join took is recorded in the slot and its copy marked.\<close>

definition join_mark :: "'l env \<Rightarrow> instant \<Rightarrow> key \<Rightarrow> u64 \<Rightarrow> 'l world \<Rightarrow> 'l world" where
  "join_mark E now key key_hash w =
     (let (taken, nc) = join_took_hashed now (fst w) key key_hash
      in (nc, if taken then mark_migrated E key (snd w) else snd w))"

end
