(* ===== verification/Run_Props.thy ===== *)
theory Run_Props
  imports Migration_Run Sample_Store
begin

text \<open>
  What a transfer to a joining node guarantees, whatever the node's other tasks do meanwhile: a completed run has
  sent the node's whole share, an unfinished one undoes its marks and gives up the slot.
\<close>

section \<open>One turn\<close>

lemma migrate_key_sent:
  assumes "migrate_key E ho self key turn w = Some (TurnSent displaced x, clears, w')"
  obtains h v ttl where "key_hash_of key = Some h" "key_is_sent ho self h"
    "displaced = (\<not> is_owner_hashed (ho_after_ring ho) h self (ho_replication ho))"
    "x = FwdHandoffSet key v ttl True (ho_joining_token ho)"
  using assms by (auto simp: migrate_key_def key_is_sent_def Let_def case_prod_unfold
      split: if_splits Option.bind_splits option.splits)

text \<open>What the other tasks keep of the cache while the run waits.\<close>

definition keeps :: "('l cache \<Rightarrow> bool) \<Rightarrow> ('l world \<Rightarrow> 'l world) \<Rightarrow> bool" where
  "keeps J f \<longleftrightarrow> (\<forall>u. J (snd u) \<longrightarrow> J (snd (f u)))"

lemma keepsD: "keeps J f \<Longrightarrow> J (snd u) \<Longrightarrow> J (snd (f u))"
  unfolding keeps_def by blast

lemma keepsD_pair: "keeps J f \<Longrightarrow> J c \<Longrightarrow> J (snd (f (nc, c)))"
  unfolding keeps_def by (metis snd_conv)

definition turn_keeps :: "('l cache \<Rightarrow> bool) \<Rightarrow> 'l turn \<Rightarrow> bool" where
  "turn_keeps J t \<longleftrightarrow> keeps J (tn_before t) \<and> keeps J (tn_between t) \<and> keeps J (tn_during t)"

definition live_as :: "'l env \<Rightarrow> key \<Rightarrow> instant \<Rightarrow> (bytes \<Rightarrow> duration option \<Rightarrow> bool) \<Rightarrow> 'l cache \<Rightarrow> bool" where
  "live_as E key now P c \<longleftrightarrow> (\<exists>v ttl. peek_live_entry E key now c = Some (key, v, ttl) \<and> P v ttl)"

lemma migrate_key_world:
  assumes "migrate_key E ho self key turn w = Some (outcome, clears, w')" "W w"
    and "\<And>u. W u \<Longrightarrow> W (tn_before turn u)" "\<And>u. W u \<Longrightarrow> W (tn_between turn u)" "\<And>u. W u \<Longrightarrow> W (tn_during turn u)"
    and "\<And>oks nc c. W (nc, c) \<Longrightarrow> W (snd (drain_pending_clears oks nc), c)"
  shows "W w'"
proof -
  have "W (tn_before turn w)" by (rule assms(3) [OF assms(2)])
  moreover from this have between: "W (tn_between turn (snd (drain_pending_clears (tn_clears turn) (fst (tn_before turn w))),
      snd (tn_before turn w)))"
    by (intro assms(4,6)) simp
  moreover note assms(5) [OF between]
  ultimately show ?thesis
    using assms(1) by (auto simp: migrate_key_def Let_def case_prod_unfold split: if_splits Option.bind_splits option.splits)
qed

lemma migrate_key_keeps:
  assumes "migrate_key E ho self key turn w = Some (outcome, clears, w')" "J (snd w)" "turn_keeps J turn"
  shows "J (snd w')"
  by (rule migrate_key_world [where W = "\<lambda>u. J (snd u)", OF assms(1,2)])
    (use assms(3) in \<open>auto simp: turn_keeps_def dest: keepsD\<close>)

lemma migrate_key_due:
  assumes "migrate_key E ho self key turn w = Some (outcome, clears, w')"
    and "key_hash_of key = Some h" "key_is_sent ho self h"
    and "live_as E key (tn_now turn) P (snd w)" "turn_keeps (live_as E key (tn_now turn) P) turn"
  shows "outcome = TurnStop \<or> outcome = TurnFail
    \<or> (\<exists>displaced v ttl. outcome = TurnSent displaced (FwdHandoffSet key v ttl True (ho_joining_token ho)) \<and> P v ttl)"
proof -
  have "live_as E key (tn_now turn) P (snd (tn_between turn (nc, snd (tn_before turn w))))" for nc
    using assms(4,5) unfolding turn_keeps_def by (blast intro: keepsD keepsD_pair)
  then obtain v ttl where "peek_live_entry E key (tn_now turn)
      (snd (tn_between turn (snd (drain_pending_clears (tn_clears turn) (fst (tn_before turn w))), snd (tn_before turn w))))
      = Some (key, v, ttl)" "P v ttl"
    unfolding live_as_def by blast
  then show ?thesis
    using assms(1-3) by (auto simp: migrate_key_def key_is_sent_def Let_def case_prod_unfold split: if_splits)
qed

lemma migrate_key_stop:
  "migrate_key E ho self key turn w = Some (TurnStop, clears, w') \<Longrightarrow> ho_abort_requested ho \<in> set (nc_aborted (fst w'))"
  by (auto simp: migrate_key_def Let_def case_prod_unfold split: if_splits Option.bind_splits option.splits)

lemma note_sent_fields [simp]:
  "mr_sent (note_sent E key d x st) = mr_sent st @ [x]"
  "mr_count (note_sent E key d x st) = mr_count st + 1"
  "mr_marked (note_sent E key d x st) = mr_marked st @ (if d then [key] else [])"
  by (simp_all add: note_sent_def Let_def)

section \<open>The loop\<close>

lemma migrate_keys_grows:
  "migrate_keys E ho self keys st = Some (ended, st') \<Longrightarrow> set (mr_sent st) \<subseteq> set (mr_sent st')"
proof (induction keys arbitrary: st)
  case (Cons kt keys)
  obtain key turn where [simp]: "kt = (key, turn)" by force
  obtain outcome clears w where "migrate_key E ho self key turn (mr_world st) = Some (outcome, clears, w)"
    using Cons.prems by (auto split: Option.bind_splits)
  then show ?case
    using Cons.prems by (cases outcome) (auto dest!: Cons.IH)
qed simp

lemma remarked_other_live:
  "remarked E k b c c' \<Longrightarrow> key \<noteq> k \<Longrightarrow> peek_live_entry E key now c' = peek_live_entry E key now c"
  by (simp add: remarked_def peek_live_entry_def peek_entry_at_def)

context lru_cache
begin

lemma note_sent_cache:
  assumes "cache_inv E lru_wf (snd (mr_world st))"
  shows "cache_inv E lru_wf (snd (mr_world (note_sent E k d x st)))"
    and "key \<noteq> k \<Longrightarrow> live_as E key now P (snd (mr_world st)) \<Longrightarrow> live_as E key now P (snd (mr_world (note_sent E k d x st)))"
proof -
  note m = mark_migrated_spec [OF assms, of k]
  show "cache_inv E lru_wf (snd (mr_world (note_sent E k d x st)))"
    using assms m(1) by (simp add: note_sent_def Let_def)
  assume "key \<noteq> k" "live_as E key now P (snd (mr_world st))"
  then show "live_as E key now P (snd (mr_world (note_sent E k d x st)))"
    using remarked_other_live [OF m(2)] by (simp add: note_sent_def Let_def live_as_def)
qed

lemma migrate_keys_inv:
  assumes "migrate_keys E ho self keys st = Some (ended, st')" "cache_inv E lru_wf (snd (mr_world st))"
    and "\<forall>(k, t) \<in> set keys. turn_keeps (cache_inv E lru_wf) t"
  shows "cache_inv E lru_wf (snd (mr_world st'))"
  using assms
proof (induction keys arbitrary: st)
  case (Cons kt keys)
  obtain k t where kt: "kt = (k, t)" by force
  obtain outcome clears w where step: "migrate_key E ho self k t (mr_world st) = Some (outcome, clears, w)"
    using Cons.prems(1) by (auto simp: kt split: Option.bind_splits)
  have w: "cache_inv E lru_wf (snd w)"
    by (rule migrate_key_keeps [OF step]) (use Cons.prems in \<open>auto simp: kt\<close>)
  show ?case
    using Cons.prems(1,3) step w Cons.IH note_sent_cache(1) by (cases outcome) (auto simp: kt)
qed simp

lemma migrate_keys_sends:
  assumes "migrate_keys E ho self keys st = Some (True, st')" "ho_abort_requested ho \<notin> set (nc_aborted (fst (mr_world st')))"
    and "(key, turn) \<in> set keys" "distinct (map fst keys)" "key_hash_of key = Some h" "key_is_sent ho self h"
    and "\<forall>(k, t) \<in> set keys. turn_keeps (cache_inv E lru_wf) t \<and> turn_keeps (live_as E key (tn_now turn) P) t"
    and "cache_inv E lru_wf (snd (mr_world st))" "live_as E key (tn_now turn) P (snd (mr_world st))"
  shows "\<exists>v ttl. FwdHandoffSet key v ttl True (ho_joining_token ho) \<in> set (mr_sent st') \<and> P v ttl"
  using assms(1,3,4,7-9)
proof (induction keys arbitrary: st)
  case (Cons kt keys)
  obtain k t where kt: "kt = (k, t)" by force
  obtain outcome clears w where step: "migrate_key E ho self k t (mr_world st) = Some (outcome, clears, w)"
    using Cons.prems(1) by (auto simp: kt split: Option.bind_splits)
  have go: "outcome \<noteq> TurnStop" "outcome \<noteq> TurnFail"
    using Cons.prems(1) step assms(2) migrate_key_stop [of E ho self k t "mr_world st"] by (auto simp: kt)
  have w: "cache_inv E lru_wf (snd w)" "live_as E key (tn_now turn) P (snd w)"
    by (rule migrate_key_keeps [OF step]; use Cons.prems in \<open>simp add: kt\<close>)+
  show ?case
  proof (cases "(k, t) = (key, turn)")
    case True
    then obtain d v ttl where "outcome = TurnSent d (FwdHandoffSet key v ttl True (ho_joining_token ho))" "P v ttl"
      using step go Cons.prems(4,6) assms(5,6)
        migrate_key_due [of E ho self key turn "mr_world st" outcome clears w h P] by (auto simp: kt)
    then show ?thesis
      using Cons.prems(1) step by (auto simp: kt dest!: migrate_keys_grows) blast
  next
    case False
    then have in_rest: "(key, turn) \<in> set keys" using Cons.prems(2) by (auto simp: kt)
    then have "key \<noteq> k" using Cons.prems(3) by (force simp: kt)
    then show ?thesis
      using Cons.prems(1,3,4) step go w in_rest Cons.IH note_sent_cache by (cases outcome) (auto simp: kt)
  qed
qed simp

end

definition sent_and_displaced :: "handoff \<Rightarrow> bytes \<Rightarrow> forwarded_write list \<Rightarrow> key \<Rightarrow> bool" where
  "sent_and_displaced ho self sent k \<longleftrightarrow>
     (\<exists>v ttl. FwdHandoffSet k v ttl True (ho_joining_token ho) \<in> set sent)
     \<and> (\<exists>h. key_hash_of k = Some h \<and> key_is_sent ho self h
          \<and> \<not> is_owner_hashed (ho_after_ring ho) h self (ho_replication ho))"

lemma sent_and_displaced_mono: "sent_and_displaced ho self xs k \<Longrightarrow> set xs \<subseteq> set ys \<Longrightarrow> sent_and_displaced ho self ys k"
  unfolding sent_and_displaced_def by blast

lemma migrate_keys_marks:
  assumes "migrate_keys E ho self keys st = Some (ended, st')" "\<forall>k \<in> set (mr_marked st). sent_and_displaced ho self (mr_sent st) k"
  shows "\<forall>k \<in> set (mr_marked st'). sent_and_displaced ho self (mr_sent st') k"
  using assms
proof (induction keys arbitrary: st)
  case (Cons kt keys)
  obtain key turn where kt: "kt = (key, turn)" by force
  obtain outcome clears w where step: "migrate_key E ho self key turn (mr_world st) = Some (outcome, clears, w)"
    using Cons.prems(1) by (auto simp: kt split: Option.bind_splits)
  let ?st = "st\<lparr>mr_world := w, mr_sent := mr_sent st @ clears\<rparr>"
  have old: "\<forall>k \<in> set (mr_marked ?st). sent_and_displaced ho self (mr_sent ?st) k"
    using Cons.prems(2) sent_and_displaced_mono [of ho self "mr_sent st" _ "mr_sent st @ clears"] by simp
  show ?case
  proof (cases outcome)
    case (TurnSent d x)
    obtain h v ttl where x: "key_hash_of key = Some h" "key_is_sent ho self h"
        "d = (\<not> is_owner_hashed (ho_after_ring ho) h self (ho_replication ho))"
        "x = FwdHandoffSet key v ttl True (ho_joining_token ho)"
      by (rule migrate_key_sent [OF step [unfolded TurnSent]])
    have "sent_and_displaced ho self (mr_sent ?st @ [x]) key" if d
      using that x unfolding sent_and_displaced_def by auto
    moreover have "sent_and_displaced ho self (mr_sent ?st @ [x]) k" if "k \<in> set (mr_marked ?st)" for k
      by (rule sent_and_displaced_mono [OF bspec [OF old that]]) auto
    ultimately have "\<forall>k \<in> set (mr_marked (note_sent E key d x ?st)). sent_and_displaced ho self (mr_sent (note_sent E key d x ?st)) k"
      by auto
    moreover have "migrate_keys E ho self keys (note_sent E key d x ?st) = Some (ended, st')"
      using Cons.prems(1) step TurnSent by (simp add: kt)
    ultimately show ?thesis using Cons.IH by blast
  next
    case TurnSkip
    then have "migrate_keys E ho self keys ?st = Some (ended, st')" using Cons.prems(1) step by (simp add: kt)
    then show ?thesis using Cons.IH old by blast
  qed (use Cons.prems(1) step old in \<open>simp_all add: kt\<close>)
qed simp

lemma migrate_keys_count:
  assumes "migrate_keys E ho self keys st = Some (ended, st')" "entries_to_send_count ho self (map fst keys) = Some n"
  shows "mr_count st' \<le> mr_count st + n"
  using assms
proof (induction keys arbitrary: st n)
  case (Cons kt keys)
  obtain key turn where kt: "kt = (key, turn)" by force
  obtain outcome clears w where step: "migrate_key E ho self key turn (mr_world st) = Some (outcome, clears, w)"
    using Cons.prems(1) by (auto simp: kt split: Option.bind_splits)
  obtain h m where h: "key_hash_of key = Some h" "entries_to_send_count ho self (map fst keys) = Some m"
      "n = (if key_is_sent ho self h then 1 else 0) + m"
    using Cons.prems(2) by (auto simp: kt split: Option.bind_splits)
  let ?st = "st\<lparr>mr_world := w, mr_sent := mr_sent st @ clears\<rparr>"
  show ?case
  proof (cases outcome)
    case (TurnSent d x)
    have "key_is_sent ho self h"
      by (rule migrate_key_sent [OF step [unfolded TurnSent]]) (use h(1) in simp)
    moreover have "migrate_keys E ho self keys (note_sent E key d x ?st) = Some (ended, st')"
      using Cons.prems(1) step TurnSent by (simp add: kt)
    ultimately show ?thesis using Cons.IH [OF _ h(2)] h(3) by fastforce
  next
    case TurnSkip
    then have "migrate_keys E ho self keys ?st = Some (ended, st')" using Cons.prems(1) step by (simp add: kt)
    then show ?thesis using Cons.IH [OF _ h(2)] h(3) by fastforce
  qed (use Cons.prems(1) step in \<open>auto simp: kt\<close>)
qed simp

section \<open>The marks\<close>

text \<open>The slot of a running handoff, and the marks recorded in it.\<close>

definition running :: "handoff \<Rightarrow> node_context \<Rightarrow> bool" where
  "running ho nc \<longleftrightarrow> (case nc_active_migration nc of None \<Rightarrow> False
     | Some a \<Rightarrow> am_abort_requested a = ho_abort_requested ho \<and> am_completed_at a = None
         \<and> \<not> am_confirmed a \<and> \<not> am_remnant a)"

definition slot_marks :: "node_context \<Rightarrow> key set" where
  "slot_marks nc = (case nc_active_migration nc of None \<Rightarrow> {} | Some a \<Rightarrow> set (am_marked_keys a))"

text \<open>What the other tasks do while the run has the slot: they leave it to the run, keep the cache well formed, and a
  copy that is marked after them is recorded in the slot, or was marked before and not recorded.\<close>

definition records_marks :: "'l env \<Rightarrow> ('l \<Rightarrow> bool) \<Rightarrow> handoff \<Rightarrow> ('l world \<Rightarrow> 'l world) \<Rightarrow> bool" where
  "records_marks E lru_wf ho f \<longleftrightarrow>
     (\<forall>u. cache_inv E lru_wf (snd u) \<and> running ho (fst u) \<longrightarrow>
        cache_inv E lru_wf (snd (f u)) \<and> running ho (fst (f u))
        \<and> (\<forall>k. is_marked (snd (f u)) k \<longrightarrow> k \<in> slot_marks (fst (f u)) \<or> is_marked (snd u) k \<and> k \<notin> slot_marks (fst u)))"

definition marks_nothing :: "'l env \<Rightarrow> ('l \<Rightarrow> bool) \<Rightarrow> ('l world \<Rightarrow> 'l world) \<Rightarrow> bool" where
  "marks_nothing E lru_wf f \<longleftrightarrow>
     (\<forall>u. cache_inv E lru_wf (snd u) \<longrightarrow>
        cache_inv E lru_wf (snd (f u)) \<and> (\<forall>k. is_marked (snd (f u)) k \<longrightarrow> is_marked (snd u) k))"

text \<open>Every mark beyond those of \<open>B\<close> is one the run made or one recorded in its slot.\<close>

definition accounted :: "'l env \<Rightarrow> ('l \<Rightarrow> bool) \<Rightarrow> handoff \<Rightarrow> key set \<Rightarrow> key list \<Rightarrow> 'l world \<Rightarrow> bool" where
  "accounted E lru_wf ho B made u \<longleftrightarrow>
     cache_inv E lru_wf (snd u) \<and> running ho (fst u)
     \<and> (\<forall>k. is_marked (snd u) k \<longrightarrow> k \<in> B \<or> k \<in> set made \<or> k \<in> slot_marks (fst u))"

lemma accounted_others: "records_marks E lru_wf ho f \<Longrightarrow> accounted E lru_wf ho B made u \<Longrightarrow> accounted E lru_wf ho B made (f u)"
  unfolding records_marks_def accounted_def by blast

lemma drained_slot:
  "running ho (snd (drain_pending_clears oks nc)) = running ho nc"
  "slot_marks (snd (drain_pending_clears oks nc)) = slot_marks nc"
  by (auto simp: drain_pending_clears_def running_def slot_marks_def Let_def case_prod_unfold split: option.splits)

lemma accounted_slot:
  "accounted E lru_wf ho B made (nc, c) \<Longrightarrow> running ho nc' = running ho nc \<Longrightarrow> slot_marks nc' = slot_marks nc
    \<Longrightarrow> accounted E lru_wf ho B made (nc', c)"
  by (simp add: accounted_def)

definition turn_records :: "'l env \<Rightarrow> ('l \<Rightarrow> bool) \<Rightarrow> handoff \<Rightarrow> 'l turn \<Rightarrow> bool" where
  "turn_records E lru_wf ho t \<longleftrightarrow>
     records_marks E lru_wf ho (tn_before t) \<and> records_marks E lru_wf ho (tn_between t) \<and> records_marks E lru_wf ho (tn_during t)"

lemma accounted_turn:
  assumes "migrate_key E ho self key t w = Some (outcome, clears, w')" "accounted E lru_wf ho B made w"
    and "turn_records E lru_wf ho t"
  shows "accounted E lru_wf ho B made w'"
  by (rule migrate_key_world [where W = "accounted E lru_wf ho B made", OF assms(1,2)])
    (use assms(3) in \<open>auto simp: turn_records_def drained_slot intro: accounted_others elim: accounted_slot\<close>)

context lru_cache
begin

lemma accounted_note_sent:
  assumes "accounted E lru_wf ho B (mr_marked st) (mr_world st)"
  shows "accounted E lru_wf ho B (mr_marked (note_sent E k d x st)) (mr_world (note_sent E k d x st))"
  using assms mark_migrated_spec [of "snd (mr_world st)" k]
  by (auto simp: note_sent_def accounted_def remarked_def Let_def split: if_splits)

lemma accounted_keys:
  assumes "migrate_keys E ho self keys st = Some (ended, st')" "accounted E lru_wf ho B (mr_marked st) (mr_world st)"
    and "\<forall>(k, t) \<in> set keys. turn_records E lru_wf ho t"
  shows "accounted E lru_wf ho B (mr_marked st') (mr_world st')"
  using assms
proof (induction keys arbitrary: st)
  case (Cons kt keys)
  obtain k t where kt: "kt = (k, t)" by force
  obtain outcome clears w where step: "migrate_key E ho self k t (mr_world st) = Some (outcome, clears, w)"
    using Cons.prems(1) by (auto simp: kt split: Option.bind_splits)
  have w: "accounted E lru_wf ho B (mr_marked st) w"
    by (rule accounted_turn [OF step Cons.prems(2)]) (use Cons.prems(3) in \<open>simp add: kt\<close>)
  have IH: "migrate_keys E ho self keys st1 = Some (ended, st') \<Longrightarrow> accounted E lru_wf ho B (mr_marked st1) (mr_world st1)
      \<Longrightarrow> accounted E lru_wf ho B (mr_marked st') (mr_world st')" for st1
    by (rule Cons.IH) (use Cons.prems(3) in simp_all)
  show ?case
    using Cons.prems(1) step w IH accounted_note_sent [of ho B "st\<lparr>mr_world := w, mr_sent := mr_sent st @ clears\<rparr>"]
    by (cases outcome) (auto simp: kt)
qed simp

text \<open>The put-if-absent copies that land during the run are such tasks.\<close>

lemma join_mark_records: "records_marks E lru_wf ho (join_mark E now key h)"
proof -
  have "cache_inv E lru_wf (snd (join_mark E now key h u)) \<and> running ho (fst (join_mark E now key h u))
      \<and> (\<forall>k. is_marked (snd (join_mark E now key h u)) k \<longrightarrow>
           k \<in> slot_marks (fst (join_mark E now key h u)) \<or> is_marked (snd u) k \<and> k \<notin> slot_marks (fst u))"
    if "cache_inv E lru_wf (snd u)" "running ho (fst u)" for u
    using that mark_migrated_spec [OF that(1), of key]
    by (auto simp: join_mark_def join_took_hashed_def expire_slot_def am_expired_def running_def slot_marks_def
        remarked_def Let_def split: option.splits if_splits)
  then show ?thesis unfolding records_marks_def by blast
qed

text \<open>So are another request to hand over, the request to give this one up, and the news of a roster: none of them takes
  the slot from the run.\<close>

lemma slot_kept_records:
  assumes "\<And>nc. running ho nc \<Longrightarrow> running ho (f nc) \<and> slot_marks (f nc) = slot_marks nc"
  shows "records_marks E lru_wf ho (\<lambda>(nc, c). (f nc, c))"
  using assms by (auto simp: records_marks_def)

lemma running_slot:
  assumes "running ho nc"
  obtains a where "nc_active_migration nc = Some a" "am_abort_requested a = ho_abort_requested ho" "am_completed_at a = None"
    "\<not> am_confirmed a" "\<not> am_remnant a" "expire_slot now nc = nc"
  using assms by (auto simp: running_def expire_slot_def am_expired_def split: option.splits)

lemma guard_new_records:
  "records_marks E lru_wf ho (\<lambda>(nc, c). (snd (guard_new now name addr token ring_id ring r generation joined nc), c))"
proof (rule slot_kept_records)
  fix nc
  assume "running ho nc"
  then show "running ho (snd (guard_new now name addr token ring_id ring r generation joined nc))
      \<and> slot_marks (snd (guard_new now name addr token ring_id ring r generation joined nc)) = slot_marks nc"
    by (rule running_slot [where now = now]) (simp add: guard_new_def running_def slot_marks_def revoke_def Let_def)
qed

lemma abandon_records: "records_marks E lru_wf ho (\<lambda>(nc, c). (snd (abandon_migration now name nc), c))"
proof (rule slot_kept_records)
  fix nc
  assume "running ho nc"
  then show "running ho (snd (abandon_migration now name nc)) \<and> slot_marks (snd (abandon_migration now name nc)) = slot_marks nc"
    by (rule running_slot [where now = now])
      (simp add: abandon_migration_def take_abandoned_slot_def running_def slot_marks_def revoke_def Let_def)
qed

lemma adopt_records: "records_marks E lru_wf ho (\<lambda>(nc, c). (snd (adopt_membership now members r nc), c))"
proof (rule slot_kept_records)
  fix nc
  assume run: "running ho nc"
  have "running ho (snd (judge_slot now members nc)) \<and> slot_marks (snd (judge_slot now members nc)) = slot_marks nc"
    by (rule running_slot [OF run, where now = now]) (simp add: judge_slot_def running_def slot_marks_def revoke_def Let_def)
  then show "running ho (snd (adopt_membership now members r nc)) \<and> slot_marks (snd (adopt_membership now members r nc)) = slot_marks nc"
    by (simp add: adopt_membership_def case_prod_unfold Let_def arc_new_def running_def slot_marks_def)
qed

lemma unwind_undoes:
  assumes "accounted E lru_wf ho B (mr_marked st) (mr_world st)"
    and "marks_nothing E lru_wf (fi_unwinding fi)" "marks_nothing E lru_wf (fi_dropping fi)"
    and "is_marked (snd (mr_world (unwind ho fi st))) k"
  shows "k \<in> B \<and> k \<notin> set (mr_marked st) \<and> k \<notin> slot_marks (fst (mr_world st))"
proof -
  obtain nc c where w: "mr_world st = (nc, c)" by force
  obtain a where a: "nc_active_migration nc = Some a" "am_abort_requested a = ho_abort_requested ho"
    using assms(1) by (auto simp: accounted_def running_def w split: option.splits)
  define restore where "restore = mr_marked st @ am_marked_keys a"
  have marks: "slot_marks nc = set (am_marked_keys a)" by (simp add: slot_marks_def a)
  have inv: "cache_inv E lru_wf c" and known: "is_marked c k \<Longrightarrow> k \<in> B \<or> k \<in> set restore"
    using assms(1) marks by (auto simp: accounted_def w restore_def)
  have "is_marked c k \<and> k \<notin> set restore"
  proof (cases "restore = []")
    case True
    then show ?thesis using assms(4) by (simp add: unwind_def w take_join_marks_def a restore_def)
  next
    case False
    obtain nc' c' where v: "fi_unwinding fi (nc\<lparr>nc_active_migration := Some (a\<lparr>am_marked_keys := []\<rparr>)\<rparr>, c) = (nc', c')"
      by force
    have c': "cache_inv E lru_wf c'" "is_marked c' k \<Longrightarrow> is_marked c k"
      using assms(2) inv v unfolding marks_nothing_def by (metis snd_conv)+
    have "is_marked (snd (fi_dropping fi (nc', fold clear_migrated_mark restore c'))) k"
      using assms(4) False v by (simp add: unwind_def w take_join_marks_def a restore_def unmark_migrated_many_def Let_def split: if_splits)
    then have "is_marked (fold clear_migrated_mark restore c') k"
      using assms(3) clear_marks_spec [OF c'(1), of restore] unfolding marks_nothing_def by (metis snd_conv)
    then show ?thesis using c' clear_marks_spec [OF c'(1), of restore] by simp
  qed
  then show ?thesis using known marks by (simp add: w restore_def)
qed

end

section \<open>The run\<close>

lemma unwind_fields [simp]:
  "mr_marked (unwind ho fi st) = mr_marked st" "mr_count (unwind ho fi st) = mr_count st"
  "mr_sent (unwind ho fi st) = mr_sent st"
  by (simp_all add: unwind_def Let_def case_prod_unfold)

text \<open>What follows the loop, as one function of where it ended.\<close>

lemma run_migration_cases:
  assumes "run_migration E ho self (Some keys) fi w = Some (outcome, st)"
  obtains (Failed) st' where "migrate_keys E ho self keys
        \<lparr>mr_world = w, mr_marked = [], mr_sent = [], mr_count = 0, mr_rereplicate = False\<rparr> = Some (False, st')"
      "outcome = RunFailed" "st = unwind ho fi st'"
    | (Cancelled) st' where "migrate_keys E ho self keys
        \<lparr>mr_world = w, mr_marked = [], mr_sent = [], mr_count = 0, mr_rereplicate = False\<rparr> = Some (True, st')"
      "outcome = RunCancelled" "st = unwind ho fi (st'\<lparr>mr_world := fi_before fi (mr_world st')\<rparr>)"
    | (Flipped) st' clears nc where "migrate_keys E ho self keys
        \<lparr>mr_world = w, mr_marked = [], mr_sent = [], mr_count = 0, mr_rereplicate = False\<rparr> = Some (True, st')"
      "outcome = RunFailedAfterFlip" "map_option ms_ring (nc_known_ring nc) = Some (ho_after_ring ho)"
      "running ho nc = running ho (fst (fi_before fi (mr_world st')))" "slot_marks nc = slot_marks (fst (fi_before fi (mr_world st')))"
      "st = unwind ho fi (st'\<lparr>mr_world := fi_between fi (nc, snd (fi_before fi (mr_world st'))), mr_sent := mr_sent st' @ clears\<rparr>)"
    | (Completed) st' clears w' b where "migrate_keys E ho self keys
        \<lparr>mr_world = w, mr_marked = [], mr_sent = [], mr_count = 0, mr_rereplicate = False\<rparr> = Some (True, st')"
      "outcome = RunCompleted" "ho_abort_requested ho \<notin> set (nc_aborted (fst (fi_before fi (mr_world st'))))"
      "st = st'\<lparr>mr_world := w', mr_sent := mr_sent st' @ clears, mr_rereplicate := b\<rparr>"
proof -
  obtain ended st' where loop: "migrate_keys E ho self keys
      \<lparr>mr_world = w, mr_marked = [], mr_sent = [], mr_count = 0, mr_rereplicate = False\<rparr> = Some (ended, st')"
    using assms by (auto simp: run_migration_def split: Option.bind_splits)
  obtain nc c where fb: "fi_before fi (mr_world st') = (nc, c)" by force
  define flip where "flip = (snd (arc_new nc))\<lparr>nc_known_ring := Some \<lparr>ms_id = fst (arc_new nc),
      ms_ring_id = ho_after_ring_id ho, ms_ring = ho_after_ring ho, ms_replication = ho_replication ho\<rparr>\<rparr>"
  obtain clears ok nc2 where dr: "drain_pending_clears (fi_clears fi) flip = ((clears, ok), nc2)"
    by (metis prod.exhaust)
  have kr: "map_option ms_ring (nc_known_ring nc2) = Some (ho_after_ring ho)"
    using dr by (auto simp: drain_pending_clears_def flip_def case_prod_unfold Let_def split: option.splits)
  have slot: "running ho nc2 = running ho nc" "slot_marks nc2 = slot_marks nc"
    using dr drained_slot(1) [of ho "fi_clears fi" flip] drained_slot(2) [of "fi_clears fi" flip]
    by (simp_all add: flip_def arc_new_def running_def slot_marks_def)
  note defs = assms [unfolded run_migration_def option.case loop Option.bind.bind_lunit prod.case fb Let_def]
  consider "\<not> ended" | "ended" "ho_abort_requested ho \<in> set (nc_aborted nc)"
    | "ended" "ho_abort_requested ho \<notin> set (nc_aborted nc)" "\<not> ok"
    | "ended" "ho_abort_requested ho \<notin> set (nc_aborted nc)" "ok" by blast
  then show thesis
  proof cases
    case 1
    then show thesis using defs loop Failed by simp
  next
    case 2
    then show thesis using defs loop Cancelled fb by simp
  next
    case 3
    then show thesis
      using defs loop dr kr slot fb Flipped [where st' = st' and nc = nc2 and clears = clears] by (simp add: case_prod_unfold flip_def [symmetric])
  next
    case 4
    then show thesis
      using defs loop dr fb Completed [of st'] by (auto simp: case_prod_unfold flip_def [symmetric])
  qed
qed

text \<open>C38. A completed run has handed over the node's whole share, whatever the node's other tasks did meanwhile (they
  keep the cache well formed, and an abort once asked for stays asked for). Take a key of the snapshot that the joiner
  will own and this node owned, and any property \<open>P\<close> its live entry has at the start and the other tasks keep: the
  entry went out, with a value and lifetime that have \<open>P\<close>. A copy was marked dead only if it was sent and the join
  takes it from this node, and no more entries went out than the run announced.\<close>

theorem completed_run_sent_share:
  assumes "lru_cache E lru_wf" "cache_inv E lru_wf (snd w)"
    and "run_migration E ho self (Some keys) fi w = Some (RunCompleted, st)"
    and "\<forall>u. set (nc_aborted (fst u)) \<subseteq> set (nc_aborted (fst (fi_before fi u)))"
    and "(key, turn) \<in> set keys" "distinct (map fst keys)" "key_hash_of key = Some h"
    and "is_owner_hashed (ho_after_ring ho) h (ho_joining_name ho) (ho_replication ho)"
    and "is_owner_hashed (ho_before_ring ho) h self (ho_replication ho)"
    and "\<forall>(k, t) \<in> set keys. turn_keeps (cache_inv E lru_wf) t \<and> turn_keeps (live_as E key (tn_now turn) P) t"
    and "live_as E key (tn_now turn) P (snd w)"
    and "entries_to_send_count ho self (map fst keys) = Some n"
  shows "(\<exists>v ttl. FwdHandoffSet key v ttl True (ho_joining_token ho) \<in> set (mr_sent st) \<and> P v ttl)
    \<and> (\<forall>k \<in> set (mr_marked st). sent_and_displaced ho self (mr_sent st) k)
    \<and> mr_count st \<le> n"
proof -
  obtain st' clears where run: "migrate_keys E ho self keys
      \<lparr>mr_world = w, mr_marked = [], mr_sent = [], mr_count = 0, mr_rereplicate = False\<rparr> = Some (True, st')"
    and fin: "ho_abort_requested ho \<notin> set (nc_aborted (fst (fi_before fi (mr_world st'))))"
    and same: "mr_marked st = mr_marked st'" "mr_count st = mr_count st'" "mr_sent st = mr_sent st' @ clears"
    by (rule run_migration_cases [OF assms(3)]) auto
  have live: "ho_abort_requested ho \<notin> set (nc_aborted (fst (mr_world st')))" using assms(4) fin by blast
  have due: "key_is_sent ho self h" using assms(8,9) by (simp add: key_is_sent_def)
  have "\<exists>v ttl. FwdHandoffSet key v ttl True (ho_joining_token ho) \<in> set (mr_sent st') \<and> P v ttl"
    by (rule lru_cache.migrate_keys_sends [OF assms(1) run live assms(5,6,7) due assms(10)]) (use assms(2,11) in simp_all)
  moreover have "\<forall>k \<in> set (mr_marked st'). sent_and_displaced ho self (mr_sent st') k"
    using migrate_keys_marks [OF run] by simp
  moreover have "mr_count st' \<le> n" using migrate_keys_count [OF run assms(12)] by simp
  ultimately show ?thesis
    using same sent_and_displaced_mono [of ho self "mr_sent st'" _ "mr_sent st' @ clears"] by auto
qed

section \<open>Giving up\<close>

lemma slot_given_up: "nc_active_migration (guard_drop now nc) = Some a \<Longrightarrow> am_remnant a"
  by (auto simp: guard_drop_def take_slot_keeping_lingering_def revoke_def arc_new_def Let_def split: option.splits if_splits)

lemma slot_lingers: "nc_active_migration (guard_drop now nc) = Some a \<Longrightarrow> list_all (lf_forwarding_open now) (am_lingering a)"
  by (auto simp: guard_drop_def take_slot_keeping_lingering_def revoke_def arc_new_def Let_def list_all_iff
      split: option.splits if_splits)

lemma guard_drop_known_ring: "nc_known_ring (guard_drop now nc) = nc_known_ring nc"
  by (auto simp: guard_drop_def take_slot_keeping_lingering_def revoke_def arc_new_def Let_def split: option.splits)

lemma take_join_marks_known_ring: "nc_known_ring (snd (take_join_marks f nc)) = nc_known_ring nc"
  by (auto simp: take_join_marks_def split: option.splits)

text \<open>C39. A run that does not complete leaves no mark behind and frees the slot, whether it failed, was cancelled, or
  failed after its last key. While it ran the other tasks left it the slot and recorded there every copy they marked,
  as the put-if-absent copies that land during a join do; during the round trip that undoes the marks they mark
  nothing. Then a copy that is marked dead at the end was so before the run and not on the slot's account: every
  copy the run marked, and every one the others marked and recorded, is live again. The slot is empty but for the
  joiners before this one that are still owed their forwarding window.\<close>

theorem unfinished_run_undoes_marks:
  assumes "lru_cache E lru_wf" "cache_inv E lru_wf (snd w)" "running ho (fst w)"
    and "run_migration E ho self (Some keys) fi w = Some (outcome, st)" "outcome \<noteq> RunCompleted"
    and "\<forall>(k, t) \<in> set keys. turn_records E lru_wf ho t"
    and "records_marks E lru_wf ho (fi_before fi)" "records_marks E lru_wf ho (fi_between fi)"
    and "marks_nothing E lru_wf (fi_unwinding fi)" "marks_nothing E lru_wf (fi_dropping fi)"
  shows "(\<forall>k. is_marked (snd (mr_world st)) k \<longrightarrow>
            is_marked (snd w) k \<and> k \<notin> slot_marks (fst w) \<and> k \<notin> set (mr_marked st))
    \<and> (\<forall>a. nc_active_migration (fst (mr_world st)) = Some a \<longrightarrow>
          am_remnant a \<and> list_all (lf_forwarding_open (fi_now fi)) (am_lingering a))"
proof -
  define B where "B = {k. is_marked (snd w) k \<and> k \<notin> slot_marks (fst w)}"
  have loop: "accounted E lru_wf ho B (mr_marked st') (mr_world st')" if "migrate_keys E ho self keys
      \<lparr>mr_world = w, mr_marked = [], mr_sent = [], mr_count = 0, mr_rereplicate = False\<rparr> = Some (b, st')" for b st'
    by (rule lru_cache.accounted_keys [OF assms(1) that]) (use assms(2,3,6) in \<open>auto simp: accounted_def B_def\<close>)
  note before = accounted_others [OF assms(7) loop]
  have "\<exists>st'. st = unwind ho fi st' \<and> accounted E lru_wf ho B (mr_marked st') (mr_world st')"
  proof (cases rule: run_migration_cases [OF assms(4)])
    case (1 st')
    then show ?thesis using loop by blast
  next
    case (2 st')
    then show ?thesis using before [OF 2(1)] by fastforce
  next
    case (3 st' clears nc)
    have "accounted E lru_wf ho B (mr_marked st') (nc, snd (fi_before fi (mr_world st')))"
      by (rule accounted_slot [OF _ 3(4,5)]) (use before [OF 3(1)] in simp)
    then show ?thesis using accounted_others [OF assms(8)] 3(6) by fastforce
  next
    case (4 st' clears w' b)
    then show ?thesis using assms(5) by simp
  qed
  then obtain st' where st': "st = unwind ho fi st'" "accounted E lru_wf ho B (mr_marked st') (mr_world st')" by blast
  have "nc_active_migration (fst (mr_world st)) = Some a \<Longrightarrow>
      am_remnant a \<and> list_all (lf_forwarding_open (fi_now fi)) (am_lingering a)" for a
    using slot_given_up slot_lingers by (auto simp: st'(1) unwind_def Let_def case_prod_unfold)
  then show ?thesis
    using lru_cache.unwind_undoes [OF assms(1) st'(2) assms(9,10)] by (auto simp: st'(1) B_def)
qed

text \<open>C40. A run whose last replay of clears fails gives up the handoff but keeps the ring it had just installed: as
  long as no other task changes the node's ring meanwhile, the node has no handoff of its own left and still takes the
  post-join ring, with the joiner in it, for the current one.\<close>

theorem late_failure_keeps_joiner_ring:
  assumes "run_migration E ho self (Some keys) fi w = Some (RunFailedAfterFlip, st)"
    and "\<forall>u. nc_known_ring (fst (fi_between fi u)) = nc_known_ring (fst u)"
    and "\<forall>u. nc_known_ring (fst (fi_unwinding fi u)) = nc_known_ring (fst u)"
    and "\<forall>u. nc_known_ring (fst (fi_dropping fi u)) = nc_known_ring (fst u)"
  shows "map_option ms_ring (nc_known_ring (fst (mr_world st))) = Some (ho_after_ring ho)
    \<and> (\<forall>a. nc_active_migration (fst (mr_world st)) = Some a \<longrightarrow> am_remnant a)"
  by (rule run_migration_cases [OF assms(1)])
    (auto simp: assms(2-4) unwind_def Let_def case_prod_unfold guard_drop_known_ring take_join_marks_known_ring
      dest: slot_given_up)

section \<open>A concrete run\<close>

text \<open>A node \<open>n\<close>, alone before the join of \<open>j\<close>, with the clears \<open>clears\<close> waiting to be replayed; the other tasks do nothing unless said otherwise.\<close>

definition joining :: "bytes list \<Rightarrow> nat \<Rightarrow> handoff" where
  "joining after r = \<lparr>ho_joining_name = ''j'', ho_joining_addr = ''h'', ho_joining_token = ''t'', ho_replication = r,
     ho_before_ring = new_ring [''n''], ho_after_ring_id = 0, ho_after_ring = new_ring after, ho_abort_requested = 1\<rparr>"

definition running_node :: "bytes list \<Rightarrow> nat \<Rightarrow> bytes list \<Rightarrow> node_context" where
  "running_node after r clears = \<lparr>nc_name = ''n'', nc_token = ''t'', nc_active_migration = Some
     \<lparr>am_joining_name = ''j'', am_joining_addr = ''h'', am_joining_token = ''t'', am_after_ring_id = 0,
      am_after_ring = new_ring after, am_replication = r, am_generation = Some 1, am_completed_at = None,
      am_forwarding_grace = 0, am_acked_entries = Some 1, am_abort_requested = 1, am_marked_keys = [],
      am_confirmed = False, am_pre_completion_ring = None,
      am_pending_clears = \<lparr>pc_all = False, pc_namespaces = clears, pc_bytes = sum_list (map length clears)\<rparr>,
      am_forward_connection = 2, am_forward_revoked = 3, am_lingering = [], am_remnant = False\<rparr>,
     nc_known_ring = None, nc_latest_published = None, nc_promoted = True, nc_leaving = None,
     nc_rereplication_forward = None, nc_ring_history = \<lparr>rh_epochs = [], rh_generation = 0\<rparr>, nc_fresh = 4,
     nc_revoked = [], nc_aborted = []\<rparr>"

definition quiet_turn :: "(bytes \<times> entry) list turn" where
  "quiet_turn = \<lparr>tn_before = \<lambda>u. u, tn_clears = [], tn_between = \<lambda>u. u, tn_now = 3, tn_sent = True, tn_during = \<lambda>u. u\<rparr>"

text \<open>The end of a run during which the flags \<open>aborted\<close> are set; \<open>False\<close> fails the first clear.\<close>

definition ending :: "arc list \<Rightarrow> (bytes \<times> entry) list finish" where
  "ending aborted = \<lparr>fi_before = \<lambda>(nc, c). (nc\<lparr>nc_aborted := aborted @ nc_aborted nc\<rparr>, c), fi_clears = [False],
     fi_between = \<lambda>u. u, fi_now = 5, fi_late_clears = [], fi_unwinding = \<lambda>u. u, fi_dropping = \<lambda>u. u\<rparr>"

lemma quiet_keeps: "turn_keeps J quiet_turn"
  by (auto simp: turn_keeps_def keeps_def quiet_turn_def)

lemma idle_records: "records_marks E lru_wf ho (\<lambda>u. u)"
  by (auto simp: records_marks_def)

lemma ending_records:
  "records_marks E lru_wf ho (fi_before (ending aborted))" "records_marks E lru_wf ho (fi_between (ending aborted))"
  "marks_nothing E lru_wf (fi_unwinding (ending aborted))" "marks_nothing E lru_wf (fi_dropping (ending aborted))"
  by (auto simp: ending_def records_marks_def marks_nothing_def running_def slot_marks_def)

lemmas run_evals = run_migration_def migrate_key_def note_sent_def drain_pending_clears_def pc_take_def
  unwind_def take_join_marks_def arc_new_def quiet_turn_def ending_def joining_def all_members_own Let_def

lemma quiet_run_completes:
  "\<exists>st. run_migration (list_env id) (joining [''n'', ''j''] 2) ''n'' (Some [(new_key [] ''k'', quiet_turn)]) (ending [])
     (running_node [''n'', ''j''] 2 [], held_cache) = Some (RunCompleted, st)"
  using short_hash [of "''k''"] held_live by (auto simp: run_evals running_node_def guard_completed_def)

text \<open>While \<open>k\<close> is sent, a copy of \<open>m\<close> lands that the join takes too.\<close>

definition landing_turn :: "u64 \<Rightarrow> (bytes \<times> entry) list turn" where
  "landing_turn h = quiet_turn\<lparr>tn_during := join_mark (list_env id) 3 (new_key [] ''m'') h\<rparr>"

lemma landing_turn_records: "turn_records (list_env id) list_wf ho (landing_turn h)"
  by (simp add: turn_records_def landing_turn_def quiet_turn_def idle_records list_lru.join_mark_records)

lemma cancelled_run_unwinds:
  "\<exists>st. run_migration (list_env id) (joining [''j''] 1) ''n'' (Some [(new_key [] ''k'', landing_turn h)]) (ending [1])
     (running_node [''j''] 1 [], held_cache) = Some (RunCancelled, st) \<and> mr_marked st = [new_key [] ''k'']"
  using short_hash [of "''k''"] held_live
  by (auto simp: run_evals landing_turn_def running_node_def join_mark_def join_took_hashed_def expire_slot_def am_expired_def)

lemma last_clear_fails:
  "\<exists>st. run_migration (list_env id) (joining [''n'', ''j''] 2) ''n'' (Some []) (ending [])
     (running_node [''n'', ''j''] 2 [''x''], held_cache) = Some (RunFailedAfterFlip, st)"
  by (simp add: run_evals running_node_def)

theorem completed_run_sent_share_witness:
  "\<exists>st. run_migration (list_env id) (joining [''n'', ''j''] 2) ''n'' (Some [(new_key [] ''k'', quiet_turn)]) (ending [])
     (running_node [''n'', ''j''] 2 [], held_cache) = Some (RunCompleted, st)
   \<and> FwdHandoffSet (new_key [] ''k'') ''v'' None True ''t'' \<in> set (mr_sent st)"
proof -
  obtain h where h: "key_hash_of (new_key [] ''k'') = Some h" using short_hash by blast
  obtain st where run: "run_migration (list_env id) (joining [''n'', ''j''] 2) ''n'' (Some [(new_key [] ''k'', quiet_turn)]) (ending [])
     (running_node [''n'', ''j''] 2 [], held_cache) = Some (RunCompleted, st)"
    using quiet_run_completes by blast
  have inv: "cache_inv (list_env id) list_wf (snd (running_node [''n'', ''j''] 2 [], held_cache))" using held_cache_inv by simp
  have mono: "\<forall>u. set (nc_aborted (fst u)) \<subseteq> set (nc_aborted (fst (fi_before (ending []) u)))" by (auto simp: ending_def)
  have live: "live_as (list_env id) (new_key [] ''k'') (tn_now quiet_turn) (\<lambda>v ttl. v = ''v'' \<and> ttl = None)
      (snd (running_node [''n'', ''j''] 2 [], held_cache))"
    using held_live by (simp add: live_as_def quiet_turn_def)
  have owners: "is_owner_hashed (ho_after_ring (joining [''n'', ''j''] 2)) h (ho_joining_name (joining [''n'', ''j''] 2))
      (ho_replication (joining [''n'', ''j''] 2))"
    "is_owner_hashed (ho_before_ring (joining [''n'', ''j''] 2)) h ''n'' (ho_replication (joining [''n'', ''j''] 2))"
    by (simp_all add: joining_def all_members_own)
  have count: "entries_to_send_count (joining [''n'', ''j''] 2) ''n'' (map fst [(new_key [] ''k'', quiet_turn)]) = Some 1"
    using h owners by (simp add: key_is_sent_def)
  have "\<exists>v ttl. FwdHandoffSet (new_key [] ''k'') v ttl True (ho_joining_token (joining [''n'', ''j''] 2)) \<in> set (mr_sent st)
      \<and> v = ''v'' \<and> ttl = None"
    using completed_run_sent_share [OF list_lru.lru_cache_axioms inv run mono _ _ h owners _ live count] quiet_keeps
    by simp
  then show ?thesis using run by (auto simp: joining_def)
qed

theorem unfinished_run_undoes_marks_witness:
  "\<exists>h st. key_hash_of (new_key [] ''m'') = Some h
    \<and> fst (join_took_hashed 3 (running_node [''j''] 1 []) (new_key [] ''m'') h)
    \<and> run_migration (list_env id) (joining [''j''] 1) ''n'' (Some [(new_key [] ''k'', landing_turn h)]) (ending [1])
        (running_node [''j''] 1 [], held_cache) = Some (RunCancelled, st)
    \<and> mr_marked st = [new_key [] ''k'']
    \<and> \<not> is_marked (snd (mr_world st)) (new_key [] ''k'') \<and> \<not> is_marked (snd (mr_world st)) (new_key [] ''m'')"
proof -
  obtain h where h: "key_hash_of (new_key [] ''m'') = Some h" using short_hash by blast
  obtain st where run: "run_migration (list_env id) (joining [''j''] 1) ''n'' (Some [(new_key [] ''k'', landing_turn h)])
      (ending [1]) (running_node [''j''] 1 [], held_cache) = Some (RunCancelled, st)" "mr_marked st = [new_key [] ''k'']"
    using cancelled_run_unwinds by blast
  have start: "cache_inv (list_env id) list_wf (snd (running_node [''j''] 1 [], held_cache))"
    "running (joining [''j''] 1) (fst (running_node [''j''] 1 [], held_cache))"
    using held_cache_inv by (simp_all add: running_def running_node_def joining_def)
  have took: "fst (join_took_hashed 3 (running_node [''j''] 1 []) (new_key [] ''m'') h)"
    by (simp add: join_took_hashed_def running_node_def expire_slot_def am_expired_def all_members_own)
  have "\<not> is_marked (snd (mr_world st)) k" for k
    using unfinished_run_undoes_marks [OF list_lru.lru_cache_axioms start run(1) _ _ ending_records]
      landing_turn_records held_unmarked by auto
  then show ?thesis using h took run by blast
qed

text \<open>A copy marked during the round trip is beyond the run: it is recorded in a slot whose marks have been taken
  already, and the guard drops the slot. The mark stays with nothing left to undo it.\<close>

lemma late_join_mark_survives:
  "\<exists>h st. key_hash_of (new_key [] ''m'') = Some h
    \<and> run_migration (list_env id) (joining [''j''] 1) ''n'' (Some [(new_key [] ''k'', quiet_turn)])
        ((ending [1])\<lparr>fi_dropping := join_mark (list_env id) 4 (new_key [] ''m'') h\<rparr>)
        (running_node [''j''] 1 [], held_cache) = Some (RunCancelled, st)
    \<and> is_marked (snd (mr_world st)) (new_key [] ''m'') \<and> nc_active_migration (fst (mr_world st)) = None"
proof -
  obtain h where h: "key_hash_of (new_key [] ''m'') = Some h" using short_hash by blast
  define c where "c = fold clear_migrated_mark [new_key [] ''k''] (mark_migrated (list_env id) (new_key [] ''k'') held_cache)"
  note m = list_lru.mark_migrated_spec [OF held_cache_inv, of "new_key [] ''k''"]
  have c: "cache_inv (list_env id) list_wf c" "peek (list_env id) c (new_key [] ''m'') \<noteq> None"
    using list_lru.clear_marks_spec [OF m(1), of "[new_key [] ''k'']"] m(2) held_peek(2)
    by (simp_all add: c_def remarked_def)
  have "is_marked (mark_migrated (list_env id) (new_key [] ''m'') c) (new_key [] ''m'')"
    using list_lru.mark_migrated_spec(2) [OF c(1)] c(2) by (simp add: remarked_def)
  then show ?thesis
    using h short_hash [of "''k''"] held_live
    by (auto simp: run_evals running_node_def join_mark_def join_took_hashed_def expire_slot_def am_expired_def
        unmark_migrated_many_def guard_drop_def take_slot_keeping_lingering_def revoke_def c_def)
qed

theorem late_failure_keeps_joiner_ring_witness:
  "\<exists>st. run_migration (list_env id) (joining [''n'', ''j''] 2) ''n'' (Some []) (ending []) (running_node [''n'', ''j''] 2 [''x''], held_cache)
      = Some (RunFailedAfterFlip, st)
    \<and> map_option ms_ring (nc_known_ring (fst (mr_world st))) = Some (new_ring [''n'', ''j''])"
proof -
  obtain st where run: "run_migration (list_env id) (joining [''n'', ''j''] 2) ''n'' (Some []) (ending [])
      (running_node [''n'', ''j''] 2 [''x''], held_cache) = Some (RunFailedAfterFlip, st)"
    using last_clear_fails by blast
  show ?thesis
    using late_failure_keeps_joiner_ring [OF run] run by (simp add: ending_def joining_def)
qed

end
