(* ===== verification/Spec2Isabelle.thy ===== *)
theory Spec2Isabelle
  imports Ring_Clients Node_Props Handoff_Props Wire_Roundtrip Parse_Props Forward_Props Cluster_Props Slot_Props Run_Props
begin

text \<open>
  A verification development of nanocached: a cache whose nodes each hold a share of the keys in memory, placed by
  rendezvous hashing and replicated on the first \<open>R\<close> nodes of a key's ranking.

  \<^bold>\<open>The program.\<close> A node (\<^verbatim>\<open>src/src/server.rs\<close>) reads requests off its connections
  (\<^verbatim>\<open>src/src/command.rs\<close>), runs them one after another on its store (\<^verbatim>\<open>src/src/cache.rs\<close>) and writes
  the replies (\<^verbatim>\<open>src/src/response.rs\<close>). The clients, the proxy and the nodes each compute which nodes own
  a key (\<^verbatim>\<open>src/src/hash_ring.rs\<close> and its copies). When a node joins, discovery orders every member to hand
  over what the joiner will own; when one leaves or is evicted, copies go to the nodes the change promotes. While
  that lasts, each node forwards its clients' writes to the nodes that will need them.

  \<^bold>\<open>Conventions.\<close> Bytes are characters, 64-bit hashes are \<open>64 word\<close>, instants and durations are
  nanoseconds in \<open>nat\<close>, a hash map is an association list. \<open>None\<close> is a panic or a loop that does not
  return; a parser's result is \<open>parse_error + 'a\<close>. \<^verbatim>\<open>Instant::now()\<close> is an argument. An \<^verbatim>\<open>Arc\<close>
  compared by address, or shared as a flag, is the number of its allocation.

  \<^bold>\<open>Theories.\<close>
  \<^item> \<open>Prelude\<close>: types, machine bounds and the generic lemmas; \<open>Node_Key\<close> (\<^verbatim>\<open>key.rs\<close>), \<open>Text_Codec\<close>
    (decimal and UTF-8 text), \<open>Infra\<close> (\<^verbatim>\<open>infra.rs\<close>: \<open>constant_time_eq\<close>).
  \<^item> \<open>Hash_Ring\<close>: \<^verbatim>\<open>hash_ring.rs\<close>. The locale \<open>hrw_ring\<close> says a placement takes the first nodes of the
    ranking; it is interpreted on the node's ring here and, in \<open>Ring_Clients\<close>, on those of the Rust SDK, the proxy
    and the join harness. The lemmas show that all four agree and that a join or a leave moves one owner.
  \<^item> \<open>Lru_Interface\<close>: the LRU map and SHA-256, which are not in the repository, as the parameter \<open>E\<close> with the laws
    of the locale \<open>lru_cache\<close>; a list that keeps them is the instance the witnesses use.
  \<^item> \<open>Cache_Model\<close>: every operation of \<^verbatim>\<open>cache.rs\<close>. \<open>Cache_Invariant\<close>, \<open>Cache_Evict\<close>, \<open>Cache_Ops\<close>,
    \<open>Cache_Read\<close>, \<open>Cache_Cond\<close>, \<open>Cache_Handoff\<close>, \<open>Cache_Sweep\<close>, \<open>Cache_View\<close> and \<open>Cache_Batch\<close> prove that each keeps
    the invariant (exact accounting, unique recency stamps, marks only on held entries) and what it does to the
    map a client sees.
  \<^item> \<open>Response\<close> and \<open>Command\<close>: the replies and \<open>Command::execute\<close>. \<open>Node_Exec\<close> and \<open>Node_Props\<close>: every session of
    commands refines a map that may lose entries, within its memory budget. \<open>Handoff_Props\<close>: relayed copies and
    deletes, the sweep and which dead copies it keeps, the reclaim and the batches. \<open>Sample_Store\<close>: the small store
    the witnesses of the handoffs evaluate.
  \<^item> \<open>Command_Parse\<close>: the resumable parser. \<open>Parse_Lemmas\<close>, \<open>Parse_Safety\<close>, \<open>Parse_Resume\<close>, \<open>Parse_Props\<close>: how the
    bytes are cut into chunks does not matter, requests are bounded, refusals are final, and a batch is charged
    before it is built.
  \<^item> \<open>Wire_Messages\<close> and \<open>Wire_Roundtrip\<close>: the messages of nodes, discovery and proxy, and that the parser reads
    each as the command meant.
  \<^item> \<open>Forward_Queue\<close> and \<open>Forward_Props\<close>: \<open>TargetQueue\<close> and \<open>ForwardQueues\<close>; coalescing keeps the effect, the bytes
    are counted exactly and bounded, and a refused push is admitted once the drainer has worked off what waits.
    \<open>fq_push\<close> is one attempt: the order in which several waiting pushes are woken is not modelled.
  \<^item> \<open>Cluster_State\<close> and \<open>Cluster_Props\<close>: \<open>NodeContext\<close> and what it decides (\<open>wrong_node_hashed\<close>,
    \<open>not_the_primary\<close>, the forwarding targets); in a settled cluster exactly the owners serve and one is primary, a
    leaver and the survivors of an eviction send each key to exactly the promoted nodes.
  \<^item> \<open>Migration_Slot\<close> and \<open>Slot_Props\<close>: \<open>PendingClears\<close>, \<open>RingHistory\<close>, \<open>MigrationGuard\<close>, abandoning a handoff,
    \<open>adopt_membership\<close>; one handoff at a time, no clear lost, no membership of the grace period overlooked.
  \<^item> \<open>Migration_Run\<close> and \<open>Run_Props\<close>: \<open>run_migration\<close>, with the steps of the node's other tasks and the network's
    answers as parameters; a completed run sent the whole share, and after an unfinished one the cache has no mark it
    had not before, neither the run's own nor one recorded in its slot. Two defects of the code show here: a run that
    fails in its last replay of clears keeps the post-join ring, and a copy that lands and is marked while a run that
    gives up awaits its rollback keeps the mark (\<open>late_join_mark_survives\<close>).

  \<^bold>\<open>Loops.\<close> No definition uses fuel. Loops over lists are structural; the eviction loops are partial functions
  whose termination is proved from the invariant (\<open>Cache_Evict\<close>), so the theorems on commands say that they return.

  \<^bold>\<open>Not modelled.\<close>
  \<^item> \<open>handle_connection\<close> and the heartbeat, decommission and re-replication tasks of \<^verbatim>\<open>server.rs\<close>: loops over sockets,
    timers and channels. The parser, executor, queues and cluster state they call are modelled, but not the order in
    which they call them: that a command waits for authentication, or that an acknowledged write was forwarded,
    is not shown. Nor are the steps by which those tasks open and close a leave's or a re-replication's window.
  \<^item> In \<open>run_migration\<close>: the report to discovery, the roster fetch for a re-replication, and the connections and
    retries inside one transfer, whose outcome is a parameter.
  \<^item> Where bytes lie in memory: that the hint of \<open>find_namespace\<close> and the charge of a queued namespace compare
    addresses is a parameter (\<open>same_alloc\<close>, \<open>address\<close>) about which only soundness is assumed.
  \<^item> The discovery service and the proxy's connections, but for the messages they build and the proxy's ring.
  \<^item> The memory budget of requests in flight, TLS, logging, signals, process start-up, the simulation runtime, and
    the SDKs and adapters other than the Rust SDK's ring.
  \<^item> Threads: the store is one task, and a lock's section is one step.
\<close>

end
